(* ===== verification/Prelude.thy ===== *)
theory Prelude
  imports Main "HOL-Library.Word"
begin

unbundle bit_operations_syntax

text \<open>
  What every component of the development shares: the machine types of
  \<^verbatim>\<open>kernel/types.h\<close>, the result type of a kernel routine (it returns, it
  panics, or it goes to sleep on a channel that nobody signals during the call), the
  sequencing operator for such results, and generic facts on words that the
  components' proofs rest on.
\<close>

named_theorems res_simps \<open>rewriting of results of kernel routines\<close>
named_theorems pte_simps \<open>bits of page-table entries\<close>

section \<open>Machine types\<close>

type_synonym uchar = "8 word"
type_synonym ushort = "16 word"
type_synonym uint = "32 word"
type_synonym uint64 = "64 word"

section \<open>Results of kernel routines\<close>

text \<open>
  \<open>Panic\<close> is a call of \<^verbatim>\<open>panic()\<close>, which never returns. \<open>Blocked\<close> is a routine
  that would sleep: the caller's process leaves the CPU, so the routine does not
  return during the atomic run that the model describes. \<open>OutOfFuel\<close> is a loop that
  did not finish within the iterations the model allows it; the lemmas of each
  component show that it does not occur.
\<close>

datatype 'a res = Ok 'a | Panic string | Blocked string | OutOfFuel

fun bindR :: "'a res \<Rightarrow> ('a \<Rightarrow> 'b res) \<Rightarrow> 'b res" where
  "bindR (Ok a) f = f a"
| "bindR (Panic e) f = Panic e"
| "bindR (Blocked c) f = Blocked c"
| "bindR OutOfFuel f = OutOfFuel"

fun is_ok :: "'a res \<Rightarrow> bool" where
  "is_ok (Ok a) = True"
| "is_ok (Panic e) = False"
| "is_ok (Blocked c) = False"
| "is_ok OutOfFuel = False"

text \<open>A \<^verbatim>\<open>for\<close> loop over the elements of a list, each iteration of which may panic.\<close>

fun foldR :: "('a \<Rightarrow> 's \<Rightarrow> 's res) \<Rightarrow> 'a list \<Rightarrow> 's \<Rightarrow> 's res" where
  "foldR f [] s = Ok s"
| "foldR f (x # xs) s = bindR (f x s) (foldR f xs)"

lemma bindR_cong [fundef_cong]:
  "r = r' \<Longrightarrow> (\<And>a. r' = Ok a \<Longrightarrow> f a = g a) \<Longrightarrow> bindR r f = bindR r' g"
  by (cases r') auto

lemma bindR_eq_Ok [res_simps]: "bindR r f = Ok b \<longleftrightarrow> (\<exists>a. r = Ok a \<and> f a = Ok b)"
  by (cases r) auto

lemma bindR_assoc: "bindR (bindR r f) g = bindR r (\<lambda>a. bindR (f a) g)"
  by (cases r) auto

lemma bindR_not_fuel: "bindR r f = OutOfFuel \<longleftrightarrow> r = OutOfFuel \<or> (\<exists>a. r = Ok a \<and> f a = OutOfFuel)"
  by (cases r) auto

lemma foldR_append: "foldR f (xs @ ys) s = bindR (foldR f xs s) (foldR f ys)"
  by (induction xs arbitrary: s) (auto simp: bindR_assoc intro: bindR_cong)

lemma is_ok_iff: "is_ok r \<longleftrightarrow> (\<exists>a. r = Ok a)"
  by (cases r) auto

section \<open>Words\<close>

lemma word_zero_or_pos: "(x :: 'a::len word) = 0 \<or> 0 < x"
  using word_gt_0 by blast

lemma word_eq_of_nat_iff:
  "n < 2 ^ LENGTH('a) \<Longrightarrow> (x :: 'a::len word) = of_nat n \<longleftrightarrow> unat x = n"
  by (simp add: word_unat_eq_iff unat_of_nat)

lemma unat_add_of_nat:
  "unat (a :: 'a::len word) + n < 2 ^ LENGTH('a) \<Longrightarrow> unat (a + of_nat n) = unat a + n"
  by (simp add: unat_word_ariths unat_of_nat)

lemma unat_diff_of_nat:
  "n < 2 ^ LENGTH('a) \<Longrightarrow> unat ((a + of_nat n) - (a :: 'a::len word)) = n"
  by (simp add: unat_of_nat)

lemma unat64_less: "unat (x :: uint64) < 18446744073709551616"
  using unsigned_less [of x, where ?'a = nat] by simp

lemma unat_minus_one_less:
  assumes "n < 2 ^ LENGTH('a)"
  shows "unat ((x :: 'a::len word) - 1) < n \<longleftrightarrow> 0 < unat x \<and> unat x < Suc n"
proof (cases "x = 0")
  case True
  then show ?thesis using assms by (auto simp: unsigned_minus_1_eq_mask mask_nat_def)
next
  case False
  then have "0 < unat x" by (simp add: unat_gt_0)
  with False show ?thesis by (auto simp: unat_minus_one)
qed

lemma sint_small:
  assumes "unat (x :: uint) < 2147483648"
  shows "sint x = int (unat x)"
proof -
  have "signed_take_bit 31 (int n) = int n" if "n < 2147483648" for n
    by (rule signed_take_bit_int_eq_self) (use that in simp_all)
  from this [OF assms] show ?thesis unfolding sint_uint uint_nat by simp
qed

end
