(* ===== verification/Riscv.thy ===== *)
theory Riscv
  imports Prelude
begin

text \<open>
  The Sv39 constants and macros of \<^verbatim>\<open>kernel/riscv.h\<close>, the address-space
  layout of \<^verbatim>\<open>kernel/memlayout.h\<close> and the limits of \<^verbatim>\<open>kernel/param.h\<close>, with the
  facts on alignment, page-table entries and page-table indices that the memory
  components use. A \<^verbatim>\<open>uint64\<close> is a 64-bit word throughout, so every macro wraps
  around as the C expression does.
\<close>

section \<open>param.h\<close>

definition NPROC :: nat where [simp]: "NPROC = 64"
definition NCPU :: nat where [simp]: "NCPU = 8"
definition PRIORITY_MIN :: int where [simp]: "PRIORITY_MIN = 0"
definition PRIORITY_MAX :: int where [simp]: "PRIORITY_MAX = 4"
definition DEFAULT_PRIORITY :: int where [simp]: "DEFAULT_PRIORITY = 2"
definition AGING_INTERVAL :: uint where [simp]: "AGING_INTERVAL = 20"
definition NOFILE :: nat where [simp]: "NOFILE = 16"
definition NFILE :: nat where [simp]: "NFILE = 100"
definition NINODE :: nat where [simp]: "NINODE = 50"
definition NDEV :: nat where [simp]: "NDEV = 10"
definition ROOTDEV :: uint where [simp]: "ROOTDEV = 1"
definition MAXARG :: nat where [simp]: "MAXARG = 32"
definition MAXOPBLOCKS :: nat where [simp]: "MAXOPBLOCKS = 10"
definition LOGBLOCKS :: nat where [simp]: "LOGBLOCKS = MAXOPBLOCKS * 3"
definition NBUF :: nat where [simp]: "NBUF = MAXOPBLOCKS * 3"
definition FSSIZE :: nat where [simp]: "FSSIZE = 2000"
definition MAXPATH :: nat where [simp]: "MAXPATH = 128"
definition USERSTACK :: uint64 where [simp]: "USERSTACK = 1"

section \<open>riscv.h\<close>

definition PGSIZE :: uint64 where [simp]: "PGSIZE = 4096"
definition PGSHIFT :: nat where [simp]: "PGSHIFT = 12"

definition PGROUNDUP :: "uint64 \<Rightarrow> uint64" where
  "PGROUNDUP sz = (sz + PGSIZE - 1) AND NOT (PGSIZE - 1)"

definition PGROUNDDOWN :: "uint64 \<Rightarrow> uint64" where
  "PGROUNDDOWN a = a AND NOT (PGSIZE - 1)"

definition PTE_V :: uint64 where [simp]: "PTE_V = 1"
definition PTE_R :: uint64 where [simp]: "PTE_R = 2"
definition PTE_W :: uint64 where [simp]: "PTE_W = 4"
definition PTE_X :: uint64 where [simp]: "PTE_X = 8"
definition PTE_U :: uint64 where [simp]: "PTE_U = 16"
definition PTE_COW :: uint64 where [simp]: "PTE_COW = 256"

definition PA2PTE :: "uint64 \<Rightarrow> uint64" where
  "PA2PTE pa = push_bit 10 (drop_bit 12 pa)"

definition PTE2PA :: "uint64 \<Rightarrow> uint64" where
  "PTE2PA pte = push_bit 12 (drop_bit 10 pte)"

definition PTE_FLAGS :: "uint64 \<Rightarrow> uint64" where
  "PTE_FLAGS pte = pte AND 0x3FF"

definition PXMASK :: uint64 where [simp]: "PXMASK = 0x1FF"

definition PXSHIFT :: "nat \<Rightarrow> nat" where
  "PXSHIFT level = PGSHIFT + 9 * level"

definition PX :: "nat \<Rightarrow> uint64 \<Rightarrow> uint64" where
  "PX level va = drop_bit (PXSHIFT level) va AND PXMASK"

definition MAXVA :: uint64 where [simp]: "MAXVA = 0x4000000000"

definition SATP_SV39 :: uint64 where [simp]: "SATP_SV39 = 0x8000000000000000"

definition MAKE_SATP :: "uint64 \<Rightarrow> uint64" where
  "MAKE_SATP pagetable = SATP_SV39 OR drop_bit 12 pagetable"

section \<open>memlayout.h\<close>

definition KERNBASE :: uint64 where [simp]: "KERNBASE = 0x80000000"
definition PHYSTOP :: uint64 where [simp]: "PHYSTOP = KERNBASE + 128 * 1024 * 1024"
definition TRAMPOLINE :: uint64 where [simp]: "TRAMPOLINE = MAXVA - PGSIZE"
definition TRAPFRAME :: uint64 where [simp]: "TRAPFRAME = TRAMPOLINE - PGSIZE"

definition KSTACK :: "nat \<Rightarrow> uint64" where
  "KSTACK p = TRAMPOLINE - (of_nat p + 1) * 2 * PGSIZE"

section \<open>Alignment\<close>

text \<open>A page address, tested as \<^verbatim>\<open>kfree()\<close> tests it.\<close>

definition pgaligned :: "uint64 \<Rightarrow> bool" where
  "pgaligned a \<longleftrightarrow> a mod PGSIZE = 0"

lemma mask12: "(4095 :: uint64) = mask 12"
  by (simp add: mask_eq_exp_minus_1)

lemma mask9: "(511 :: uint64) = mask 9"
  by (simp add: mask_eq_exp_minus_1)

lemma mask10: "(1023 :: uint64) = mask 10"
  by (simp add: mask_eq_exp_minus_1)

lemma pgaligned_mask: "pgaligned a \<longleftrightarrow> a AND mask 12 = 0"
  by (simp add: pgaligned_def take_bit_eq_mod flip: take_bit_eq_mask)

lemma pgaligned_bit: "pgaligned a \<longleftrightarrow> (\<forall>n<12. \<not> bit a n)"
proof -
  have "pgaligned a \<longleftrightarrow> (\<forall>n<64. bit a n \<longrightarrow> \<not> n < 12)"
    by (auto simp: pgaligned_mask bit_eq_iff bit_simps)
  also have "\<dots> \<longleftrightarrow> (\<forall>n<12. \<not> bit a n)"
  proof -
    have "n < 12 \<Longrightarrow> n < 64" for n :: nat by simp
    then show ?thesis by blast
  qed
  finally show ?thesis .
qed

lemma PGROUNDDOWN_bit: "bit (PGROUNDDOWN a) n \<longleftrightarrow> bit a n \<and> 12 \<le> n"
  by (auto simp: PGROUNDDOWN_def mask12 bit_simps dest: bit_imp_le_length)

lemma pgaligned_PGROUNDDOWN [simp]: "pgaligned (PGROUNDDOWN a)"
  by (simp add: pgaligned_bit PGROUNDDOWN_bit)

lemma PGROUNDDOWN_aligned [simp]: "pgaligned a \<Longrightarrow> PGROUNDDOWN a = a"
  by (rule bit_word_eqI) (auto simp: pgaligned_bit PGROUNDDOWN_bit simp flip: not_less)

lemma pgaligned_iff: "pgaligned a \<longleftrightarrow> PGROUNDDOWN a = a"
  by (metis PGROUNDDOWN_aligned pgaligned_PGROUNDDOWN)

lemma pgaligned_bitD: "pgaligned a \<Longrightarrow> bit a n \<Longrightarrow> 12 \<le> n"
  by (auto simp: pgaligned_bit simp flip: not_less)

lemma less_exp_bitD: "(x :: uint64) < 2 ^ n \<Longrightarrow> bit x m \<Longrightarrow> m < n"
  using less_mask_eq [of x n] bit_take_bit_iff [of n x m] by (auto simp: take_bit_eq_mask)

lemma bit_less_exp:
  assumes "\<And>m. bit x m \<Longrightarrow> m < n" and "n < 64"
  shows "(x :: uint64) < 2 ^ n"
proof -
  have "x AND mask n = x" using assms by (auto intro!: bit_word_eqI simp: bit_simps)
  then show ?thesis using and_mask_less' [of n x] \<open>n < 64\<close> by simp
qed

text \<open>A page address and an offset below 4096 share no bit.\<close>

lemma pgaligned_plus_or: "pgaligned p \<Longrightarrow> off < 4096 \<Longrightarrow> p + off = p OR off"
  using less_exp_bitD [of off 12] 
  by (intro disjunctive_add_eq_or bit_word_eqI) (auto simp: bit_simps pgaligned_bit)

lemma PGROUNDDOWN_plus: "pgaligned p \<Longrightarrow> off < 4096 \<Longrightarrow> PGROUNDDOWN (p + off) = p"
  using less_exp_bitD [of off 12]
  by (fastforce intro!: bit_word_eqI simp: pgaligned_plus_or PGROUNDDOWN_bit bit_simps
      dest: pgaligned_bitD)

lemma PX_bit: "bit (PX l va) n \<longleftrightarrow> n < 9 \<and> bit va (12 + 9 * l + n)"
  by (auto simp: PX_def PXSHIFT_def mask9 bit_simps dest: bit_imp_le_length)

lemma PX_less [simp]: "PX l va < 512"
  using bit_less_exp [of "PX l va" 9] by (auto simp: PX_bit)

lemma PTE2PA_PA2PTE: 
  "pgaligned p \<Longrightarrow> p < 2 ^ 56 \<Longrightarrow> f < 1024 \<Longrightarrow> PTE2PA (PA2PTE p OR f) = p"
  using less_exp_bitD [of f 10] less_exp_bitD [of p 56] pgaligned_bitD [of p]
  by (fastforce intro!: bit_word_eqI simp: PTE2PA_def PA2PTE_def bit_simps)

lemma PTE_FLAGS_PA2PTE: "f < 1024 \<Longrightarrow> PTE_FLAGS (PA2PTE p OR f) = f"
  using less_exp_bitD [of f 10]
  by (auto intro!: bit_word_eqI simp: PTE_FLAGS_def PA2PTE_def mask10 bit_simps)

lemma pgaligned_PTE2PA [simp]: "pgaligned (PTE2PA pte)"
  by (simp add: pgaligned_bit PTE2PA_def bit_simps)

lemma PX_eq_iff:
  assumes "va < MAXVA" and "va' < MAXVA"
  shows "(\<forall>l\<le>2. PX l va = PX l va') \<longleftrightarrow> PGROUNDDOWN va = PGROUNDDOWN va'"
proof
  assume px: "\<forall>l\<le>2. PX l va = PX l va'"
  show "PGROUNDDOWN va = PGROUNDDOWN va'"
  proof (rule bit_word_eqI)
    fix n :: nat
    assume "n < LENGTH(64)"
    show "bit (PGROUNDDOWN va) n = bit (PGROUNDDOWN va') n"
    proof (cases "12 \<le> n \<and> n < 39")
      case True
      define l where "l = (n - 12) div 9"
      define k where "k = (n - 12) mod 9"
      have lk: "l \<le> 2" "k < 9" "n = 12 + 9 * l + k"
        using True unfolding l_def k_def by (auto simp: mult.commute)
      then have "bit (PX l va) k = bit (PX l va') k" using px by simp
      with lk show ?thesis by (simp add: PX_bit PGROUNDDOWN_bit)
    next
      case False
      then show ?thesis
        using assms less_exp_bitD [of va 38 n] less_exp_bitD [of va' 38 n]
        by (auto simp: PGROUNDDOWN_bit)
    qed
  qed
next
  assume eq: "PGROUNDDOWN va = PGROUNDDOWN va'"
  have "bit va n = bit va' n" if "12 \<le> n" for n
    using arg_cong [OF eq, of "\<lambda>x. bit x n"] that by (simp add: PGROUNDDOWN_bit)
  then show "\<forall>l\<le>2. PX l va = PX l va'"
    by (auto intro!: bit_word_eqI simp: PX_bit)
qed

section \<open>Stepping through pages\<close>

lemma PGROUNDDOWN_le: "PGROUNDDOWN a \<le> a"
  unfolding PGROUNDDOWN_def by (simp add: word_and_le1 word_and_le2)

lemma pgaligned_dvd: "pgaligned a \<longleftrightarrow> 4096 dvd unat a"
  by (simp add: pgaligned_def word_unat_eq_iff unat_word_ariths dvd_eq_mod_eq_0 unat_mod)

lemma div_page_Suc: "((x :: nat) + 4096) div 4096 = Suc (x div 4096)"
  by (simp add: div_add_self2)

lemma dvd_page_less: "4096 dvd x \<Longrightarrow> 4096 dvd y \<Longrightarrow> x < y \<longleftrightarrow> x + 4096 \<le> (y :: nat)"
  by (auto elim!: dvdE)

lemma page_step:
  assumes "pgaligned a" and "pgaligned b" and "a < b"
  shows "a + 4096 \<le> b" "pgaligned (a + 4096)" "unat (a + 4096) = unat a + 4096"
    "unat (b - a) div 4096 = Suc (unat (b - (a + 4096)) div 4096)"
    "pgaligned c \<Longrightarrow> a \<le> c \<and> c < b \<longleftrightarrow> c = a \<or> a + 4096 \<le> c \<and> c < b"
proof -
  have d: "4096 dvd unat a" "4096 dvd unat b" using assms by (simp_all add: pgaligned_dvd)
  have lt: "unat a < unat b" using assms(3) by (simp add: word_less_nat_alt)
  have "unat a + 4096 \<le> unat b" using d lt by (simp add: dvd_page_less)
  moreover have "unat b < 2 ^ 64" using unsigned_less [of b] by simp
  ultimately show u: "unat (a + 4096) = unat a + 4096" by (simp add: unat_word_ariths)
  show le: "a + 4096 \<le> b" using \<open>unat a + 4096 \<le> unat b\<close> by (simp add: word_le_nat_alt u)
  show "pgaligned (a + 4096)" using d by (simp add: pgaligned_dvd u)
  have "unat (b - a) = unat b - unat a" "unat (b - (a + 4096)) = unat b - (unat a + 4096)"
    using le assms(3) by (simp_all add: unat_sub u)
  then show "unat (b - a) div 4096 = Suc (unat (b - (a + 4096)) div 4096)"
    using \<open>unat a + 4096 \<le> unat b\<close> d by (elim dvdE) auto
  show "a \<le> c \<and> c < b \<longleftrightarrow> c = a \<or> a + 4096 \<le> c \<and> c < b" if "pgaligned c"
  proof -
    have "4096 dvd unat c" using that by (simp add: pgaligned_dvd)
    then have "unat a < unat c \<longleftrightarrow> unat a + 4096 \<le> unat c" using d(1) by (simp add: dvd_page_less)
    then show ?thesis using assms(3) by (auto simp: word_le_nat_alt word_less_nat_alt word_unat_eq_iff u)
  qed
qed

lemma page_next:
  assumes "pgaligned b" and "pgaligned c" and "b < c" and "pgaligned va"
  shows "va < b + 4096 \<longleftrightarrow> va < b \<or> va = b"
proof -
  note ps = page_step [OF assms(1-3)]
  have bl: "b < b + 4096" using ps(3) by (simp add: word_less_nat_alt)
  then show ?thesis using page_step(5) [OF assms(1) ps(2) bl assms(4)] by (cases "b \<le> va") (auto simp: not_le)
qed

lemma PGROUNDUP_eq: "PGROUNDUP a = PGROUNDDOWN (a + 4095)"
  by (simp add: PGROUNDUP_def PGROUNDDOWN_def add.commute)

lemma unat_PGROUNDDOWN: "unat (PGROUNDDOWN a) = unat a div 4096 * 4096"
proof -
  have "PGROUNDDOWN a = push_bit 12 (drop_bit 12 a)"
    by (rule bit_word_eqI) (auto simp: PGROUNDDOWN_bit bit_simps)
  also have "unat \<dots> = unat a div 4096 * 4096"
    using unat64_less [of a] by (simp add: push_bit_eq_mult unat_word_ariths unat_drop_bit_eq drop_bit_eq_div)
  finally show ?thesis .
qed

end
