(* ===== verification/Kstring.thy ===== *)
theory Kstring
  imports Riscv
begin

text \<open>
  Physical memory as the kernel addresses it (the kernel page table maps RAM at its
  own physical addresses), and the routines of \<^verbatim>\<open>kernel/string.c\<close> on it. Memory is
  an array of bytes; \<open>load64\<close> and \<open>store64\<close> are the little-endian accesses through a
  \<^verbatim>\<open>uint64 *\<close>. Each loop of the source is a recursion on its counter; the lemmas
  give what the loop computes in closed form.
\<close>

type_synonym mem = "uint64 \<Rightarrow> uchar"

section \<open>Little-endian accesses\<close>

primrec load_le :: "nat \<Rightarrow> mem \<Rightarrow> uint64 \<Rightarrow> 'a::len word" where
  "load_le 0 m a = 0"
| "load_le (Suc k) m a = ucast (m a) OR push_bit 8 (load_le k m (a + 1))"

definition store_le :: "nat \<Rightarrow> mem \<Rightarrow> uint64 \<Rightarrow> 'a::len word \<Rightarrow> mem" where
  "store_le k m a v = (\<lambda>x. if unat (x - a) < k then ucast (drop_bit (8 * unat (x - a)) v) else m x)"

definition load64 :: "mem \<Rightarrow> uint64 \<Rightarrow> uint64" where
  "load64 m a = load_le 8 m a"

definition store64 :: "mem \<Rightarrow> uint64 \<Rightarrow> uint64 \<Rightarrow> mem" where
  "store64 m a v = store_le 8 m a v"

section \<open>string.c\<close>

primrec memset :: "mem \<Rightarrow> uint64 \<Rightarrow> uchar \<Rightarrow> nat \<Rightarrow> mem" where
  "memset m dst c 0 = m"
| "memset m dst c (Suc i) = (memset m dst c i)(dst + of_nat i := c)"

primrec memcmp :: "mem \<Rightarrow> uint64 \<Rightarrow> uint64 \<Rightarrow> nat \<Rightarrow> int" where
  "memcmp m s1 s2 0 = 0"
| "memcmp m s1 s2 (Suc n) =
     (if m s1 \<noteq> m s2 then uint (m s1) - uint (m s2) else memcmp m (s1 + 1) (s2 + 1) n)"

text \<open>The two copy loops of \<^verbatim>\<open>memmove()\<close>: upwards, and downwards from the ends.\<close>

primrec move_up :: "nat \<Rightarrow> mem \<Rightarrow> uint64 \<Rightarrow> uint64 \<Rightarrow> mem" where
  "move_up 0 m d s = m"
| "move_up (Suc n) m d s = move_up n (m(d := m s)) (d + 1) (s + 1)"

primrec move_down :: "nat \<Rightarrow> mem \<Rightarrow> uint64 \<Rightarrow> uint64 \<Rightarrow> mem" where
  "move_down 0 m d s = m"
| "move_down (Suc n) m d s = move_down n (m(d - 1 := m (s - 1))) (d - 1) (s - 1)"

definition memmove :: "mem \<Rightarrow> uint64 \<Rightarrow> uint64 \<Rightarrow> nat \<Rightarrow> mem" where
  "memmove m dst src n =
     (if n = 0 then m
      else if src < dst \<and> src + of_nat n > dst
      then move_down n m (dst + of_nat n) (src + of_nat n)
      else move_up n m dst src)"

definition memcpy :: "mem \<Rightarrow> uint64 \<Rightarrow> uint64 \<Rightarrow> nat \<Rightarrow> mem" where
  "memcpy m dst src n = memmove m dst src n"

primrec strncmp :: "mem \<Rightarrow> uint64 \<Rightarrow> uint64 \<Rightarrow> nat \<Rightarrow> int" where
  "strncmp m p q 0 = 0"
| "strncmp m p q (Suc n) =
     (if m p \<noteq> 0 \<and> m p = m q then strncmp m (p + 1) (q + 1) n
      else uint (m p) - uint (m q))"

primrec strncpy :: "mem \<Rightarrow> uint64 \<Rightarrow> uint64 \<Rightarrow> nat \<Rightarrow> mem" where
  "strncpy m s t 0 = m"
| "strncpy m s t (Suc n) =
     (if m t \<noteq> 0 then strncpy (m(s := m t)) (s + 1) (t + 1) n
      else memset (m(s := 0)) (s + 1) 0 n)"

text \<open>
  The loop of \<^verbatim>\<open>safestrcpy()\<close> runs with \<open>n\<close> the value of the counter before the
  test \<^verbatim>\<open>--n > 0\<close>; the store after the loop ends the string.
\<close>

fun safestrcpy_loop :: "mem \<Rightarrow> uint64 \<Rightarrow> uint64 \<Rightarrow> nat \<Rightarrow> mem" where
  "safestrcpy_loop m s t 0 = m(s := 0)"
| "safestrcpy_loop m s t (Suc 0) = m(s := 0)"
| "safestrcpy_loop m s t (Suc (Suc n)) =
     (if m t \<noteq> 0 then safestrcpy_loop (m(s := m t)) (s + 1) (t + 1) (Suc n)
      else m(s := 0, s + 1 := 0))"

definition safestrcpy :: "mem \<Rightarrow> uint64 \<Rightarrow> uint64 \<Rightarrow> int \<Rightarrow> mem" where
  "safestrcpy m s t n = (if n \<le> 0 then m else safestrcpy_loop m s t (nat n))"

text \<open>\<^verbatim>\<open>strlen()\<close> scans until a NUL; with none it does not return.\<close>

partial_function (option) strlen_from :: "mem \<Rightarrow> uint64 \<Rightarrow> int \<Rightarrow> int option" where
  "strlen_from m s n = (if m (s + of_int n) = 0 then Some n else strlen_from m s (n + 1))"

definition strlen :: "mem \<Rightarrow> uint64 \<Rightarrow> int option" where
  "strlen m s = strlen_from m s 0"

section \<open>What the loops compute\<close>

lemma memset_apply:
  "n \<le> 2 ^ 64 \<Longrightarrow> memset m dst c n a = (if unat (a - dst) < n then c else m a)"
proof (induction n)
  case 0
  show ?case by simp
next
  case (Suc n)
  have n: "n < 2 ^ LENGTH(64)" using Suc.prems by (simp add: Suc_le_eq)
  have "a = dst + of_nat n \<longleftrightarrow> unat (a - dst) = n"
    using word_eq_of_nat_iff [OF n, of "a - dst"] by (simp only: diff_eq_eq add.commute)
  with Suc n show ?case by (simp only: memset.simps fun_upd_apply less_Suc_eq) simp
qed

lemma move_up_apply:
  assumes "d = s \<or> n \<le> unat (d - s)" and "n \<le> 2 ^ 64"
  shows "move_up n m d s a = (if unat (a - d) < n then m (s + (a - d)) else m a)"
  using assms
proof (induction n arbitrary: m d s)
  case (Suc n)
  let ?m = "m(d := m s)"
  have ih: "move_up n ?m (d + 1) (s + 1) a =
      (if unat (a - d - 1) < n then ?m (s + (a - d)) else ?m a)"
  proof -
    have "d + 1 = s + 1 \<or> n \<le> unat ((d + 1) - (s + 1))" and "n \<le> 2 ^ 64"
      using Suc.prems by auto
    moreover have "a - (d + 1) = a - d - 1" and "s + 1 + (a - d - 1) = s + (a - d)"
      by simp_all
    ultimately show ?thesis using Suc.IH [of "d + 1" "s + 1" ?m] by metis
  qed
  have less: "unat (a - d - 1) < n \<longleftrightarrow> 0 < unat (a - d) \<and> unat (a - d) < Suc n"
    using Suc.prems by (intro unat_minus_one_less) simp
  have src: "?m (s + (a - d)) = m (s + (a - d))" if "unat (a - d) < Suc n"
  proof (cases "s + (a - d) = d")
    case True
    then have "a - d = d - s" by (simp add: algebra_simps)
    then have "d = s" using Suc.prems that by (simp add: Suc_le_eq)
    then show ?thesis by simp
  qed simp
  show ?case
    using ih less src by (cases "a = d") (simp_all add: unat_gt_0)
qed simp

lemma move_down_apply:
  assumes "d = s \<or> n \<le> unat (s - d)" and "n \<le> 2 ^ 64"
  shows "move_down n m d s a = (if unat (d - 1 - a) < n then m (s - (d - a)) else m a)"
  using assms
proof (induction n arbitrary: m d s)
  case (Suc n)
  let ?m = "m(d - 1 := m (s - 1))"
  have ih: "move_down n ?m (d - 1) (s - 1) a =
      (if unat (d - 1 - a - 1) < n then ?m (s - (d - a)) else ?m a)"
  proof -
    have "d - 1 = s - 1 \<or> n \<le> unat ((s - 1) - (d - 1))" and "n \<le> 2 ^ 64"
      using Suc.prems by auto
    moreover have "d - 1 - 1 - a = d - 1 - a - 1" and "s - 1 - (d - 1 - a) = s - (d - a)"
      by simp_all
    ultimately show ?thesis using Suc.IH [of "d - 1" "s - 1" ?m] by metis
  qed
  have less: "unat (d - 1 - a - 1) < n \<longleftrightarrow> 0 < unat (d - 1 - a) \<and> unat (d - 1 - a) < Suc n"
    using Suc.prems by (intro unat_minus_one_less) simp
  have src: "?m (s - (d - a)) = m (s - (d - a))" if "unat (d - 1 - a) < Suc n"
  proof (cases "s - (d - a) = d - 1")
    case True
    then have "d - 1 - a = s - d" by (simp add: algebra_simps)
    then have "d = s" using Suc.prems that by (simp only: Suc_le_eq) auto
    then show ?thesis by simp
  qed simp
  show ?case
  proof (cases "a = d - 1")
    case True
    then show ?thesis using ih less by (simp add: diff_diff_eq2)
  next
    case False
    then have "0 < unat (d - 1 - a)" by (simp only: unat_gt_0) simp
    then show ?thesis using ih less src False by simp
  qed
qed simp

lemma unat_diff_reverse: "(s :: uint64) \<noteq> d \<Longrightarrow> unat (s - d) = 2 ^ 64 - unat (d - s)"
  using unat64_less [of s] unat64_less [of d]
  by (auto simp: unat_sub_if' word_unat_eq_iff)

lemma unat_reflect_less:
  "0 < n \<Longrightarrow> n < 2 ^ 64 \<Longrightarrow> unat (of_nat n - 1 - (x :: uint64)) < n \<longleftrightarrow> unat x < n"
  using unat64_less [of x] by (auto simp: unat_sub_if' unat_of_nat)

text \<open>
  \<^verbatim>\<open>memmove()\<close> copies as if through a temporary buffer, whether or not the two
  regions overlap and in whichever order.
\<close>

lemma memmove_apply:
  assumes "unat dst + n < 2 ^ 64" and "unat src + n < 2 ^ 64"
  shows "memmove m dst src n a = (if unat (a - dst) < n then m (src + (a - dst)) else m a)"
proof (cases "n = 0")
  case True
  then show ?thesis by (simp add: memmove_def)
next
  case False
  have n: "0 < n" "n < 2 ^ 64" "n \<le> 2 ^ 64" using assms False by auto
  show ?thesis
  proof (cases "src < dst \<and> src + of_nat n > dst")
    case True
    have "unat (dst - src) = unat dst - unat src"
      using True by (intro unat_sub) auto
    then have "n \<le> unat ((src + of_nat n) - (dst + of_nat n))"
      using True assms unat_diff_reverse [of src dst] by (auto dest: order_less_imp_not_eq)
    then have "move_down n m (dst + of_nat n) (src + of_nat n) a =
        (if unat (dst + of_nat n - 1 - a) < n then m (src + of_nat n - (dst + of_nat n - a)) else m a)"
      using n by (intro move_down_apply disjI2)
    moreover have "dst + of_nat n - 1 - a = of_nat n - 1 - (a - dst)"
      and "src + of_nat n - (dst + of_nat n - a) = src + (a - dst)" by simp_all
    ultimately show ?thesis
      using True n unat_reflect_less [OF n(1,2), of "a - dst"] by (simp add: memmove_def)
  next
    case apart: False
    have "dst = src \<or> n \<le> unat (dst - src)"
    proof (cases "src < dst")
      case True
      then have "unat src + n \<le> unat dst"
        using apart assms by (simp add: not_less word_le_nat_alt unat_add_of_nat)
      then show ?thesis using True by (simp add: unat_sub_if' add_le_imp_le_diff)
    next
      case False
      then have "unat (src - dst) = unat src - unat dst"
        by (intro unat_sub) simp
      then show ?thesis
        using assms unat_diff_reverse [of dst src] by (cases "dst = src") simp_all
    qed
    then have "move_up n m dst src a = (if unat (a - dst) < n then m (src + (a - dst)) else m a)"
      using n by (intro move_up_apply)
    then show ?thesis
      by (simp only: memmove_def if_not_P [OF apart] if_not_P [OF False])
  qed
qed

section \<open>Loads and stores\<close>

lemma bit_load_le:
  "bit (load_le k m a :: 'a::len word) n \<longleftrightarrow>
     n < 8 * k \<and> n < LENGTH('a) \<and> bit (m (a + of_nat (n div 8))) (n mod 8)"
proof (induction k arbitrary: a n)
  case (Suc k)
  show ?case
  proof (cases "n < 8")
    case True
    then show ?thesis by (auto simp: bit_simps dest: bit_imp_le_length)
  next
    case False
    then have "n div 8 = Suc ((n - 8) div 8)" "n mod 8 = (n - 8) mod 8"
      by (auto simp: le_div_geq le_mod_geq not_less)
    with False show ?thesis
      using bit_imp_le_length [of "m a" n] by (auto simp: bit_simps Suc.IH add.assoc)
  qed
qed simp

lemma load_le_cong:
  "(\<And>i. i < k \<Longrightarrow> m (a + of_nat i) = m' (b + of_nat i)) \<Longrightarrow> load_le k m a = load_le k m' b"
  by (rule bit_word_eqI) (auto simp: bit_load_le less_mult_imp_div_less mult.commute)

lemma store_le_apply:
  "i < k \<Longrightarrow> k < 2 ^ 64 \<Longrightarrow> store_le k m a v (a + of_nat i) = ucast (drop_bit (8 * i) v)"
  by (simp add: store_le_def unat_of_nat)

lemma load_le_store_le:
  assumes "8 * k = LENGTH('a)" and "k < 2 ^ 64"
  shows "load_le k (store_le k m a v) a = (v :: 'a::len word)"
proof (rule bit_word_eqI)
  fix n
  assume "n < LENGTH('a)"
  then have "n div 8 < k" using assms by (simp add: less_mult_imp_div_less mult.commute)
  with \<open>n < LENGTH('a)\<close> assms show "bit (load_le k (store_le k m a v) a :: 'a word) n = bit v n"
    by (simp add: bit_load_le store_le_apply bit_simps)
qed

lemma load64_store64 [simp]: "load64 (store64 m a v) a = v"
  by (simp add: load64_def store64_def load_le_store_le)

lemma load64_cong:
  "(\<And>i. i < 8 \<Longrightarrow> m (a + of_nat i) = m' (b + of_nat i)) \<Longrightarrow> load64 m a = load64 m' b"
  unfolding load64_def by (rule load_le_cong)

lemma load64_store64_other:
  assumes "8 \<le> unat (b - a)" and "8 \<le> unat (a - b)"
  shows "load64 (store64 m a v) b = load64 m b"
proof (rule load64_cong)
  fix i :: nat
  assume "i < 8"
  have "a \<noteq> b" using assms by auto
  then have "unat (b - a) + i < 2 ^ LENGTH(64)"
    using assms \<open>i < 8\<close> unat_diff_reverse [of a b] by simp
  then have "unat ((b - a) + of_nat i) = unat (b - a) + i"
    by (rule unat_add_of_nat)
  moreover have "b + of_nat i - a = (b - a) + of_nat i" by simp
  ultimately have "8 \<le> unat (b + of_nat i - a)" using assms by (metis trans_le_add1)
  then show "store64 m a v (b + of_nat i) = m (b + of_nat i)"
    by (simp add: store64_def store_le_def)
qed

lemma load64_zero: "(\<And>i. i < 8 \<Longrightarrow> m (a + of_nat i) = 0) \<Longrightarrow> load64 m a = 0"
  using load64_cong [of m a "\<lambda>_. 0" 0]
  by (auto intro!: bit_word_eqI simp: load64_def bit_load_le)

section \<open>Slots of a page-table page\<close>

definition aligned8 :: "uint64 \<Rightarrow> bool" where
  "aligned8 a \<longleftrightarrow> 8 dvd unat a"

lemma aligned8_distance:
  assumes "aligned8 a" and "aligned8 b" and "a \<noteq> b"
  shows "8 \<le> unat (a - b)"
proof -
  have "8 dvd (2 :: nat) ^ 64" by simp
  then have "8 dvd unat (a - b)"
    using assms(1,2) unat64_less [of b] unfolding aligned8_def unat_sub_if'
    by (auto intro: dvd_diff_nat dvd_add)
  moreover have "0 < unat (a - b)" using assms by (simp add: unat_gt_0)
  ultimately show ?thesis by (rule dvd_imp_le)
qed

lemma load64_store64_aligned:
  "aligned8 a \<Longrightarrow> aligned8 b \<Longrightarrow>
   load64 (store64 m a v) b = (if a = b then v else load64 m b)"
  by (simp add: load64_store64_other aligned8_distance)

lemma aligned8_slot [simp]:
  assumes "pgaligned p"
  shows "aligned8 (p + 8 * i)"
proof -
  have "unat (p mod 4096) = 0" using assms by (simp add: pgaligned_def)
  then have "8 dvd unat p" by (simp add: unat_mod_distrib) auto
  moreover have "8 dvd (8 * unat i) mod (2 ^ 64 :: nat)" by (rule dvd_mod) simp_all
  ultimately have "8 dvd unat p + (8 * unat i) mod 2 ^ 64" by (rule dvd_add)
  then have "8 dvd (unat p + (8 * unat i) mod 2 ^ 64) mod 2 ^ 64" by (auto intro: dvd_mod)
  then show ?thesis by (simp add: aligned8_def unat_word_ariths)
qed

lemma unat_slot_offset: "i < 512 \<Longrightarrow> unat (8 * i :: uint64) = 8 * unat i"
  by (simp add: unat_word_ariths word_less_nat_alt)

lemma slot_offset_less: "i < 512 \<Longrightarrow> 8 * i < (4096 :: uint64)"
  by (simp add: unat_slot_offset word_less_nat_alt)

lemma slot_page: "pgaligned p \<Longrightarrow> i < 512 \<Longrightarrow> PGROUNDDOWN (p + 8 * i) = p"
  by (simp add: PGROUNDDOWN_plus slot_offset_less)

lemma slot_eq_iff:
  assumes "pgaligned p" and "pgaligned q" and "i < 512" and "j < 512"
  shows "p + 8 * i = q + 8 * j \<longleftrightarrow> p = q \<and> i = j"
proof
  assume eq: "p + 8 * i = q + 8 * j"
  then have "p = q" using assms slot_page by metis
  with eq have "unat (8 * i) = unat (8 * j)" by simp
  then have "i = j" using assms by (simp add: unat_slot_offset word_unat_eq_iff)
  with \<open>p = q\<close> show "p = q \<and> i = j" by simp
qed simp

end
