(* ===== verification/Kalloc.thy ===== *)
theory Kalloc
  imports Kstring
begin

text \<open>
  The physical page allocator of \<^verbatim>\<open>kernel/kalloc.c\<close>: the free list threaded
  through the free pages themselves, and one reference counter per physical page,
  which copy-on-write fork shares pages with. \<open>kend\<close> is the linker symbol
  \<^verbatim>\<open>end\<close>, the first address after the kernel. Every routine holds
  \<^verbatim>\<open>kmem.lock\<close> around its accesses to the list and the counters, so each is one
  atomic transition of the state. The counters are C \<^verbatim>\<open>int\<close>s.
\<close>

record phys =
  pmem :: mem
  freelist :: uint64
  refcount :: "uint64 \<Rightarrow> int"
  kend :: uint64

text \<open>The range check that opens \<^verbatim>\<open>kfree()\<close>, \<^verbatim>\<open>kaddref()\<close> and \<^verbatim>\<open>kgetref()\<close>.\<close>

definition bad_page :: "phys \<Rightarrow> uint64 \<Rightarrow> bool" where
  "bad_page s pa \<longleftrightarrow> pa mod PGSIZE \<noteq> 0 \<or> pa < kend s \<or> pa \<ge> PHYSTOP"

definition kfree :: "phys \<Rightarrow> uint64 \<Rightarrow> phys res" where
  "kfree s pa =
     (if bad_page s pa then Panic ''kfree''
      else let index = pa div PGSIZE in
        if refcount s index < 1 then Panic ''kfree refcount''
        else let s1 = s\<lparr>refcount := (refcount s)(index := refcount s index - 1)\<rparr> in
          if refcount s1 index > 0 then Ok s1
          else let m = memset (pmem s1) pa 1 4096 in
            Ok (s1\<lparr>pmem := store64 m pa (freelist s1), freelist := pa\<rparr>))"

definition kalloc :: "phys \<Rightarrow> uint64 \<times> phys" where
  "kalloc s =
     (let r = freelist s in
      if r \<noteq> 0
      then (let s1 = s\<lparr>freelist := load64 (pmem s) r,
                       refcount := (refcount s)(r div PGSIZE := 1)\<rparr>
            in (r, s1\<lparr>pmem := memset (pmem s1) r 5 4096\<rparr>))
      else (0, s))"

definition kaddref :: "phys \<Rightarrow> uint64 \<Rightarrow> phys res" where
  "kaddref s pa =
     (let index = pa div PGSIZE in
      if bad_page s pa then Panic ''kaddref''
      else if refcount s index < 1 then Panic ''kaddref refcount''
      else Ok (s\<lparr>refcount := (refcount s)(index := refcount s index + 1)\<rparr>))"

definition kgetref :: "phys \<Rightarrow> uint64 \<Rightarrow> int res" where
  "kgetref s pa =
     (let index = pa div PGSIZE in
      if bad_page s pa then Panic ''kgetref'' else Ok (refcount s index))"

text \<open>
  The loops of \<^verbatim>\<open>kinit()\<close> and \<^verbatim>\<open>freerange()\<close> step a page at a time while
  \<^verbatim>\<open>p + PGSIZE <= pa_end\<close>. Their fuel is one more than the number of pages below
  the end of the range.
\<close>

primrec freerange_loop :: "nat \<Rightarrow> phys \<Rightarrow> uint64 \<Rightarrow> uint64 \<Rightarrow> phys res" where
  "freerange_loop 0 s p pa_end = OutOfFuel"
| "freerange_loop (Suc n) s p pa_end =
     (if p + PGSIZE \<le> pa_end
      then bindR (kfree s p) (\<lambda>s. freerange_loop n s (p + PGSIZE) pa_end)
      else Ok s)"

definition freerange :: "phys \<Rightarrow> uint64 \<Rightarrow> uint64 \<Rightarrow> phys res" where
  "freerange s pa_start pa_end =
     freerange_loop (unat pa_end div 4096 + 1) s (PGROUNDUP pa_start) pa_end"

primrec kinit_loop :: "nat \<Rightarrow> phys \<Rightarrow> uint64 \<Rightarrow> phys res" where
  "kinit_loop 0 s pa = OutOfFuel"
| "kinit_loop (Suc n) s pa =
     (if pa + PGSIZE \<le> PHYSTOP
      then kinit_loop n (s\<lparr>refcount := (refcount s)(pa div PGSIZE := 1)\<rparr>) (pa + PGSIZE)
      else Ok s)"

definition kinit :: "phys \<Rightarrow> phys res" where
  "kinit s =
     bindR (kinit_loop (unat PHYSTOP div 4096 + 1) s (PGROUNDUP (kend s)))
       (\<lambda>s. freerange s (kend s) PHYSTOP)"

section \<open>The free list as a list of pages\<close>

text \<open>
  \<open>flist m p xs\<close>: from \<open>p\<close> the list threaded through the first word of each free
  page visits exactly the pages \<open>xs\<close>; address 0 ends it.
\<close>

fun flist :: "mem \<Rightarrow> uint64 \<Rightarrow> uint64 list \<Rightarrow> bool" where
  "flist m p [] \<longleftrightarrow> p = 0"
| "flist m p (x # xs) \<longleftrightarrow> p = x \<and> x \<noteq> 0 \<and> flist m (load64 m x) xs"

text \<open>The pages the allocator manages: aligned, after the kernel, below the top of RAM.\<close>

definition ram :: "phys \<Rightarrow> uint64 \<Rightarrow> bool" where
  "ram s p \<longleftrightarrow> \<not> bad_page s p"

text \<open>\<open>rc s p\<close> is the counter of the page at \<open>p\<close>.\<close>

definition rc :: "phys \<Rightarrow> uint64 \<Rightarrow> int" where
  "rc s p = refcount s (p div PGSIZE)"

text \<open>
  The allocator's invariant: the kernel's end is above address 0, the free list is a
  list of distinct pages, and the free pages are exactly the pages of RAM whose
  counter is zero; no counter is negative.
\<close>

definition kmem_inv :: "phys \<Rightarrow> bool" where
  "kmem_inv s \<longleftrightarrow> 0 < kend s \<and>
     (\<exists>xs. flist (pmem s) (freelist s) xs \<and> distinct xs \<and>
        (\<forall>p. p \<in> set xs \<longleftrightarrow> ram s p \<and> rc s p = 0)) \<and>
     (\<forall>p. ram s p \<longrightarrow> 0 \<le> rc s p)"

section \<open>Memory outside a set of pages\<close>

text \<open>Two memories agree on every page of \<open>P\<close>.\<close>

definition agree :: "uint64 set \<Rightarrow> mem \<Rightarrow> mem \<Rightarrow> bool" where
  "agree P m m' \<longleftrightarrow> (\<forall>a. PGROUNDDOWN a \<in> P \<longrightarrow> m' a = m a)"

lemma in_page_iff: "pgaligned p \<Longrightarrow> unat (a - p) < 4096 \<longleftrightarrow> PGROUNDDOWN a = p"
proof
  assume p: "pgaligned p" and "unat (a - p) < 4096"
  then have "a - p < 4096" by (simp add: word_less_nat_alt)
  with p have "PGROUNDDOWN (p + (a - p)) = p" by (rule PGROUNDDOWN_plus)
  then show "PGROUNDDOWN a = p" by simp
next
  assume p: "pgaligned p" and eq: "PGROUNDDOWN a = p"
  have "a = PGROUNDDOWN a OR (a AND mask 12)"
    by (auto intro!: bit_word_eqI simp: bit_simps PGROUNDDOWN_bit)
  moreover have lt: "a AND mask 12 < 4096"
    using and_mask_less' [of 12 a] by simp
  ultimately have "a = p + (a AND mask 12)"
    using p eq pgaligned_plus_or by metis
  then have "a - p = a AND mask 12" by (metis add_diff_cancel_left')
  with lt show "unat (a - p) < 4096" by (simp add: word_less_nat_alt)
qed

lemma agree_refl [simp]: "agree P m m"
  by (simp add: agree_def)

lemma agree_trans: "agree P m m' \<Longrightarrow> agree P m' m'' \<Longrightarrow> agree P m m''"
  by (simp add: agree_def)

lemma agree_sym: "agree P m m' \<Longrightarrow> agree P m' m"
  by (simp add: agree_def)

lemma agree_subset: "agree P m m' \<Longrightarrow> Q \<subseteq> P \<Longrightarrow> agree Q m m'"
  by (auto simp: agree_def)

lemma memset_page:
  "pgaligned p \<Longrightarrow> memset m p c 4096 a = (if PGROUNDDOWN a = p then c else m a)"
  by (simp add: memset_apply in_page_iff)

lemma agree_memset: "pgaligned p \<Longrightarrow> p \<notin> P \<Longrightarrow> agree P m (memset m p c 4096)"
  by (auto simp: agree_def memset_page)

lemma store64_outside:
  assumes "pgaligned p" and "i < 512" and "PGROUNDDOWN a \<noteq> p"
  shows "store64 m (p + 8 * i) v a = m a"
proof -
  have "\<not> unat (a - (p + 8 * i)) < 8"
  proof
    assume lt: "unat (a - (p + 8 * i)) < 8"
    have "8 * unat i \<le> 4088" using assms(2) by (simp add: word_less_nat_alt)
    then have "unat (8 * i + (a - (p + 8 * i))) < 4096"
      using lt assms(2) by (subst unat_word_ariths) (simp add: unat_slot_offset)
    moreover have "8 * i + (a - (p + 8 * i)) = a - p" by simp
    ultimately show False using assms in_page_iff by metis
  qed
  then show ?thesis by (simp add: store64_def store_le_def)
qed

lemma agree_store64:
  "pgaligned p \<Longrightarrow> i < 512 \<Longrightarrow> p \<notin> P \<Longrightarrow> agree P m (store64 m (p + 8 * i) v)"
  by (auto simp: agree_def intro!: store64_outside)

lemma slot_byte_page:
  assumes "pgaligned p" and "i < 512" and "k < 8"
  shows "PGROUNDDOWN (p + 8 * i + of_nat k) = p"
proof -
  have "8 * unat i \<le> 4088" using assms(2) by (simp add: word_less_nat_alt)
  then have "8 * i + of_nat k < (4096 :: uint64)"
    using assms by (simp add: word_less_nat_alt unat_word_ariths unat_of_nat unat_slot_offset)
  then show ?thesis using assms(1) PGROUNDDOWN_plus [of p "8 * i + of_nat k"] by (simp add: add.assoc)
qed

lemma agree_load64:
  "agree P m m' \<Longrightarrow> pgaligned p \<Longrightarrow> p \<in> P \<Longrightarrow> i < 512 \<Longrightarrow> load64 m' (p + 8 * i) = load64 m (p + 8 * i)"
  by (rule load64_cong) (simp add: agree_def slot_byte_page)

lemma agree_load64_first:
  "agree P m m' \<Longrightarrow> pgaligned p \<Longrightarrow> p \<in> P \<Longrightarrow> load64 m' p = load64 m p"
  using agree_load64 [of P m m' p 0] by simp

lemma flist_agree:
  "flist m p xs \<Longrightarrow> agree (set xs) m m' \<Longrightarrow> (\<forall>x\<in>set xs. pgaligned x) \<Longrightarrow> flist m' p xs"
proof (induction xs arbitrary: p)
  case (Cons x xs)
  have "load64 m' x = load64 m x" using Cons.prems by (intro agree_load64_first) auto
  moreover have "agree (set xs) m m'" using Cons.prems by (auto intro: agree_subset)
  ultimately show ?case using Cons by auto
qed simp

section \<open>The operations on the invariant\<close>

lemma ram_pgaligned: "ram s p \<Longrightarrow> pgaligned p"
  by (simp add: ram_def bad_page_def pgaligned_def)

lemma ram_less: "ram s p \<Longrightarrow> p < 0x88000000"
  by (auto simp: ram_def bad_page_def not_le)

lemma ram_nonzero: "0 < kend s \<Longrightarrow> ram s p \<Longrightarrow> p \<noteq> 0"
  by (auto simp: ram_def bad_page_def)

lemma ram_kend [simp]:
  "ram (s\<lparr>pmem := m\<rparr>) p = ram s p" "ram (s\<lparr>freelist := f\<rparr>) p = ram s p"
  "ram (s\<lparr>refcount := c\<rparr>) p = ram s p"
  by (simp_all add: ram_def bad_page_def)

lemma page_number_eq:
  assumes "pgaligned p" and "pgaligned q"
  shows "p div PGSIZE = q div PGSIZE \<longleftrightarrow> p = q"
  using assms unfolding pgaligned_def by (metis word_mod_div_equality)

lemma rc_update:
  "pgaligned p \<Longrightarrow> pgaligned q \<Longrightarrow>
   rc (s\<lparr>refcount := (refcount s)(p div PGSIZE := v)\<rparr>) q = (if q = p then v else rc s q)"
  using page_number_eq [of q p] by (simp add: rc_def)

lemma rc_kend [simp]:
  "rc (s\<lparr>pmem := m\<rparr>) p = rc s p" "rc (s\<lparr>freelist := f\<rparr>) p = rc s p"
  by (simp_all add: rc_def)

lemma kalloc_None: "kalloc s = (0, s') \<Longrightarrow> s' = s \<and> freelist s = 0"
  by (auto simp: kalloc_def Let_def split: if_splits)

lemma kmem_invE:
  assumes "kmem_inv s"
  obtains xs where "flist (pmem s) (freelist s) xs" "distinct xs" "0 < kend s"
    "\<And>p. p \<in> set xs \<longleftrightarrow> ram s p \<and> rc s p = 0" "\<And>p. ram s p \<Longrightarrow> 0 \<le> rc s p"
  using assms by (auto simp: kmem_inv_def)

lemma kmem_invI:
  assumes "flist (pmem s) (freelist s) xs" "distinct xs" "0 < kend s"
    "\<And>p. p \<in> set xs \<longleftrightarrow> ram s p \<and> rc s p = 0" "\<And>p. ram s p \<Longrightarrow> 0 \<le> rc s p"
  shows "kmem_inv s"
  using assms by (auto simp: kmem_inv_def)

lemma flist_zero [simp]: "flist m 0 xs \<longleftrightarrow> xs = []"
  by (cases xs) auto

lemma kalloc_empty:
  assumes "kmem_inv s"
  shows "freelist s = 0 \<longleftrightarrow> (\<forall>p. ram s p \<longrightarrow> 0 < rc s p)"
proof -
  from assms obtain xs where xs: "flist (pmem s) (freelist s) xs"
    "\<And>p. p \<in> set xs \<longleftrightarrow> ram s p \<and> rc s p = 0" "\<And>p. ram s p \<Longrightarrow> 0 \<le> rc s p"
    by (rule kmem_invE) blast
  from xs(1) have "freelist s = 0 \<longleftrightarrow> xs = []" by (cases xs) auto
  also have "\<dots> \<longleftrightarrow> (\<forall>p. \<not> (ram s p \<and> rc s p = 0))"
    unfolding xs(2) [symmetric] by (cases xs) auto
  also have "\<dots> \<longleftrightarrow> (\<forall>p. ram s p \<longrightarrow> 0 < rc s p)" using xs(3) by (auto simp: order_le_less)
  finally show ?thesis .
qed

lemma kalloc_Some:
  assumes inv: "kmem_inv s" and alloc: "kalloc s = (p, s')" and p: "p \<noteq> 0"
  shows "ram s p" "rc s p = 0" "kmem_inv s'" "pmem s' = memset (pmem s) p 5 4096"
    "kend s' = kend s" "refcount s' = (refcount s)(p div PGSIZE := 1)"
proof -
  from inv obtain xs where xs: "flist (pmem s) (freelist s) xs" "distinct xs" "0 < kend s"
    "\<And>p. p \<in> set xs \<longleftrightarrow> ram s p \<and> rc s p = 0" "\<And>p. ram s p \<Longrightarrow> 0 \<le> rc s p"
    by (rule kmem_invE) blast
  have s': "freelist s = p" "s' = s\<lparr>freelist := load64 (pmem s) p,
      refcount := (refcount s)(p div PGSIZE := 1), pmem := memset (pmem s) p 5 4096\<rparr>"
    using alloc p by (auto simp: kalloc_def Let_def split: if_splits)
  from xs(1) s'(1) p obtain ys where ys: "xs = p # ys" "flist (pmem s) (load64 (pmem s) p) ys"
    by (cases xs) auto
  show ram: "ram s p" and zero: "rc s p = 0" using xs(4) ys by auto
  show "pmem s' = memset (pmem s) p 5 4096" "kend s' = kend s"
    "refcount s' = (refcount s)(p div PGSIZE := 1)" using s' by auto
  have al: "pgaligned p" using ram by (rule ram_pgaligned)
  have rc': "rc s' q = (if q = p then 1 else rc s q)" if "pgaligned q" for q
    using rc_update [OF al that, of s] s'(2) by (simp add: rc_def)
  have ram': "ram s' q \<longleftrightarrow> ram s q" for q by (simp add: s'(2) ram_def bad_page_def)
  show "kmem_inv s'"
  proof (rule kmem_invI)
    have "agree (set ys) (pmem s) (memset (pmem s) p 5 4096)"
      using xs(2) ys al by (intro agree_memset) auto
    moreover have "\<forall>x\<in>set ys. pgaligned x" using xs(4) ys ram_pgaligned by auto
    ultimately show "flist (pmem s') (freelist s') ys"
      using ys(2) s'(2) by (auto intro: flist_agree)
    show "distinct ys" "0 < kend s'" using xs(2,3) ys s'(2) by auto
    show "q \<in> set ys \<longleftrightarrow> ram s' q \<and> rc s' q = 0" for q
      using xs(2) xs(4) [of q] ys rc' [of q] ram' [of q] ram_pgaligned [of s q] by (cases "q = p") auto
    show "ram s' q \<Longrightarrow> 0 \<le> rc s' q" for q
      using xs(5) rc' ram' ram_pgaligned by simp
  qed
qed

lemma kfree_cases:
  assumes "ram s p" and "0 < rc s p"
  shows "kfree s p =
    (if rc s p = 1
     then Ok (s\<lparr>refcount := (refcount s)(p div PGSIZE := 0),
                pmem := store64 (memset (pmem s) p 1 4096) p (freelist s), freelist := p\<rparr>)
     else Ok (s\<lparr>refcount := (refcount s)(p div PGSIZE := rc s p - 1)\<rparr>))"
  using assms by (auto simp: kfree_def ram_def rc_def Let_def)

lemma kfree_Ok: "kfree s p = Ok s' \<Longrightarrow> ram s p \<and> 0 < rc s p"
  by (auto simp: kfree_def ram_def rc_def Let_def split: if_splits)

lemma kmem_inv_positive:
  assumes inv: "kmem_inv s" and p: "ram s p" "0 < rc s p" and v: "0 < v"
  shows "kmem_inv (s\<lparr>refcount := (refcount s)(p div PGSIZE := v)\<rparr>)" (is "kmem_inv ?s")
proof -
  from inv obtain xs where xs: "flist (pmem s) (freelist s) xs" "distinct xs" "0 < kend s"
    "\<And>p. p \<in> set xs \<longleftrightarrow> ram s p \<and> rc s p = 0" "\<And>p. ram s p \<Longrightarrow> 0 \<le> rc s p"
    by (rule kmem_invE) blast
  have rc': "rc ?s q = (if q = p then v else rc s q)" if "ram s q" for q
    using rc_update [OF ram_pgaligned [OF p(1)] ram_pgaligned [OF that]] .
  have "q \<in> set xs \<longleftrightarrow> ram ?s q \<and> rc ?s q = 0" for q
    using xs(4) [of q] rc' [of q] p v by (cases "q = p") auto
  moreover have "ram ?s q \<Longrightarrow> 0 \<le> rc ?s q" for q
    using xs(5) [of q] rc' [of q] v by (cases "q = p") auto
  ultimately show ?thesis using xs(1-3) by (intro kmem_invI [of ?s xs]) auto
qed

lemma kfree_inv:
  assumes inv: "kmem_inv s" and free: "kfree s p = Ok s'"
  shows "kmem_inv s'"
proof -
  have p: "ram s p" "0 < rc s p" using kfree_Ok [OF free] by auto
  have al: "pgaligned p" using p(1) by (rule ram_pgaligned)
  from inv obtain xs where xs: "flist (pmem s) (freelist s) xs" "distinct xs" "0 < kend s"
    "\<And>p. p \<in> set xs \<longleftrightarrow> ram s p \<and> rc s p = 0" "\<And>p. ram s p \<Longrightarrow> 0 \<le> rc s p"
    by (rule kmem_invE) blast
  show ?thesis
  proof (cases "rc s p = 1")
    case True
    define m where "m = store64 (memset (pmem s) p 1 4096) p (freelist s)"
    have s': "s' = s\<lparr>refcount := (refcount s)(p div PGSIZE := 0), pmem := m, freelist := p\<rparr>"
      using free True by (simp add: kfree_cases [OF p] m_def)
    have rc': "rc s' q = (if q = p then 0 else rc s q)" if "pgaligned q" for q
      using rc_update [OF al that, of s] s' by (simp add: rc_def)
    have ram': "ram s' q \<longleftrightarrow> ram s q" for q by (simp add: s' ram_def bad_page_def)
    have notin: "p \<notin> set xs" using xs(4) p by auto
    show ?thesis
    proof (rule kmem_invI)
      have "agree (set xs) (pmem s) m"
        unfolding m_def
        using agree_trans [OF agree_memset [OF al notin] agree_store64 [OF al _ notin, of 0]] by simp
      moreover have "\<forall>x\<in>set xs. pgaligned x" using xs(4) ram_pgaligned by auto
      ultimately have "flist m (freelist s) xs" using xs(1) by (auto intro: flist_agree)
      then show "flist (pmem s') (freelist s') (p # xs)"
        using s' ram_nonzero [OF xs(3) p(1)] by (simp add: m_def)
      show "distinct (p # xs)" "0 < kend s'" using xs(2,3) notin s' by auto
      show "q \<in> set (p # xs) \<longleftrightarrow> ram s' q \<and> rc s' q = 0" for q
        using xs(4) [of q] p(1) rc' [of q] ram' [of q] ram_pgaligned [of s q] al by (cases "q = p") auto
      show "ram s' q \<Longrightarrow> 0 \<le> rc s' q" for q
        using xs(5) rc' ram' ram_pgaligned by simp
    qed
  next
    case False
    have "s' = s\<lparr>refcount := (refcount s)(p div PGSIZE := rc s p - 1)\<rparr>"
      using free False by (simp add: kfree_cases [OF p])
    then show ?thesis using kmem_inv_positive [OF inv p] False p(2) by simp
  qed
qed

lemma kaddref_cases:
  "ram s p \<Longrightarrow> 0 < rc s p \<Longrightarrow>
   kaddref s p = Ok (s\<lparr>refcount := (refcount s)(p div PGSIZE := rc s p + 1)\<rparr>)"
  by (auto simp: kaddref_def ram_def rc_def Let_def)

lemma kaddref_Ok: "kaddref s p = Ok s' \<Longrightarrow> ram s p \<and> 0 < rc s p"
  by (auto simp: kaddref_def ram_def rc_def Let_def split: if_splits)

lemma kaddref_inv:
  assumes inv: "kmem_inv s" and add: "kaddref s p = Ok s'"
  shows "kmem_inv s'"
proof -
  have p: "ram s p" "0 < rc s p" using kaddref_Ok [OF add] by auto
  with add show ?thesis
    using kmem_inv_positive [OF inv p, of "rc s p + 1"] by (simp add: kaddref_cases)
qed

text \<open>The number of free pages.\<close>

definition nfree :: "phys \<Rightarrow> nat" where
  "nfree s = card {p. ram s p \<and> rc s p = 0}"

lemma nfree_pos: "kmem_inv s \<Longrightarrow> 0 < nfree s \<longleftrightarrow> freelist s \<noteq> 0"
  using kalloc_empty [of s] by (fastforce simp: nfree_def card_gt_0_iff kmem_inv_def order_le_less)

lemma nfree_take:
  assumes "kend s' = kend s" and "\<And>x. x \<in> F \<Longrightarrow> ram s x \<and> rc s x = 0"
    and "\<And>x. pgaligned x \<Longrightarrow> rc s' x = (if x \<in> F then 1 else rc s x)"
  shows "nfree s = nfree s' + card F"
proof -
  have rm: "ram s' x = ram s x" for x using assms(1) by (simp add: ram_def bad_page_def)
  have "{p. ram s p \<and> rc s p = 0} = {p. ram s' p \<and> rc s' p = 0} \<union> F"
    using assms(2) assms(3) [OF ram_pgaligned] rm by (auto split: if_splits)
  moreover have "{p. ram s' p \<and> rc s' p = 0} \<inter> F = {}"
    using assms(2) assms(3) [OF ram_pgaligned] by fastforce
  ultimately show ?thesis by (simp add: nfree_def card_Un_disjoint)
qed

lemma kalloc_nfree:
  assumes "kmem_inv s" and "kalloc s = (p, s')" and "p \<noteq> 0"
  shows "nfree s = nfree s' + 1"
proof -
  note k = kalloc_Some [OF assms]
  have "rc s' x = (if x \<in> {p} then 1 else rc s x)" if "pgaligned x" for x
    using rc_update [OF ram_pgaligned [OF k(1)] that, of s 1] k(6) by (simp add: rc_def)
  from nfree_take [OF k(5) _ this] show ?thesis using k(1,2) by simp
qed

section \<open>Initialisation\<close>

lemma kinit_loop_Ok:
  assumes "pgaligned pa" and "pa \<le> PHYSTOP" and "unat PHYSTOP < unat pa + 4096 * n"
  shows "\<exists>c. kinit_loop n s pa = Ok (s\<lparr>refcount := c\<rparr>) \<and>
    (\<forall>q. pgaligned q \<longrightarrow> q < PHYSTOP \<longrightarrow> rc (s\<lparr>refcount := c\<rparr>) q = (if pa \<le> q then 1 else rc s q))"
  using assms
proof (induction n arbitrary: s pa)
  case 0
  then show ?case by (simp add: word_le_nat_alt)
next
  case (Suc n)
  have al: "pgaligned (0x88000000 :: uint64)" by (simp add: pgaligned_def)
  show ?case
  proof (cases "pa < PHYSTOP")
    case False
    then have "pa = PHYSTOP" using Suc.prems(2) by simp
    then show ?thesis by (intro exI [of _ "refcount s"]) (auto simp: leD)
  next
    case True
    note ps = page_step [OF Suc.prems(1) al True [simplified]]
    let ?s = "s\<lparr>refcount := (refcount s)(pa div PGSIZE := 1)\<rparr>"
    have "unat PHYSTOP < unat (pa + 4096) + 4096 * n" using Suc.prems(3) ps(3) by simp
    then obtain c where c: "kinit_loop n ?s (pa + 4096) = Ok (?s\<lparr>refcount := c\<rparr>)"
      "\<forall>q. pgaligned q \<longrightarrow> q < PHYSTOP \<longrightarrow> rc (?s\<lparr>refcount := c\<rparr>) q = (if pa + 4096 \<le> q then 1 else rc ?s q)"
      using Suc.IH [OF ps(2) _, of ?s] ps(1) by auto
    have "rc (s\<lparr>refcount := c\<rparr>) q = (if pa \<le> q then 1 else rc s q)" if q: "pgaligned q" "q < PHYSTOP" for q
      using c(2) q page_step(5) [OF Suc.prems(1) al True [simplified] q(1)] rc_update [OF Suc.prems(1) q(1), of s 1]
      by auto
    then show ?thesis using c(1) ps(1) by auto
  qed
qed

lemma kfree_rc:
  assumes "kfree s p = Ok s'" and "pgaligned q"
  shows "rc s' q = (if q = p then rc s p - 1 else rc s q)" "kend s' = kend s"
proof -
  note p = kfree_Ok [OF assms(1), THEN conjunct1] kfree_Ok [OF assms(1), THEN conjunct2]
  have "s' = s'\<lparr>refcount := (refcount s)(p div PGSIZE := rc s p - 1)\<rparr>" "kend s' = kend s"
    using assms(1) kfree_cases [OF p] by (auto split: if_splits)
  moreover from this(1) have "rc s' q = rc (s\<lparr>refcount := (refcount s)(p div PGSIZE := rc s p - 1)\<rparr>) q"
    by (metis phys.select_convs(3) phys.surjective phys.update_convs(3) rc_def)
  ultimately show "rc s' q = (if q = p then rc s p - 1 else rc s q)" "kend s' = kend s"
    using rc_update [OF ram_pgaligned [OF p(1)] assms(2), of s] by simp_all
qed

lemma freerange_loop_Ok:
  assumes "kmem_inv s" and "pgaligned p" and "kend s \<le> p" and "p \<le> PHYSTOP"
    and "\<And>q. ram s q \<Longrightarrow> rc s q = (if p \<le> q then 1 else 0)" and "unat PHYSTOP < unat p + 4096 * n"
  shows "\<exists>s'. freerange_loop n s p PHYSTOP = Ok s' \<and> kmem_inv s' \<and> kend s' = kend s \<and> (\<forall>q. ram s' q \<longrightarrow> rc s' q = 0)"
  using assms
proof (induction n arbitrary: s p)
  case 0
  then show ?case by (simp add: word_le_nat_alt)
next
  case (Suc n)
  have al: "pgaligned (0x88000000 :: uint64)" by (simp add: pgaligned_def)
  show ?case
  proof (cases "p < PHYSTOP")
    case False
    then have "p = PHYSTOP" using Suc.prems(4) by simp
    moreover from this have "rc s q = 0" if "ram s q" for q
      using Suc.prems(5) [OF that] ram_less [OF that] by (simp add: leD)
    ultimately show ?thesis using Suc.prems(1) by simp
  next
    case True
    note ps = page_step [OF Suc.prems(2) al True [simplified]]
    have rp: "ram s p" using Suc.prems(2,3) True by (simp add: ram_def bad_page_def pgaligned_def not_le not_less)
    then have "rc s p = 1" using Suc.prems(5) by simp
    then obtain s1 where k: "kfree s p = Ok s1" using kfree_cases [OF rp] by auto
    have ke: "kend s1 = kend s" using kfree_rc(2) [OF k Suc.prems(2)] .
    have rm: "ram s1 q = ram s q" for q using ke by (simp add: ram_def bad_page_def)
    have "rc s1 q = (if p + 4096 \<le> q then 1 else 0)" if "ram s1 q" for q
      using kfree_rc(1) [OF k ram_pgaligned [OF that]] Suc.prems(5) [of q] that rm \<open>rc s p = 1\<close>
        page_step(5) [OF Suc.prems(2) al True [simplified] ram_pgaligned [OF that]] ram_less [OF that] ps(3)
      by (auto simp: word_le_nat_alt)
    moreover have "kend s1 \<le> p + 4096" using ke Suc.prems(3) ps(3) by (simp add: word_le_nat_alt)
    moreover have "unat PHYSTOP < unat (p + 4096) + 4096 * n" using Suc.prems(6) ps(3) by simp
    ultimately have "\<exists>s'. freerange_loop n s1 (p + 4096) PHYSTOP = Ok s' \<and> kmem_inv s' \<and> kend s' = kend s1 \<and> (\<forall>q. ram s' q \<longrightarrow> rc s' q = 0)"
      using Suc.IH [OF kfree_inv [OF Suc.prems(1) k] ps(2)] ps(1) by simp
    then show ?thesis using k ke ps(1) by auto
  qed
qed

lemma kinit_Ok:
  assumes "freelist s = 0" and "0 < kend s" and "kend s \<le> PHYSTOP"
  shows "\<exists>s'. kinit s = Ok s' \<and> kmem_inv s' \<and> kend s' = kend s \<and> (\<forall>q. ram s' q \<longrightarrow> rc s' q = 0)"
proof -
  let ?p = "PGROUNDUP (kend s)"
  have u: "unat ?p = (unat (kend s) + 4095) div 4096 * 4096" "unat (kend s) \<le> unat PHYSTOP"
    using assms(3) by (simp_all add: PGROUNDUP_eq unat_PGROUNDDOWN unat_word_ariths word_le_nat_alt)
  have p: "pgaligned ?p" "?p \<le> PHYSTOP" "kend s \<le> ?p"
    using u by (simp_all add: PGROUNDUP_eq word_le_nat_alt)
  have fuel: "unat PHYSTOP < unat ?p + 4096 * (unat PHYSTOP div 4096 + 1)" by simp
  obtain c where c: "kinit_loop (unat PHYSTOP div 4096 + 1) s ?p = Ok (s\<lparr>refcount := c\<rparr>)"
    "\<forall>q. pgaligned q \<longrightarrow> q < PHYSTOP \<longrightarrow> rc (s\<lparr>refcount := c\<rparr>) q = (if ?p \<le> q then 1 else rc s q)"
    using kinit_loop_Ok [OF p(1,2) fuel] by blast
  let ?s = "s\<lparr>refcount := c\<rparr>"
  have one: "?p \<le> q \<and> rc ?s q = 1" if "ram ?s q" for q
  proof -
    have q: "pgaligned q" "q < PHYSTOP" "kend s \<le> q"
      using that ram_pgaligned [OF that] ram_less [OF that] by (simp_all add: ram_def bad_page_def not_less)
    have "4096 dvd unat q" "unat (kend s) \<le> unat q" using q by (simp_all add: pgaligned_dvd word_le_nat_alt)
    then have "unat ?p \<le> unat q" using u(1) div_times_less_eq_dividend [of "unat (kend s) + 4095" 4096] by (elim dvdE) simp
    then show ?thesis using c(2) q by (simp add: word_le_nat_alt)
  qed
  have "kmem_inv ?s"
    by (rule kmem_invI [of _ "[]"]) (use assms one in \<open>auto dest: one\<close>)
  from freerange_loop_Ok [OF this p(1) _ p(2) _ fuel] one p(3)
  obtain s' where "freerange_loop (unat PHYSTOP div 4096 + 1) ?s ?p PHYSTOP = Ok s'" "kmem_inv s'" "kend s' = kend s"
    "\<forall>q. ram s' q \<longrightarrow> rc s' q = 0" by fastforce
  then show ?thesis using c(1) by (simp add: kinit_def freerange_def)
qed

end
