(* ===== verification/Vm.thy ===== *)
theory Vm
  imports Kalloc
begin

text \<open>
  The routines of \<^verbatim>\<open>kernel/vm.c\<close>. A page table is named by the physical address of
  its root page; page-table pages are 512 little-endian 64-bit entries in \<open>pmem\<close>.
  A routine that returns \<^verbatim>\<open>0\<close> or \<^verbatim>\<open>-1\<close> on failure returns that number here. Loops
  carry fuel; \<open>sfence_vma()\<close> has no counterpart because the model reads every
  translation from memory. The kernel buffer that \<^verbatim>\<open>copyout()\<close> reads and
  \<^verbatim>\<open>copyin()\<close> fills is a list of bytes.
\<close>

section \<open>Walking page tables\<close>

text \<open>
  One iteration per level, from level 2 down to 1, then the slot in the level-0 page.
  A page for a missing level is allocated when \<open>alloc\<close> is set.
\<close>

primrec walk_loop :: "nat \<Rightarrow> phys \<Rightarrow> uint64 \<Rightarrow> uint64 \<Rightarrow> bool \<Rightarrow> uint64 \<times> phys" where
  "walk_loop 0 s pagetable va alloc = (pagetable + 8 * PX 0 va, s)"
| "walk_loop (Suc l) s pagetable va alloc =
     (let pte = pagetable + 8 * PX (Suc l) va; v = load64 (pmem s) pte in
      if v AND PTE_V \<noteq> 0 then walk_loop l s (PTE2PA v) va alloc
      else if \<not> alloc then (0, s)
      else let (p, s) = kalloc s in
        if p = 0 then (0, s)
        else let m = memset (pmem s) p 0 4096;
                 s = s\<lparr>pmem := store64 m pte (PA2PTE p OR PTE_V)\<rparr>
             in walk_loop l s p va alloc)"

definition walk :: "phys \<Rightarrow> uint64 \<Rightarrow> uint64 \<Rightarrow> bool \<Rightarrow> (uint64 \<times> phys) res" where
  "walk s pagetable va alloc =
     (if va \<ge> MAXVA then Panic ''walk'' else Ok (walk_loop 2 s pagetable va alloc))"

definition walkaddr :: "phys \<Rightarrow> uint64 \<Rightarrow> uint64 \<Rightarrow> uint64 res" where
  "walkaddr s pagetable va =
     (if va \<ge> MAXVA then Ok 0
      else bindR (walk s pagetable va False) (\<lambda>(pte, s).
        if pte = 0 then Ok 0
        else let v = load64 (pmem s) pte in
          if v AND PTE_V = 0 then Ok 0
          else if v AND PTE_U = 0 then Ok 0
          else Ok (PTE2PA v)))"

definition ismapped :: "phys \<Rightarrow> uint64 \<Rightarrow> uint64 \<Rightarrow> bool res" where
  "ismapped s pagetable va =
     bindR (walk s pagetable va False) (\<lambda>(pte, s).
       if pte = 0 then Ok False
       else Ok (load64 (pmem s) pte AND PTE_V \<noteq> 0))"

section \<open>Mapping and unmapping\<close>

primrec mappages_loop :: "nat \<Rightarrow> phys \<Rightarrow> uint64 \<Rightarrow> uint64 \<Rightarrow> uint64 \<Rightarrow> uint64 \<Rightarrow> uint64 \<Rightarrow> (int \<times> phys) res" where
  "mappages_loop 0 s pagetable a lst pa perm = OutOfFuel"
| "mappages_loop (Suc n) s pagetable a lst pa perm =
     bindR (walk s pagetable a True) (\<lambda>(pte, s).
       if pte = 0 then Ok (-1, s)
       else if load64 (pmem s) pte AND PTE_V \<noteq> 0 then Panic ''mappages: remap''
       else let s = s\<lparr>pmem := store64 (pmem s) pte (PA2PTE pa OR perm OR PTE_V)\<rparr> in
         if a = lst then Ok (0, s)
         else mappages_loop n s pagetable (a + PGSIZE) lst (pa + PGSIZE) perm)"

definition mappages :: "phys \<Rightarrow> uint64 \<Rightarrow> uint64 \<Rightarrow> uint64 \<Rightarrow> uint64 \<Rightarrow> uint64 \<Rightarrow> (int \<times> phys) res" where
  "mappages s pagetable va sz pa perm =
     (if va mod PGSIZE \<noteq> 0 then Panic ''mappages: va not aligned''
      else if sz mod PGSIZE \<noteq> 0 then Panic ''mappages: size not aligned''
      else if sz = 0 then Panic ''mappages: size''
      else mappages_loop (unat (sz div PGSIZE)) s pagetable va (va + sz - PGSIZE) pa perm)"

definition uvmcreate :: "phys \<Rightarrow> uint64 \<times> phys" where
  "uvmcreate s =
     (let (p, s) = kalloc s in
      if p = 0 then (0, s) else (p, s\<lparr>pmem := memset (pmem s) p 0 4096\<rparr>))"

primrec uvmunmap_loop :: "nat \<Rightarrow> phys \<Rightarrow> uint64 \<Rightarrow> uint64 \<Rightarrow> uint64 \<Rightarrow> bool \<Rightarrow> phys res" where
  "uvmunmap_loop 0 s pagetable a lst do_free = OutOfFuel"
| "uvmunmap_loop (Suc n) s pagetable a lst do_free =
     (if \<not> a < lst then Ok s
      else bindR (walk s pagetable a False) (\<lambda>(pte, s).
        if pte = 0 then uvmunmap_loop n s pagetable (a + PGSIZE) lst do_free
        else let v = load64 (pmem s) pte in
          if v AND PTE_V = 0 then uvmunmap_loop n s pagetable (a + PGSIZE) lst do_free
          else bindR (if do_free then kfree s (PTE2PA v) else Ok s) (\<lambda>s.
            uvmunmap_loop n (s\<lparr>pmem := store64 (pmem s) pte 0\<rparr>) pagetable (a + PGSIZE) lst do_free)))"

definition uvmunmap :: "phys \<Rightarrow> uint64 \<Rightarrow> uint64 \<Rightarrow> uint64 \<Rightarrow> bool \<Rightarrow> phys res" where
  "uvmunmap s pagetable va npages do_free =
     (if va mod PGSIZE \<noteq> 0 then Panic ''uvmunmap: not aligned''
      else uvmunmap_loop (unat npages + 1) s pagetable va (va + npages * PGSIZE) do_free)"

section \<open>Growing and shrinking an address space\<close>

text \<open>The page count passes through a C \<^verbatim>\<open>int\<close>.\<close>

definition uvmdealloc :: "phys \<Rightarrow> uint64 \<Rightarrow> uint64 \<Rightarrow> uint64 \<Rightarrow> (uint64 \<times> phys) res" where
  "uvmdealloc s pagetable oldsz newsz =
     (if newsz \<ge> oldsz then Ok (oldsz, s)
      else if PGROUNDUP newsz < PGROUNDUP oldsz
      then let npages = ucast ((PGROUNDUP oldsz - PGROUNDUP newsz) div PGSIZE) :: uint in
        bindR (uvmunmap s pagetable (PGROUNDUP newsz) (scast npages) True) (\<lambda>s. Ok (newsz, s))
      else Ok (newsz, s))"

primrec uvmalloc_loop :: "nat \<Rightarrow> phys \<Rightarrow> uint64 \<Rightarrow> uint64 \<Rightarrow> uint64 \<Rightarrow> uint64 \<Rightarrow> uint64 \<Rightarrow> (uint64 \<times> phys) res" where
  "uvmalloc_loop 0 s pagetable oldsz a newsz xperm = OutOfFuel"
| "uvmalloc_loop (Suc n) s pagetable oldsz a newsz xperm =
     (if \<not> a < newsz then Ok (newsz, s)
      else let (mem, s) = kalloc s in
        if mem = 0
        then bindR (uvmdealloc s pagetable a oldsz) (\<lambda>(_, s). Ok (0, s))
        else let s = s\<lparr>pmem := memset (pmem s) mem 0 4096\<rparr> in
          bindR (mappages s pagetable a PGSIZE mem (PTE_R OR PTE_U OR xperm)) (\<lambda>(r, s).
            if r \<noteq> 0
            then bindR (kfree s mem) (\<lambda>s.
                 bindR (uvmdealloc s pagetable a oldsz) (\<lambda>(_, s). Ok (0, s)))
            else uvmalloc_loop n s pagetable oldsz (a + PGSIZE) newsz xperm))"

definition uvmalloc :: "phys \<Rightarrow> uint64 \<Rightarrow> uint64 \<Rightarrow> uint64 \<Rightarrow> uint64 \<Rightarrow> (uint64 \<times> phys) res" where
  "uvmalloc s pagetable oldsz newsz xperm =
     (if newsz < oldsz then Ok (oldsz, s)
      else uvmalloc_loop (unat newsz div 4096 + 2) s pagetable (PGROUNDUP oldsz)
             (PGROUNDUP oldsz) newsz xperm)"

section \<open>Freeing an address space\<close>

text \<open>
  The recursion of \<^verbatim>\<open>freewalk()\<close> descends one level of the tree per call, so its
  depth is bounded by the three levels of Sv39.
\<close>

primrec freewalk_levels :: "nat \<Rightarrow> phys \<Rightarrow> uint64 \<Rightarrow> phys res" where
  "freewalk_levels 0 s pagetable = OutOfFuel"
| "freewalk_levels (Suc d) s pagetable =
     bindR (foldR (\<lambda>i s.
              let pte = load64 (pmem s) (pagetable + 8 * of_nat i) in
              if pte AND PTE_V \<noteq> 0 \<and> pte AND (PTE_R OR PTE_W OR PTE_X) = 0
              then bindR (freewalk_levels d s (PTE2PA pte)) (\<lambda>s.
                   Ok (s\<lparr>pmem := store64 (pmem s) (pagetable + 8 * of_nat i) 0\<rparr>))
              else if pte AND PTE_V \<noteq> 0 then Panic ''freewalk: leaf''
              else Ok s) [0..<512] s)
       (\<lambda>s. kfree s pagetable)"

definition freewalk :: "phys \<Rightarrow> uint64 \<Rightarrow> phys res" where
  "freewalk s pagetable = freewalk_levels 3 s pagetable"

definition uvmfree :: "phys \<Rightarrow> uint64 \<Rightarrow> uint64 \<Rightarrow> phys res" where
  "uvmfree s pagetable sz =
     bindR (if sz > 0 then uvmunmap s pagetable 0 (PGROUNDUP sz div PGSIZE) True else Ok s)
       (\<lambda>s. freewalk s pagetable)"

section \<open>Copy-on-write fork\<close>

primrec uvmcopy_loop :: "nat \<Rightarrow> phys \<Rightarrow> uint64 \<Rightarrow> uint64 \<Rightarrow> uint64 \<Rightarrow> uint64 \<Rightarrow> (int \<times> phys) res" where
  "uvmcopy_loop 0 s old new i sz = OutOfFuel"
| "uvmcopy_loop (Suc n) s old new i sz =
     (if \<not> i < sz then Ok (0, s)
      else bindR (walk s old i False) (\<lambda>(pte, s).
        if pte = 0 then uvmcopy_loop n s old new (i + PGSIZE) sz
        else let v = load64 (pmem s) pte in
          if v AND PTE_V = 0 then uvmcopy_loop n s old new (i + PGSIZE) sz
          else let pa = PTE2PA v; flags = PTE_FLAGS v;
                   shared = (flags AND NOT PTE_W) OR PTE_COW;
                   (flags, s) = (if flags AND PTE_W \<noteq> 0
                     then (shared, s\<lparr>pmem := store64 (pmem s) pte (PA2PTE pa OR shared)\<rparr>)
                     else (flags, s))
               in bindR (mappages s new i PGSIZE pa flags) (\<lambda>(r, s).
                 if r \<noteq> 0
                 then bindR (uvmunmap s new 0 (i div PGSIZE) True) (\<lambda>s. Ok (-1, s))
                 else bindR (kaddref s pa) (\<lambda>s.
                   uvmcopy_loop n s old new (i + PGSIZE) sz))))"

definition uvmcopy :: "phys \<Rightarrow> uint64 \<Rightarrow> uint64 \<Rightarrow> uint64 \<Rightarrow> (int \<times> phys) res" where
  "uvmcopy s old new sz = uvmcopy_loop (unat sz div 4096 + 2) s old new 0 sz"

definition uvmclear :: "phys \<Rightarrow> uint64 \<Rightarrow> uint64 \<Rightarrow> phys res" where
  "uvmclear s pagetable va =
     bindR (walk s pagetable va False) (\<lambda>(pte, s).
       if pte = 0 then Panic ''uvmclear''
       else Ok (s\<lparr>pmem := store64 (pmem s) pte (load64 (pmem s) pte AND NOT PTE_U)\<rparr>))"

section \<open>Page faults\<close>

definition cowfault :: "phys \<Rightarrow> uint64 \<Rightarrow> uint64 \<Rightarrow> (uint64 \<times> phys) res" where
  "cowfault s pagetable va =
     (if va \<ge> MAXVA then Ok (0, s)
      else let va = PGROUNDDOWN va in
      bindR (walk s pagetable va False) (\<lambda>(pte, s).
        if pte = 0 then Ok (0, s)
        else let v = load64 (pmem s) pte in
          if v AND PTE_V = 0 \<or> v AND PTE_U = 0 \<or> v AND PTE_COW = 0 then Ok (0, s)
          else let pa = PTE2PA v; flags = (PTE_FLAGS v OR PTE_W) AND NOT PTE_COW in
            bindR (kgetref s pa) (\<lambda>count.
              if count = 1
              then Ok (pa, s\<lparr>pmem := store64 (pmem s) pte (PA2PTE pa OR flags)\<rparr>)
              else let (mem, s) = kalloc s in
                if mem = 0 then Ok (0, s)
                else let m = memmove (pmem s) mem pa 4096;
                         s = s\<lparr>pmem := store64 m pte (PA2PTE mem OR flags)\<rparr>
                     in bindR (kfree s pa) (\<lambda>s. Ok (mem, s)))))"

text \<open>
  \<^verbatim>\<open>vmfault()\<close> reads the size and the page table of the current process, here
  \<open>psz\<close> and \<open>ppagetable\<close>.
\<close>

definition vmfault :: "uint64 \<Rightarrow> uint64 \<Rightarrow> phys \<Rightarrow> uint64 \<Rightarrow> uint64 \<Rightarrow> (uint64 \<times> phys) res" where
  "vmfault psz ppagetable s pagetable va =
     (if va \<ge> psz then Ok (0, s)
      else let va = PGROUNDDOWN va in
      bindR (ismapped s pagetable va) (\<lambda>mapped.
        if mapped then Ok (0, s)
        else let (mem, s) = kalloc s in
          if mem = 0 then Ok (0, s)
          else let s = s\<lparr>pmem := memset (pmem s) mem 0 4096\<rparr> in
            bindR (mappages s ppagetable va PGSIZE mem (PTE_W OR PTE_U OR PTE_R)) (\<lambda>(r, s).
              if r \<noteq> 0 then bindR (kfree s mem) (\<lambda>s. Ok (0, s)) else Ok (mem, s))))"

section \<open>Copying between kernel and user space\<close>

text \<open>The kernel side of a copy: storing a list of bytes, reading a run of bytes.\<close>

definition store_bytes :: "mem \<Rightarrow> uint64 \<Rightarrow> uchar list \<Rightarrow> mem" where
  "store_bytes m a bs = (\<lambda>x. if unat (x - a) < length bs then bs ! unat (x - a) else m x)"

definition load_bytes :: "mem \<Rightarrow> uint64 \<Rightarrow> nat \<Rightarrow> uchar list" where
  "load_bytes m a n = map (\<lambda>i. m (a + of_nat i)) [0..<n]"

primrec copyout_loop :: "nat \<Rightarrow> uint64 \<Rightarrow> uint64 \<Rightarrow> phys \<Rightarrow> uint64 \<Rightarrow> uint64 \<Rightarrow> uchar list \<Rightarrow> (int \<times> phys) res" where
  "copyout_loop 0 psz ppt s pagetable dstva src = OutOfFuel"
| "copyout_loop (Suc k) psz ppt s pagetable dstva src =
     (if src = [] then Ok (0, s)
      else let va0 = PGROUNDDOWN dstva in
        if va0 \<ge> MAXVA then Ok (-1, s)
        else bindR (walkaddr s pagetable va0) (\<lambda>pa0.
          bindR (if pa0 = 0 then vmfault psz ppt s pagetable va0 else Ok (pa0, s)) (\<lambda>(pa0, s).
            if pa0 = 0 then Ok (-1, s)
            else bindR (walk s pagetable va0 False) (\<lambda>(pte, s).
              let v = load64 (pmem s) pte in
              if pte = 0 \<or> v AND PTE_V = 0 \<or> v AND PTE_U = 0 then Ok (-1, s)
              else bindR (if v AND PTE_COW \<noteq> 0
                          then bindR (cowfault s pagetable va0) (\<lambda>(pa0, s).
                               if pa0 = 0 then Ok (pa0, pte, s)
                               else bindR (walk s pagetable va0 False) (\<lambda>(pte, s). Ok (pa0, pte, s)))
                          else Ok (pa0, pte, s)) (\<lambda>(pa0, pte, s).
                if pa0 = 0 then Ok (-1, s)
                else if load64 (pmem s) pte AND PTE_W = 0 then Ok (-1, s)
                else let n = min (4096 - unat (dstva - va0)) (length src);
                         s = s\<lparr>pmem := store_bytes (pmem s) (pa0 + (dstva - va0)) (take n src)\<rparr>
                     in copyout_loop k psz ppt s pagetable (va0 + PGSIZE) (drop n src))))))"

definition copyout :: "uint64 \<Rightarrow> uint64 \<Rightarrow> phys \<Rightarrow> uint64 \<Rightarrow> uint64 \<Rightarrow> uchar list \<Rightarrow> (int \<times> phys) res" where
  "copyout psz ppt s pagetable dstva src = copyout_loop (length src + 1) psz ppt s pagetable dstva src"

text \<open>\<^verbatim>\<open>copyin()\<close> returns the bytes it has stored at \<^verbatim>\<open>dst\<close> with its result.\<close>

primrec copyin_loop :: "nat \<Rightarrow> uint64 \<Rightarrow> uint64 \<Rightarrow> phys \<Rightarrow> uint64 \<Rightarrow> uint64 \<Rightarrow> nat \<Rightarrow> (int \<times> uchar list \<times> phys) res" where
  "copyin_loop 0 psz ppt s pagetable srcva len = OutOfFuel"
| "copyin_loop (Suc k) psz ppt s pagetable srcva len =
     (if len = 0 then Ok (0, [], s)
      else let va0 = PGROUNDDOWN srcva in
        bindR (walkaddr s pagetable va0) (\<lambda>pa0.
          bindR (if pa0 = 0 then vmfault psz ppt s pagetable va0 else Ok (pa0, s)) (\<lambda>(pa0, s).
            if pa0 = 0 then Ok (-1, [], s)
            else let n = min (4096 - unat (srcva - va0)) len;
                     bs = load_bytes (pmem s) (pa0 + (srcva - va0)) n
                 in bindR (copyin_loop k psz ppt s pagetable (va0 + PGSIZE) (len - n))
                      (\<lambda>(r, rest, s). Ok (r, bs @ rest, s)))))"

definition copyin :: "uint64 \<Rightarrow> uint64 \<Rightarrow> phys \<Rightarrow> uint64 \<Rightarrow> uint64 \<Rightarrow> nat \<Rightarrow> (int \<times> uchar list \<times> phys) res" where
  "copyin psz ppt s pagetable srcva len = copyin_loop (len + 1) psz ppt s pagetable srcva len"

text \<open>
  The inner loop of \<^verbatim>\<open>copyinstr()\<close>: the bytes of one page up to and including a NUL,
  and whether a NUL was met.
\<close>

primrec copy_until_nul :: "mem \<Rightarrow> nat \<Rightarrow> uint64 \<Rightarrow> uchar list \<times> bool" where
  "copy_until_nul m 0 p = ([], False)"
| "copy_until_nul m (Suc n) p =
     (if m p = 0 then ([0], True)
      else let (bs, got_null) = copy_until_nul m n (p + 1) in (m p # bs, got_null))"

primrec copyinstr_loop :: "nat \<Rightarrow> phys \<Rightarrow> uint64 \<Rightarrow> uint64 \<Rightarrow> nat \<Rightarrow> (int \<times> uchar list) res" where
  "copyinstr_loop 0 s pagetable srcva mx = OutOfFuel"
| "copyinstr_loop (Suc k) s pagetable srcva mx =
     (if mx = 0 then Ok (-1, [])
      else let va0 = PGROUNDDOWN srcva in
        bindR (walkaddr s pagetable va0) (\<lambda>pa0.
          if pa0 = 0 then Ok (-1, [])
          else let n = min (4096 - unat (srcva - va0)) mx;
                   (bs, got_null) = copy_until_nul (pmem s) n (pa0 + (srcva - va0))
               in if got_null then Ok (0, bs)
                  else bindR (copyinstr_loop k s pagetable (va0 + PGSIZE) (mx - n))
                         (\<lambda>(r, rest). Ok (r, bs @ rest))))"

definition copyinstr :: "phys \<Rightarrow> uint64 \<Rightarrow> uint64 \<Rightarrow> nat \<Rightarrow> (int \<times> uchar list) res" where
  "copyinstr s pagetable srcva mx = copyinstr_loop (mx + 1) s pagetable srcva mx"

end
