(* ===== verification/Vm_Tree.thy ===== *)
theory Vm_Tree
  imports Vm
begin

text \<open>
  Page tables in memory as trees. \<open>nodes\<close> are the page-table pages below a page,
  \<open>wf_pt\<close> says that they form a tree (no page is reached twice), \<open>slot\<close> is the
  address of the level-0 entry for a virtual address and \<open>pte\<close> that entry, 0 where
  no level-0 page exists. The lemmas show what a store into a slot and an allocating
  walk do to these, by induction on the level.
\<close>

definition child :: "mem \<Rightarrow> uint64 \<Rightarrow> uint64 \<Rightarrow> uint64 option" where
  "child m p i =
     (let v = load64 m (p + 8 * i) in if v AND PTE_V \<noteq> 0 then Some (PTE2PA v) else None)"

primrec nodes :: "nat \<Rightarrow> mem \<Rightarrow> uint64 \<Rightarrow> uint64 set" where
  "nodes 0 m p = {p}"
| "nodes (Suc l) m p = insert p (\<Union>i\<in>{i. i < 512}. case child m p i of None \<Rightarrow> {} | Some q \<Rightarrow> nodes l m q)"

primrec wf_pt :: "nat \<Rightarrow> mem \<Rightarrow> uint64 \<Rightarrow> bool" where
  "wf_pt 0 m p \<longleftrightarrow> pgaligned p"
| "wf_pt (Suc l) m p \<longleftrightarrow> pgaligned p \<and>
     (\<forall>i q. i < 512 \<longrightarrow> child m p i = Some q \<longrightarrow>
        wf_pt l m q \<and> p \<notin> nodes l m q \<and>
        load64 m (p + 8 * i) AND (PTE_R OR PTE_W OR PTE_X) = 0) \<and>
     (\<forall>i j q r. i < 512 \<longrightarrow> j < 512 \<longrightarrow> i \<noteq> j \<longrightarrow>
        child m p i = Some q \<longrightarrow> child m p j = Some r \<longrightarrow> nodes l m q \<inter> nodes l m r = {})"

primrec slot :: "nat \<Rightarrow> mem \<Rightarrow> uint64 \<Rightarrow> uint64 \<Rightarrow> uint64 option" where
  "slot 0 m p va = Some (p + 8 * PX 0 va)"
| "slot (Suc l) m p va = (case child m p (PX (Suc l) va) of None \<Rightarrow> None | Some q \<Rightarrow> slot l m q va)"

definition pte :: "nat \<Rightarrow> mem \<Rightarrow> uint64 \<Rightarrow> uint64 \<Rightarrow> uint64" where
  "pte l m p va = (case slot l m p va of None \<Rightarrow> 0 | Some a \<Rightarrow> load64 m a)"

definition same_path :: "nat \<Rightarrow> uint64 \<Rightarrow> uint64 \<Rightarrow> bool" where
  "same_path l va va' \<longleftrightarrow> (\<forall>k\<le>l. PX k va = PX k va')"

section \<open>The tree does not depend on other pages\<close>

lemma pte_Suc:
  "pte (Suc l) m p va = (case child m p (PX (Suc l) va) of None \<Rightarrow> 0 | Some q \<Rightarrow> pte l m q va)"
  by (simp add: pte_def split: option.splits)

lemma wf_pt_aligned: "wf_pt l m p \<Longrightarrow> pgaligned p"
  by (cases l) auto

lemma wf_pt_child:
  assumes "wf_pt (Suc l) m p" and "i < 512" and "child m p i = Some q"
  shows "wf_pt l m q" "p \<notin> nodes l m q" "load64 m (p + 8 * i) AND (PTE_R OR PTE_W OR PTE_X) = 0"
  using assms by auto

lemma wf_pt_disjoint:
  "wf_pt (Suc l) m p \<Longrightarrow> i < 512 \<Longrightarrow> j < 512 \<Longrightarrow> i \<noteq> j \<Longrightarrow>
   child m p i = Some q \<Longrightarrow> child m p j = Some r \<Longrightarrow> nodes l m q \<inter> nodes l m r = {}"
  by auto

lemma root_in_nodes [simp]: "p \<in> nodes l m p"
  by (cases l) auto

lemma nodes_child:
  "i < 512 \<Longrightarrow> child m p i = Some q \<Longrightarrow> nodes l m q \<subseteq> nodes (Suc l) m p"
  by force

lemma nodes_SucE:
  assumes "x \<in> nodes (Suc l) m p"
  obtains "x = p" | i q where "i < 512" "child m p i = Some q" "x \<in> nodes l m q"
  using assms by (auto split: option.splits)

lemma nodes_aligned: "wf_pt l m p \<Longrightarrow> x \<in> nodes l m p \<Longrightarrow> pgaligned x"
proof (induction l arbitrary: p)
  case (Suc l)
  from Suc.prems(2) show ?case
    by (rule nodes_SucE) (use Suc in auto)
qed simp

lemma child_agree:
  "agree P m m' \<Longrightarrow> p \<in> P \<Longrightarrow> pgaligned p \<Longrightarrow> i < 512 \<Longrightarrow> child m' p i = child m p i"
  by (simp add: child_def agree_load64)

lemma tree_agree_all:
  "wf_pt l m p \<Longrightarrow> agree (nodes l m p) m m' \<Longrightarrow>
   nodes l m' p = nodes l m p \<and> wf_pt l m' p \<and> (\<forall>va. slot l m' p va = slot l m p va)"
proof (induction l arbitrary: p)
  case (Suc l)
  have al: "pgaligned p" using Suc.prems(1) by simp
  have ch: "child m' p i = child m p i" "load64 m' (p + 8 * i) = load64 m (p + 8 * i)" if "i < 512" for i
    using child_agree [OF Suc.prems(2) _ al that] agree_load64 [OF Suc.prems(2) al _ that] by auto
  have sub: "nodes l m' q = nodes l m q \<and> wf_pt l m' q \<and> (\<forall>va. slot l m' q va = slot l m q va)"
    if "i < 512" "child m p i = Some q" for i q
  proof (rule Suc.IH)
    show "wf_pt l m q" using Suc.prems(1) that by auto
    show "agree (nodes l m q) m m'"
      using Suc.prems(2) nodes_child [OF that] by (rule agree_subset)
  qed
  have "nodes (Suc l) m' p = nodes (Suc l) m p"
    using ch sub by (auto split: option.splits)
  moreover have "wf_pt (Suc l) m' p"
    using Suc.prems(1) ch sub by auto
  moreover have "slot (Suc l) m' p va = slot (Suc l) m p va" for va
    using ch sub [OF PX_less, of "Suc l" va] by (auto split: option.split)
  ultimately show ?case by blast
qed simp

lemma slot_in_nodes:
  "wf_pt l m p \<Longrightarrow> slot l m p va = Some a \<Longrightarrow>
   \<exists>t\<in>nodes l m p. pgaligned t \<and> a = t + 8 * PX 0 va"
proof (induction l arbitrary: p)
  case (Suc l)
  then obtain q where q: "child m p (PX (Suc l) va) = Some q" "slot l m q va = Some a"
    by (auto split: option.splits)
  moreover have "wf_pt l m q" by (rule wf_pt_child(1) [OF Suc.prems(1) PX_less q(1)])
  ultimately obtain t where "t \<in> nodes l m q" "pgaligned t \<and> a = t + 8 * PX 0 va"
    using Suc.IH by blast
  then show ?case using nodes_child [OF PX_less q(1), of l] by blast
qed simp

lemma tree_agree:
  assumes "wf_pt l m p" and "agree (nodes l m p) m m'"
  shows "nodes l m' p = nodes l m p" "wf_pt l m' p" "slot l m' p va = slot l m p va"
    "pte l m' p va = pte l m p va"
proof -
  show eqs: "nodes l m' p = nodes l m p" "wf_pt l m' p" "slot l m' p va = slot l m p va"
    using tree_agree_all [OF assms] by auto
  show "pte l m' p va = pte l m p va"
  proof (cases "slot l m p va")
    case (Some a)
    then obtain t where t: "t \<in> nodes l m p" "pgaligned t" "a = t + 8 * PX 0 va"
      using slot_in_nodes [OF assms(1) Some] by auto
    then have "load64 m' a = load64 m a" using agree_load64 [OF assms(2) t(2,1)] by simp
    then show ?thesis using eqs Some by (simp add: pte_def)
  qed (use eqs in \<open>simp add: pte_def\<close>)
qed

section \<open>Storing an entry\<close>

lemma same_path_Suc:
  "same_path (Suc l) va va' \<longleftrightarrow> PX (Suc l) va = PX (Suc l) va' \<and> same_path l va va'"
  by (auto simp: same_path_def le_Suc_eq)

text \<open>
  The subtrees of a page other than the one at index \<open>i\<close>. \<open>subtree_change\<close> is the
  step of every induction below: the subtree at \<open>i\<close> is replaced and the rest of the
  tree is untouched.
\<close>

definition others :: "nat \<Rightarrow> mem \<Rightarrow> uint64 \<Rightarrow> uint64 \<Rightarrow> uint64 set" where
  "others l m p i =
     (\<Union>j\<in>{j. j < 512 \<and> j \<noteq> i}. case child m p j of None \<Rightarrow> {} | Some r \<Rightarrow> nodes l m r)"

lemma nodes_split:
  "i < 512 \<Longrightarrow> nodes (Suc l) m p =
     insert p (others l m p i \<union> (case child m p i of None \<Rightarrow> {} | Some q \<Rightarrow> nodes l m q))"
  by (auto simp: others_def split: option.splits)

lemma others_child:
  "j < 512 \<Longrightarrow> j \<noteq> i \<Longrightarrow> child m p j = Some r \<Longrightarrow> nodes l m r \<subseteq> others l m p i"
  by (force simp: others_def)

lemma others_disjoint:
  "wf_pt (Suc l) m p \<Longrightarrow> i < 512 \<Longrightarrow> child m p i = Some q \<Longrightarrow> others l m p i \<inter> nodes l m q = {}"
  using wf_pt_disjoint [of l m p _ i _ q] by (fastforce simp: others_def split: option.splits)

lemma others_root: "wf_pt (Suc l) m p \<Longrightarrow> p \<notin> others l m p i"
  by (auto simp: others_def split: option.splits)

declare nodes.simps(2) [simp del] wf_pt.simps(2) [simp del]

lemma subtree_change:
  assumes wf: "wf_pt (Suc l) m p" and i: "i < 512"
    and same: "\<And>j. j < 512 \<Longrightarrow> j \<noteq> i \<Longrightarrow> load64 m' (p + 8 * j) = load64 m (p + 8 * j)"
    and ag: "agree (others l m p i) m m'"
    and q: "child m' p i = Some q" "load64 m' (p + 8 * i) AND (PTE_R OR PTE_W OR PTE_X) = 0"
      "wf_pt l m' q" "p \<notin> nodes l m' q" "others l m p i \<inter> nodes l m' q = {}"
  shows "nodes (Suc l) m' p = insert p (others l m p i \<union> nodes l m' q)" "wf_pt (Suc l) m' p"
    "PX (Suc l) va \<noteq> i \<Longrightarrow> slot (Suc l) m' p va = slot (Suc l) m p va"
    "PX (Suc l) va \<noteq> i \<Longrightarrow> pte (Suc l) m' p va = pte (Suc l) m p va"
proof -
  have ch: "child m' p j = child m p j" if "j < 512" "j \<noteq> i" for j
    using same [OF that] by (simp add: child_def)
  have kid: "nodes l m' r = nodes l m r" "wf_pt l m' r"
    "\<And>va. slot l m' r va = slot l m r va" "\<And>va. pte l m' r va = pte l m r va"
    if "j < 512" "j \<noteq> i" "child m p j = Some r" for j r
  proof -
    have "agree (nodes l m r) m m'" using ag others_child [OF that] by (rule agree_subset)
    note ta = tree_agree [OF wf_pt_child(1) [OF wf that(1,3)] this]
    show "nodes l m' r = nodes l m r" "wf_pt l m' r" by (rule ta(1), rule ta(2))
    show "slot l m' r va = slot l m r va" "pte l m' r va = pte l m r va" for va
      by (rule ta(3), rule ta(4))
  qed
  have "others l m' p i = others l m p i"
    unfolding others_def by (intro SUP_cong) (auto simp: ch kid(1) split: option.split)
  then show "nodes (Suc l) m' p = insert p (others l m p i \<union> nodes l m' q)"
    using nodes_split [OF i, of l m' p] q(1) by simp
  have kids: "wf_pt l m' r \<and> p \<notin> nodes l m' r \<and> load64 m' (p + 8 * j) AND (PTE_R OR PTE_W OR PTE_X) = 0"
    if "j < 512" "child m' p j = Some r" for j r
    using that q ch [OF that(1)] kid(1,2) [OF that(1)] wf_pt_child [OF wf that(1)] same [OF that(1)]
    by (cases "j = i") auto
  have disj: "nodes l m' r \<inter> nodes l m' t = {}"
    if "j < 512" "k < 512" "j \<noteq> k" "child m' p j = Some r" "child m' p k = Some t" for j k r t
    using that q(1,5) ch [OF that(1)] ch [OF that(2)] kid(1) [OF that(1)] kid(1) [OF that(2)]
      others_child [OF that(1), of i m p r l] others_child [OF that(2), of i m p t l]
      wf_pt_disjoint [OF wf that(1-3)]
    by (cases "j = i"; cases "k = i") auto
  show "wf_pt (Suc l) m' p" using wf_pt_aligned [OF wf] kids disj by (simp add: wf_pt.simps)
  show "slot (Suc l) m' p va = slot (Suc l) m p va" "pte (Suc l) m' p va = pte (Suc l) m p va"
    if "PX (Suc l) va \<noteq> i"
    using ch [OF PX_less that] kid(3,4) [OF PX_less that] by (auto simp: pte_Suc split: option.split)
qed

lemma store_slot:
  assumes "wf_pt l m p" and "slot l m p va = Some a"
  shows "nodes l (store64 m a v) p = nodes l m p \<and> wf_pt l (store64 m a v) p \<and>
    (\<forall>va'. slot l (store64 m a v) p va' = slot l m p va' \<and>
       pte l (store64 m a v) p va' = (if same_path l va' va then v else pte l m p va'))"
  using assms
proof (induction l arbitrary: p)
  case 0
  then have "load64 (store64 m a v) (p + 8 * PX 0 va') =
      (if PX 0 va' = PX 0 va then v else load64 m (p + 8 * PX 0 va'))" for va'
    using load64_store64_aligned [of a "p + 8 * PX 0 va'" m v] slot_eq_iff [of p p "PX 0 va" "PX 0 va'"]
    by auto
  with 0 show ?case by (simp add: pte_def same_path_def)
next
  case (Suc l)
  let ?m = "store64 m a v" and ?i = "PX (Suc l) va"
  note wf = Suc.prems(1) and i = PX_less [of "Suc l" va]
  obtain q where q: "child m p ?i = Some q" "slot l m q va = Some a"
    using Suc.prems(2) by (auto split: option.splits)
  note wfq = wf_pt_child [OF wf i q(1)]
  have IH: "nodes l ?m q = nodes l m q" "wf_pt l ?m q" "\<And>va'. slot l ?m q va' = slot l m q va'"
    "\<And>va'. pte l ?m q va' = (if same_path l va' va then v else pte l m q va')"
    using Suc.IH [OF wfq(1) q(2)] by auto
  obtain t where t: "t \<in> nodes l m q" "pgaligned t" "a = t + 8 * PX 0 va"
    using slot_in_nodes [OF wfq(1) q(2)] by blast
  have frame: "agree (insert p (others l m p ?i)) m ?m"
    unfolding t(3) by (rule agree_store64 [OF t(2) PX_less]) (use t(1) wfq(2) others_disjoint [OF wf i q(1)] in auto)
  have ld: "load64 ?m (p + 8 * j) = load64 m (p + 8 * j)" if "j < 512" for j
    by (rule agree_load64 [OF frame wf_pt_aligned [OF wf] insertI1 that])
  have ch: "child ?m p ?i = Some q" using q(1) ld [OF i] by (simp add: child_def)
  have q2: "load64 ?m (p + 8 * ?i) AND (PTE_R OR PTE_W OR PTE_X) = 0" "p \<notin> nodes l ?m q"
    "others l m p ?i \<inter> nodes l ?m q = {}"
    using ld [OF i] wfq IH(1) others_disjoint [OF wf i q(1)] by simp_all
  note sc = subtree_change [OF wf i ld agree_subset [OF frame subset_insertI] ch q2(1) IH(2) q2(2,3)]
  have "slot (Suc l) ?m p va' = slot (Suc l) m p va' \<and>
      pte (Suc l) ?m p va' = (if same_path (Suc l) va' va then v else pte (Suc l) m p va')" for va'
    using sc(3) [of va'] sc(4) [of va'] IH ch q(1)
    by (cases "PX (Suc l) va' = ?i") (auto simp: pte_Suc same_path_Suc)
  then show ?case using sc(1,2) nodes_split [OF i, of l m p] q(1) IH(1) by simp
qed

end
