(* ===== verification/Vm_Walk.thy ===== *)
theory Vm_Walk
  imports Vm_Tree
begin

text \<open>
  What \<^verbatim>\<open>walk()\<close> does to a page table. Without \<open>alloc\<close> it is a lookup. With
  \<open>alloc\<close> it may take pages from the allocator and hang them into the tree: \<open>grows\<close>
  says that the tree gained exactly those pages, that no translation changed, and
  that no other page of memory changed.
\<close>

section \<open>Walking\<close>

lemma walk_loop_lookup:
  "walk_loop l s p va False = (case slot l (pmem s) p va of None \<Rightarrow> 0 | Some a \<Rightarrow> a, s)"
  by (induction l arbitrary: p) (auto simp: child_def Let_def)

lemma walk_lookup:
  "va < MAXVA \<Longrightarrow>
   walk s p va False = Ok (case slot 2 (pmem s) p va of None \<Rightarrow> 0 | Some a \<Rightarrow> a, s)"
  by (simp add: walk_def walk_loop_lookup not_le [symmetric])

text \<open>A zeroed page is an empty page table at every level.\<close>

definition zero_page :: "mem \<Rightarrow> uint64 \<Rightarrow> bool" where
  "zero_page m p \<longleftrightarrow> (\<forall>a. PGROUNDDOWN a = p \<longrightarrow> m a = 0)"

lemma zero_page_load64: "zero_page m p \<Longrightarrow> pgaligned p \<Longrightarrow> i < 512 \<Longrightarrow> load64 m (p + 8 * i) = 0"
  by (rule load64_zero) (simp add: zero_page_def slot_byte_page)

lemma zero_page_memset: "pgaligned p \<Longrightarrow> zero_page (memset m p 0 4096) p"
  by (simp add: zero_page_def memset_page)

lemma zero_page_tree:
  assumes "zero_page m p" and "pgaligned p"
  shows "nodes l m p = {p}" "wf_pt l m p" "pte l m p va = 0"
proof -
  have ch: "child m p i = None" if "i < 512" for i
    using zero_page_load64 [OF assms that] by (simp add: child_def)
  show "nodes l m p = {p}" using ch by (cases l) (auto simp: nodes.simps)
  show "wf_pt l m p" using ch assms by (cases l) (auto simp: wf_pt.simps)
  show "pte l m p va = 0"
    using ch [OF PX_less] zero_page_load64 [OF assms PX_less] by (cases l) (auto simp: pte_def)
qed

lemma mask_low_10: "bit (PA2PTE p) n \<Longrightarrow> 10 \<le> n"
  by (auto simp: PA2PTE_def bit_simps)

lemma PA2PTE_and_flags: "f < 1024 \<Longrightarrow> g < 1024 \<Longrightarrow> (PA2PTE p OR f) AND g = f AND g"
  using less_exp_bitD [of g 10] mask_low_10 [of p]
  by (intro bit_word_eqI) (auto simp: bit_simps simp flip: not_less)

lemma PA2PTE_low: "(PA2PTE p OR 1) AND 14 = 0" "(PA2PTE p OR 1) AND 1 \<noteq> 0"
  by (simp_all add: PA2PTE_and_flags)

lemma install_node:
  assumes wf: "wf_pt (Suc l) m p" and i: "i < 512" and none: "child m p i = None"
    and f: "f \<notin> nodes (Suc l) m p" "pgaligned f" "f < 2 ^ 56"
    and ag: "agree (nodes (Suc l) m p) m m2" and z: "zero_page m2 f"
    and m': "m' = store64 m2 (p + 8 * i) (PA2PTE f OR PTE_V)"
  shows "child m' p i = Some f" "nodes (Suc l) m' p = insert f (nodes (Suc l) m p)"
    "wf_pt (Suc l) m' p" "pte (Suc l) m' p va = pte (Suc l) m p va"
    "zero_page m' f" "agree (- {p}) m2 m'"
proof -
  have al: "pgaligned p" using wf by (rule wf_pt_aligned)
  have nd: "nodes (Suc l) m p = insert p (others l m p i)" using nodes_split [OF i, of l m p] none by simp
  have fp: "f \<noteq> p" "f \<notin> others l m p i" using f(1) nd by auto
  show frame: "agree (- {p}) m2 m'" unfolding m' by (rule agree_store64 [OF al i]) simp
  show zf: "zero_page m' f" using z frame fp by (auto simp: zero_page_def agree_def)
  note zt = zero_page_tree [OF zf f(2)]
  have ld: "load64 m' (p + 8 * j) = load64 m (p + 8 * j)" if j: "j < 512" "j \<noteq> i" for j
  proof -
    have "p + 8 * i \<noteq> p + 8 * j" using j slot_eq_iff [OF al al i j(1)] by simp
    then have "load64 m' (p + 8 * j) = load64 m2 (p + 8 * j)"
      using load64_store64_aligned [OF aligned8_slot [OF al] aligned8_slot [OF al]] m' by simp
    also have "\<dots> = load64 m (p + 8 * j)" by (rule agree_load64 [OF ag al _ j(1)]) simp
    finally show ?thesis .
  qed
  have v: "load64 m' (p + 8 * i) = PA2PTE f OR PTE_V" by (simp add: m')
  show ch: "child m' p i = Some f"
    using v PTE2PA_PA2PTE [OF f(2,3), of 1] PA2PTE_low(2) [of f] by (simp add: child_def)
  have fr: "agree (others l m p i) m m'"
  proof (rule agree_trans)
    show "agree (others l m p i) m m2" using ag by (rule agree_subset) (use nd in auto)
    show "agree (others l m p i) m2 m'" using frame by (rule agree_subset) (use others_root [OF wf] in auto)
  qed
  have q: "load64 m' (p + 8 * i) AND (PTE_R OR PTE_W OR PTE_X) = 0" "p \<notin> nodes l m' f"
    "others l m p i \<inter> nodes l m' f = {}"
    using v PA2PTE_low(1) [of f] zt(1) [of l] fp by auto
  note sc = subtree_change [OF wf i ld fr ch q(1) zt(2) q(2,3)]
  show "nodes (Suc l) m' p = insert f (nodes (Suc l) m p)" using sc(1) nd zt(1) [of l] by auto
  show "wf_pt (Suc l) m' p" by (rule sc(2))
  show "pte (Suc l) m' p va = pte (Suc l) m p va"
    using sc(4) [of va] ch none zt(3) [of l va] by (cases "PX (Suc l) va = i") (auto simp: pte_Suc)
qed

section \<open>Growing a tree\<close>

definition allocated :: "phys \<Rightarrow> uint64 set \<Rightarrow> bool" where
  "allocated s P \<longleftrightarrow> (\<forall>x\<in>P. ram s x \<and> 0 < rc s x)"

definition grows :: "nat \<Rightarrow> phys \<Rightarrow> uint64 \<Rightarrow> phys \<Rightarrow> uint64 set \<Rightarrow> bool" where
  "grows l s p s' F \<longleftrightarrow> kmem_inv s' \<and> kend s' = kend s \<and> wf_pt l (pmem s') p \<and>
     nodes l (pmem s') p = nodes l (pmem s) p \<union> F \<and>
     (\<forall>x\<in>F. ram s x \<and> rc s x = 0) \<and>
     (\<forall>x. pgaligned x \<longrightarrow> rc s' x = (if x \<in> F then 1 else rc s x)) \<and>
     (\<forall>va. pte l (pmem s') p va = pte l (pmem s) p va) \<and>
     agree (- (nodes l (pmem s) p \<union> F)) (pmem s) (pmem s')"

lemma ram_cong: "kend s' = kend s \<Longrightarrow> ram s' x = ram s x"
  by (simp add: ram_def bad_page_def)

lemma rc_cong: "refcount s' = refcount s \<Longrightarrow> rc s' x = rc s x"
  by (simp add: rc_def)

lemma kmem_inv_agree:
  assumes inv: "kmem_inv s" and ag: "agree {x. ram s x \<and> rc s x = 0} (pmem s) m"
  shows "kmem_inv (s\<lparr>pmem := m\<rparr>)"
proof -
  from inv obtain xs where xs: "flist (pmem s) (freelist s) xs" "distinct xs" "0 < kend s"
    "\<And>p. p \<in> set xs \<longleftrightarrow> ram s p \<and> rc s p = 0" "\<And>p. ram s p \<Longrightarrow> 0 \<le> rc s p"
    by (rule kmem_invE) blast
  have "agree (set xs) (pmem s) m" using ag by (rule agree_subset) (use xs(4) in auto)
  moreover have "\<forall>x\<in>set xs. pgaligned x" using xs(4) ram_pgaligned by auto
  ultimately have "flist m (freelist s) xs" using xs(1) by (auto intro: flist_agree)
  then show ?thesis using xs by (intro kmem_invI [of _ xs]) auto
qed

lemma growsD:
  assumes "grows l s p s' F"
  shows "kmem_inv s'" "kend s' = kend s" "wf_pt l (pmem s') p"
    "nodes l (pmem s') p = nodes l (pmem s) p \<union> F"
    "\<And>x. x \<in> F \<Longrightarrow> ram s x \<and> rc s x = 0"
    "\<And>x. pgaligned x \<Longrightarrow> rc s' x = (if x \<in> F then 1 else rc s x)"
    "\<And>va. pte l (pmem s') p va = pte l (pmem s) p va"
    "agree (- (nodes l (pmem s) p \<union> F)) (pmem s) (pmem s')"
  using assms by (simp_all add: grows_def)

lemma allocatedD: "allocated s P \<Longrightarrow> x \<in> P \<Longrightarrow> ram s x \<and> 0 < rc s x"
  by (simp add: allocated_def)

lemma grows_refl: "kmem_inv s \<Longrightarrow> wf_pt l (pmem s) p \<Longrightarrow> grows l s p s {}"
  by (simp add: grows_def)

lemma grows_trans:
  assumes g1: "grows l s p s1 F" and g2: "grows l s1 p s2 G"
  shows "grows l s p s2 (F \<union> G)"
proof -
  note d1 = g1 [unfolded grows_def] and d2 = g2 [unfolded grows_def]
  have G: "x \<notin> F \<and> ram s x \<and> rc s x = 0" if "x \<in> G" for x
  proof -
    have "ram s1 x" "rc s1 x = 0" using d2 that by auto
    moreover from this have "ram s x" using d1 ram_cong by blast
    ultimately show ?thesis using d1 ram_pgaligned [of s x] by (auto split: if_splits)
  qed
  have "agree (- (nodes l (pmem s) p \<union> (F \<union> G))) (pmem s) (pmem s1)"
    using d1 by (auto intro: agree_subset)
  moreover have "agree (- (nodes l (pmem s) p \<union> (F \<union> G))) (pmem s1) (pmem s2)"
    using d1 d2 by (auto intro: agree_subset)
  ultimately have "agree (- (nodes l (pmem s) p \<union> (F \<union> G))) (pmem s) (pmem s2)"
    by (rule agree_trans)
  then show ?thesis using d1 d2 G unfolding grows_def by auto
qed

lemma grows_child:
  assumes wf: "wf_pt (Suc l) (pmem s) p" and al: "allocated s (nodes (Suc l) (pmem s) p)"
    and i: "i < 512" and q: "child (pmem s) p i = Some q" and g: "grows l s q s' F"
  shows "grows (Suc l) s p s' F \<and> child (pmem s') p i = Some q"
proof -
  let ?m = "pmem s" and ?m' = "pmem s'"
  note d = growsD [OF g] and wfq = wf_pt_child [OF wf i q]
  have nd: "nodes (Suc l) ?m p = insert p (others l ?m p i \<union> nodes l ?m q)"
    using nodes_split [OF i, of l ?m p] q by simp
  have F: "p \<notin> F" "others l ?m p i \<inter> F = {}"
    using allocatedD [OF al] d(5) nd by fastforce+
  have frame: "agree (insert p (others l ?m p i)) ?m ?m'"
    using d(8) by (rule agree_subset) (use F wfq(2) others_disjoint [OF wf i q] in auto)
  have ld: "load64 ?m' (p + 8 * j) = load64 ?m (p + 8 * j)" if "j < 512" for j
    by (rule agree_load64 [OF frame wf_pt_aligned [OF wf] insertI1 that])
  have ch: "child ?m' p i = Some q" using q ld [OF i] by (simp add: child_def)
  have q2: "load64 ?m' (p + 8 * i) AND (PTE_R OR PTE_W OR PTE_X) = 0" "wf_pt l ?m' q"
    "p \<notin> nodes l ?m' q" "others l ?m p i \<inter> nodes l ?m' q = {}"
    using ld [OF i] wfq d(3,4) F others_disjoint [OF wf i q] by auto
  note sc = subtree_change [OF wf i ld agree_subset [OF frame subset_insertI] ch q2]
  have "pte (Suc l) ?m' p va = pte (Suc l) ?m p va" for va
    using sc(4) [of va] d(7) ch q by (cases "PX (Suc l) va = i") (auto simp: pte_Suc)
  moreover have "nodes (Suc l) ?m' p = nodes (Suc l) ?m p \<union> F" using sc(1) nd d(4) by auto
  moreover have "agree (- (nodes (Suc l) ?m p \<union> F)) ?m ?m'"
    using d(8) by (rule agree_subset) (use nd in auto)
  ultimately show ?thesis using sc(2) d(1,2,5,6) ch unfolding grows_def by simp
qed

text \<open>One missing level: \<^verbatim>\<open>kalloc()\<close>, \<^verbatim>\<open>memset()\<close> and the store of the new entry.\<close>

lemma grows_install:
  assumes inv: "kmem_inv s" and wf: "wf_pt (Suc l) (pmem s) p"
    and al: "allocated s (nodes (Suc l) (pmem s) p)"
    and i: "i < 512" and none: "child (pmem s) p i = None"
    and k: "kalloc s = (f, s1)" "f \<noteq> 0"
    and s2: "s2 = s1\<lparr>pmem := store64 (memset (pmem s1) f 0 4096) (p + 8 * i) (PA2PTE f OR PTE_V)\<rparr>"
  shows "grows (Suc l) s p s2 {f} \<and> child (pmem s2) p i = Some f"
proof -
  note ks = kalloc_Some [OF inv k]
  have fa: "pgaligned f" using ks(1) by (rule ram_pgaligned)
  have fn: "f \<notin> nodes (Suc l) (pmem s) p" using al ks(2) by (auto simp: allocated_def)
  have f56: "f < 2 ^ 56" using ram_less [OF ks(1)] by (rule order.strict_trans) simp
  have ag: "agree (- {f}) (pmem s) (memset (pmem s1) f 0 4096)"
    using fa ks(4) by (intro agree_trans [OF _ agree_memset]) (auto intro: agree_memset)
  then have ag': "agree (nodes (Suc l) (pmem s) p) (pmem s) (memset (pmem s1) f 0 4096)"
    by (rule agree_subset) (use fn in auto)
  have m: "pmem s2 = store64 (memset (pmem s1) f 0 4096) (p + 8 * i) (PA2PTE f OR PTE_V)" by (simp add: s2)
  note ins = install_node [OF wf i none fn fa f56 ag' zero_page_memset [OF fa] m]
  have ag2: "agree (- (nodes (Suc l) (pmem s) p \<union> {f})) (pmem s) (pmem s2)"
    by (rule agree_trans [OF agree_subset [OF ag] agree_subset [OF ins(6)]]) auto
  have rc': "rc s2 x = (if x = f then 1 else rc s x)" if "pgaligned x" for x
    using rc_update [OF fa that, of s 1] ks(6) s2 by (simp add: rc_def)
  have "agree {x. ram s1 x \<and> rc s1 x = 0} (pmem s1) (pmem s2)"
  proof -
    have "rc s1 f = 1" "rc s1 p \<noteq> 0"
      using rc' [OF fa] rc' [OF wf_pt_aligned [OF wf]] allocatedD [OF al root_in_nodes] s2
      by (auto split: if_splits)
    then have "{x. ram s1 x \<and> rc s1 x = 0} \<subseteq> - {p, f}" by auto
    moreover have "agree (- {p, f}) (pmem s1) (pmem s2)"
      by (rule agree_trans [OF agree_memset [OF fa] agree_subset [OF ins(6)]]) auto
    ultimately show ?thesis by (rule agree_subset [rotated])
  qed
  then have "kmem_inv s2" using kmem_inv_agree [OF ks(3)] s2 by simp
  then show ?thesis
    using ins(1-4) ks(1,2,5) rc' ag2 s2 unfolding grows_def by auto
qed

lemma allocated_grows:
  assumes al: "allocated s (nodes l (pmem s) p)" and g: "grows l s p s' F"
  shows "allocated s' (nodes l (pmem s') p)"
  unfolding allocated_def
proof
  fix x
  assume "x \<in> nodes l (pmem s') p"
  then have "x \<in> F \<or> x \<notin> F \<and> x \<in> nodes l (pmem s) p" using growsD(4) [OF g] by blast
  then have "ram s x \<and> (x \<in> F \<or> 0 < rc s x)" using growsD(5) [OF g] allocatedD [OF al] by blast
  then show "ram s' x \<and> 0 < rc s' x"
    using growsD(6) [OF g ram_pgaligned, of s x] ram_cong [OF growsD(2) [OF g], of x] by auto
qed

lemma slot_nonzero:
  assumes "ram s p" and "0 < kend s" and "i < 512"
  shows "p + 8 * i \<noteq> 0"
proof
  assume eq: "p + 8 * i = 0"
  have "PGROUNDDOWN 0 = p" using slot_byte_page [OF ram_pgaligned [OF assms(1)] assms(3), of 0] eq by simp
  then show False using ram_nonzero [OF assms(2,1)] by (simp add: PGROUNDDOWN_def)
qed

lemma walk_alloc:
  assumes "kmem_inv s" and "wf_pt l (pmem s) p" and "allocated s (nodes l (pmem s) p)"
    and "walk_loop l s p va True = (a, s')"
  shows "\<exists>F. grows l s p s' F \<and> card F \<le> l \<and>
    (if a = 0 then freelist s' = 0 \<and> card F < l else slot l (pmem s') p va = Some a)"
  using assms
proof (induction l arbitrary: s p)
  case 0
  have "a \<noteq> 0" using 0 slot_nonzero by (auto simp: allocated_def kmem_inv_def)
  then show ?case using 0 grows_refl [OF 0(1,2)] by auto
next
  case (Suc l)
  note inv = Suc.prems(1) and wf = Suc.prems(2) and al = Suc.prems(3) and i = PX_less [of "Suc l" va]
  show ?case
  proof (cases "child (pmem s) p (PX (Suc l) va)")
    case (Some q)
    then have w: "walk_loop l s q va True = (a, s')"
      using Suc.prems(4) by (auto simp: child_def Let_def split: if_splits)
    have "allocated s (nodes l (pmem s) q)" using al nodes_child [OF i Some] by (auto simp: allocated_def)
    from Suc.IH [OF inv wf_pt_child(1) [OF wf i Some] this w]
    obtain F where F: "grows l s q s' F" "card F \<le> l"
      "if a = 0 then freelist s' = 0 \<and> card F < l else slot l (pmem s') q va = Some a" by blast
    with grows_child [OF wf al i Some F(1)] show ?thesis by (auto split: if_splits)
  next
    case None
    obtain f s1 where k: "kalloc s = (f, s1)" by force
    show ?thesis
    proof (cases "f = 0")
      case True
      with Suc.prems(4) None k kalloc_None [of s s1] grows_refl [OF inv wf] show ?thesis
        by (auto simp: child_def Let_def split: if_splits)
    next
      case False
      define s2 where "s2 = s1\<lparr>pmem := store64 (memset (pmem s1) f 0 4096) (p + 8 * PX (Suc l) va) (PA2PTE f OR PTE_V)\<rparr>"
      have w: "walk_loop l s2 f va True = (a, s')"
        using Suc.prems(4) None k False by (auto simp: s2_def child_def Let_def split: if_splits)
      note gi = grows_install [OF inv wf al i None k False s2_def]
      then have d: "kmem_inv s2" "wf_pt (Suc l) (pmem s2) p" and ch: "child (pmem s2) p (PX (Suc l) va) = Some f"
        by (auto simp: grows_def)
      have al2: "allocated s2 (nodes (Suc l) (pmem s2) p)" using allocated_grows [OF al] gi by blast
      then have "allocated s2 (nodes l (pmem s2) f)" using nodes_child [OF i ch] by (auto simp: allocated_def)
      from Suc.IH [OF d(1) wf_pt_child(1) [OF d(2) i ch] this w]
      obtain F where F: "grows l s2 f s' F" "card F \<le> l"
        "if a = 0 then freelist s' = 0 \<and> card F < l else slot l (pmem s') f va = Some a" by blast
      note gc = grows_child [OF d(2) al2 i ch F(1)]
      then have "grows (Suc l) s p s' ({f} \<union> F)" using grows_trans gi by blast
      moreover have "card ({f} \<union> F) \<le> Suc (card F)" using card_Un_le [of "{f}" F] by simp
      ultimately show ?thesis using gc F(2,3) by (auto split: if_splits)
    qed
  qed
qed

end
