(* ===== verification/Vm_Inv.thy ===== *)
theory Vm_Inv
  imports Vm_Walk
begin

text \<open>
  The invariant of the user address spaces and the allocator together. \<open>R\<close> is the set
  of root pages of the page tables and \<open>X\<close> counts, per page of RAM, the references
  that are in no page table (the pages the kernel itself holds). A page's reference
  count is the sum of its page-table role, its user mappings and \<open>X\<close>; a writable
  mapping is the only reference to its page. Each elementary step of the code moves
  references between the three: an allocating walk, a page from or to the allocator,
  a store into a level-0 entry, an extra reference.
\<close>

section \<open>Definitions\<close>

definition user_va :: "uint64 \<Rightarrow> bool" where
  "user_va va \<longleftrightarrow> pgaligned va \<and> va < TRAPFRAME"

definition umap :: "mem \<Rightarrow> uint64 \<Rightarrow> uint64 \<Rightarrow> uint64 option" where
  "umap m r va =
     (if user_va va \<and> pte 2 m r va AND PTE_V \<noteq> 0 then Some (pte 2 m r va) else None)"

definition tables :: "mem \<Rightarrow> uint64 set \<Rightarrow> uint64 set" where
  "tables m R = (\<Union>r\<in>R. nodes 2 m r)"

definition mappings :: "mem \<Rightarrow> uint64 set \<Rightarrow> uint64 \<Rightarrow> (uint64 \<times> uint64) set" where
  "mappings m R p = {(r, va). r \<in> R \<and> (\<exists>e. umap m r va = Some e \<and> PTE2PA e = p)}"

text \<open>
  Mappings at and above the trapframe are not for the user, and the half of the tree
  that \<^verbatim>\<open>MAXVA\<close> leaves out is empty.
\<close>

definition sealed :: "mem \<Rightarrow> uint64 \<Rightarrow> bool" where
  "sealed m r \<longleftrightarrow> (\<forall>va. pgaligned va \<longrightarrow> va < MAXVA \<longrightarrow> \<not> user_va va \<longrightarrow>
     pte 2 m r va AND PTE_V \<noteq> 0 \<longrightarrow> pte 2 m r va AND PTE_U = 0) \<and>
     (\<forall>va. bit va 38 \<longrightarrow> pte 2 m r va AND PTE_V = 0)"

definition forest :: "mem \<Rightarrow> uint64 set \<Rightarrow> bool" where
  "forest m R \<longleftrightarrow> (\<forall>r\<in>R. wf_pt 2 m r \<and> sealed m r) \<and>
     (\<forall>r\<in>R. \<forall>r'\<in>R. r \<noteq> r' \<longrightarrow> nodes 2 m r \<inter> nodes 2 m r' = {})"

definition mapped_ok :: "phys \<Rightarrow> uint64 set \<Rightarrow> uint64 \<Rightarrow> bool" where
  "mapped_ok s R e \<longleftrightarrow> ram s (PTE2PA e) \<and> 0 < rc s (PTE2PA e) \<and> PTE2PA e \<notin> tables (pmem s) R \<and>
     (e AND PTE_W \<noteq> 0 \<longrightarrow> rc s (PTE2PA e) = 1)"

definition vm_inv :: "phys \<Rightarrow> uint64 set \<Rightarrow> (uint64 \<Rightarrow> int) \<Rightarrow> bool" where
  "vm_inv s R X \<longleftrightarrow> kmem_inv s \<and> forest (pmem s) R \<and>
     (\<forall>x\<in>tables (pmem s) R. ram s x \<and> rc s x = 1) \<and>
     (\<forall>r\<in>R. \<forall>va e. umap (pmem s) r va = Some e \<longrightarrow> mapped_ok s R e) \<and>
     (\<forall>x. ram s x \<longrightarrow>
        rc s x = of_bool (x \<in> tables (pmem s) R) + int (card (mappings (pmem s) R x)) + X x)"

text \<open>
  \<open>keeps s P s'\<close>: the pages in use before, other than those of \<open>P\<close>, are still in use
  and hold the same bytes.
\<close>

definition keeps :: "phys \<Rightarrow> uint64 set \<Rightarrow> phys \<Rightarrow> bool" where
  "keeps s P s' \<longleftrightarrow> kend s' = kend s \<and> (\<forall>x. ram s x \<longrightarrow> 0 < rc s x \<longrightarrow> x \<notin> P \<longrightarrow> 0 < rc s' x) \<and>
     agree {x. ram s x \<and> 0 < rc s x \<and> x \<notin> P} (pmem s) (pmem s')"

lemma keeps_refl [simp]: "keeps s P s"
  by (simp add: keeps_def)

lemma keeps_trans:
  assumes k1: "keeps s P s1" and k2: "keeps s1 Q s2"
    and sub: "\<And>x. ram s x \<Longrightarrow> 0 < rc s x \<Longrightarrow> x \<notin> P \<Longrightarrow> x \<notin> Q"
  shows "keeps s P s2"
proof -
  have ke: "kend s1 = kend s" using k1 by (simp add: keeps_def)
  have "agree {x. ram s x \<and> 0 < rc s x \<and> x \<notin> P} (pmem s1) (pmem s2)"
    by (rule agree_subset [of "{x. ram s1 x \<and> 0 < rc s1 x \<and> x \<notin> Q}"])
      (use k1 k2 sub ram_cong [OF ke] in \<open>auto simp: keeps_def\<close>)
  then show ?thesis using k1 k2 sub ram_cong [OF ke] unfolding keeps_def
    by (auto intro: agree_trans)
qed

lemma keeps_weaken: "keeps s P s' \<Longrightarrow> P \<subseteq> Q \<Longrightarrow> keeps s Q s'"
  unfolding keeps_def by (auto elim: agree_subset)

lemma vm_invD:
  assumes "vm_inv s R X"
  shows "kmem_inv s" "forest (pmem s) R" "\<And>x. x \<in> tables (pmem s) R \<Longrightarrow> ram s x \<and> rc s x = 1"
    "\<And>r va e. r \<in> R \<Longrightarrow> umap (pmem s) r va = Some e \<Longrightarrow> mapped_ok s R e"
    "\<And>x. ram s x \<Longrightarrow>
       rc s x = of_bool (x \<in> tables (pmem s) R) + int (card (mappings (pmem s) R x)) + X x"
    "\<And>r. r \<in> R \<Longrightarrow> wf_pt 2 (pmem s) r" "\<And>r. r \<in> R \<Longrightarrow> allocated s (nodes 2 (pmem s) r)"
    "\<And>r. r \<in> R \<Longrightarrow> nodes 2 (pmem s) r \<subseteq> tables (pmem s) R"
  using assms unfolding vm_inv_def allocated_def tables_def
  by (blast, blast, blast, blast, blast, auto simp: forest_def)

lemma vm_invI:
  assumes "kmem_inv s" "forest (pmem s) R" "\<And>x. x \<in> tables (pmem s) R \<Longrightarrow> ram s x \<and> rc s x = 1"
    "\<And>r va e. r \<in> R \<Longrightarrow> umap (pmem s) r va = Some e \<Longrightarrow> mapped_ok s R e"
    "\<And>x. ram s x \<Longrightarrow>
       rc s x = of_bool (x \<in> tables (pmem s) R) + int (card (mappings (pmem s) R x)) + X x"
  shows "vm_inv s R X"
  using assms by (auto simp: vm_inv_def)

section \<open>Steps that leave the page tables alone\<close>

lemma forest_agree:
  assumes f: "forest m R" and ag: "agree (tables m R) m m'"
  shows "tables m' R = tables m R" "forest m' R" "r \<in> R \<Longrightarrow> umap m' r = umap m r"
    "mappings m' R = mappings m R" "r \<in> R \<Longrightarrow> slot 2 m' r va = slot 2 m r va"
    "r \<in> R \<Longrightarrow> pte 2 m' r va = pte 2 m r va"
proof -
  have t: "nodes 2 m' r = nodes 2 m r" "wf_pt 2 m' r" "\<And>va. slot 2 m' r va = slot 2 m r va"
    "\<And>va. pte 2 m' r va = pte 2 m r va" if "r \<in> R" for r
  proof -
    have wf: "wf_pt 2 m r" using f that by (simp add: forest_def)
    have "agree (nodes 2 m r) m m'" using ag by (rule agree_subset) (use that in \<open>auto simp: tables_def\<close>)
    note ta = tree_agree [OF wf this]
    show "nodes 2 m' r = nodes 2 m r" "wf_pt 2 m' r" by (rule ta(1), rule ta(2))
    show "slot 2 m' r va = slot 2 m r va" "pte 2 m' r va = pte 2 m r va" for va
      by (rule ta(3), rule ta(4))
  qed
  show "tables m' R = tables m R" by (simp add: tables_def t(1))
  show "forest m' R" using f t(1,2,4) by (simp add: forest_def sealed_def)
  show um: "umap m' r = umap m r" if "r \<in> R" for r
    using t(4) [OF that] by (simp add: umap_def fun_eq_iff)
  then show "mappings m' R = mappings m R" by (auto simp: mappings_def fun_eq_iff)
  show "slot 2 m' r va = slot 2 m r va" "pte 2 m' r va = pte 2 m r va" if "r \<in> R"
    by (rule t(3) [OF that], rule t(4) [OF that])
qed

definition user_mapped :: "mem \<Rightarrow> uint64 set \<Rightarrow> uint64 \<Rightarrow> bool" where
  "user_mapped m R x \<longleftrightarrow> mappings m R x \<noteq> {}"

definition writable :: "mem \<Rightarrow> uint64 set \<Rightarrow> uint64 \<Rightarrow> bool" where
  "writable m R x \<longleftrightarrow> (\<exists>r\<in>R. \<exists>va e. umap m r va = Some e \<and> PTE2PA e = x \<and> e AND PTE_W \<noteq> 0)"

lemma user_mappedI: "r \<in> R \<Longrightarrow> umap m r va = Some e \<Longrightarrow> user_mapped m R (PTE2PA e)"
  by (auto simp: user_mapped_def mappings_def)

lemma user_mappedD:
  "vm_inv s R X \<Longrightarrow> user_mapped (pmem s) R x \<Longrightarrow>
   ram s x \<and> 0 < rc s x \<and> x \<notin> tables (pmem s) R \<and> 0 < card (mappings (pmem s) R x)"
  using vm_invD(4) [of s R X] by (force simp: user_mapped_def mappings_def mapped_ok_def card_gt_0_iff)

lemma writableD:
  "vm_inv s R X \<Longrightarrow> writable (pmem s) R x \<Longrightarrow> user_mapped (pmem s) R x \<and> rc s x = 1"
  using vm_invD(4) [of s R X] user_mappedI by (fastforce simp: writable_def mapped_ok_def)

lemma vm_inv_frame:
  assumes inv: "vm_inv s R X" and k: "kmem_inv s'" "kend s' = kend s"
    and ag: "agree (tables (pmem s) R) (pmem s) (pmem s')"
    and rc': "\<And>x. ram s x \<Longrightarrow> rc s' x = rc s x + D x"
    and D: "\<And>x. x \<in> tables (pmem s) R \<Longrightarrow> D x = 0"
      "\<And>x. user_mapped (pmem s) R x \<Longrightarrow> 0 < rc s x + D x"
      "\<And>x. writable (pmem s) R x \<Longrightarrow> D x = 0"
  shows "vm_inv s' R (\<lambda>x. X x + D x)"
proof -
  note i = vm_invD [OF inv] and f = forest_agree [OF vm_invD(2) [OF inv] ag]
  have rm: "ram s' x = ram s x" for x by (rule ram_cong [OF k(2)])
  have "mapped_ok s' R e" if "r \<in> R" "umap (pmem s) r va = Some e" for r va e
    using i(4) [OF that] rc' [of "PTE2PA e"] D(2) [OF user_mappedI [OF that]] D(3) [of "PTE2PA e"] that f(1) rm
    by (auto simp: mapped_ok_def writable_def)
  moreover have "ram s' x \<and> rc s' x = 1" if "x \<in> tables (pmem s) R" for x
    using i(3) [OF that] rc' [of x] D(1) [OF that] rm by simp
  moreover have "rc s' x = of_bool (x \<in> tables (pmem s) R) + int (card (mappings (pmem s) R x)) + (X x + D x)"
    if "ram s x" for x
    using rc' [OF that] i(5) [OF that] by simp
  ultimately show ?thesis unfolding vm_inv_def using f k(1) rm by simp
qed

lemma kalloc_vm:
  assumes inv: "vm_inv s R X" and k: "kalloc s = (p, s')" and p: "p \<noteq> 0"
  shows "vm_inv s' R (X(p := 1))" "keeps s {} s'" "ram s p" "rc s p = 0" "X p = 0"
    "rc s' p = 1" "p \<notin> tables (pmem s) R" "\<not> user_mapped (pmem s) R p"
    "agree (- {p}) (pmem s) (pmem s')" "kend s' = kend s"
proof -
  note ks = kalloc_Some [OF vm_invD(1) [OF inv] k p]
  have al: "pgaligned p" using ks(1) by (rule ram_pgaligned)
  show "ram s p" "rc s p = 0" "kend s' = kend s" by (rule ks)+
  show nt: "p \<notin> tables (pmem s) R" and nm: "\<not> user_mapped (pmem s) R p"
    using vm_invD(3) [OF inv, of p] user_mappedD [OF inv, of p] ks(2) by auto
  show X0: "X p = 0" using vm_invD(5) [OF inv ks(1)] ks(2) nt nm by (simp add: user_mapped_def)
  have rc': "rc s' x = rc s x + (if x = p then 1 else 0)" if "ram s x" for x
    using rc_update [OF al ram_pgaligned [OF that], of s 1] ks(2,6) by (simp add: rc_def)
  then show "rc s' p = 1" using ks(1,2) by simp
  show ag: "agree (- {p}) (pmem s) (pmem s')" unfolding ks(4) by (rule agree_memset [OF al]) simp
  have "vm_inv s' R (\<lambda>x. X x + (if x = p then 1 else 0))"
  proof (rule vm_inv_frame [OF inv ks(3,5) agree_subset [OF ag] rc'])
    show "writable (pmem s) R x \<Longrightarrow> (if x = p then 1 else 0 :: int) = 0" for x
      using writableD [OF inv] nm by auto
  qed (use nt nm user_mappedD [OF inv] in auto)
  moreover have "(\<lambda>x. X x + (if x = p then 1 else 0)) = X(p := 1)" using X0 by auto
  ultimately show "vm_inv s' R (X(p := 1))" by simp
  show "keeps s {} s'" unfolding keeps_def using ks(2,5) rc' by (auto intro: agree_subset [OF ag])
qed

lemma kfree_pmem:
  assumes "kfree s p = Ok s'"
  shows "agree (- {p}) (pmem s) (pmem s')" "1 < rc s p \<Longrightarrow> pmem s' = pmem s" "kend s' = kend s"
    "ram s x \<Longrightarrow> rc s' x = rc s x + (if x = p then - 1 else 0)"
proof -
  note p = kfree_Ok [OF assms, THEN conjunct1] kfree_Ok [OF assms, THEN conjunct2]
  note al = ram_pgaligned [OF p(1)]
  note eq = assms [unfolded kfree_cases [OF p]]
  have "agree (- {p}) (pmem s) (store64 (memset (pmem s) p 1 4096) (p + 8 * 0) (freelist s))"
    by (rule agree_trans [OF agree_memset [OF al] agree_store64 [OF al]]) auto
  then show "agree (- {p}) (pmem s) (pmem s')" using eq by (auto split: if_splits)
  show "1 < rc s p \<Longrightarrow> pmem s' = pmem s" "kend s' = kend s" using eq by (auto split: if_splits)
  show "rc s' x = rc s x + (if x = p then - 1 else 0)" if "ram s x"
    using eq rc_update [OF al ram_pgaligned [OF that], of s] by (auto simp: rc_def split: if_splits)
qed

lemma kfree_vm:
  assumes inv: "vm_inv s R X" and p: "ram s p" "1 \<le> X p"
  obtains s' where "kfree s p = Ok s'" "vm_inv s' R (X(p := X p - 1))" "keeps s {p} s'"
    "1 < rc s p \<Longrightarrow> keeps s {} s'" "agree (- {p}) (pmem s) (pmem s')" "rc s' p = rc s p - 1"
    "agree (tables (pmem s) R) (pmem s) (pmem s')"
proof -
  note cnt = vm_invD(5) [OF inv p(1)]
  have rp: "0 < rc s p" using cnt p(2) by simp
  have nt: "p \<notin> tables (pmem s) R" using vm_invD(3) [OF inv, of p] cnt p(2) by auto
  obtain s' where k: "kfree s p = Ok s'" using kfree_cases [OF p(1) rp] by (auto split: if_splits)
  note kp = kfree_pmem [OF k]
  have um: "1 < rc s p" if "user_mapped (pmem s) R p"
    using user_mappedD [OF inv that] cnt p(2) by simp
  have nw: "\<not> writable (pmem s) R p" using um writableD [OF inv, of p] by auto
  have ag: "agree (tables (pmem s) R) (pmem s) (pmem s')"
    using kp(1) by (rule agree_subset) (use nt in auto)
  have "vm_inv s' R (\<lambda>x. X x + (if x = p then - 1 else 0))"
  proof (rule vm_inv_frame [OF inv kfree_inv [OF vm_invD(1) [OF inv] k] kp(3) ag kp(4)])
    show "0 < rc s x + (if x = p then - 1 else 0)" if "user_mapped (pmem s) R x" for x
      using user_mappedD [OF inv that] um that by auto
  qed (use nt nw in auto)
  moreover have "(\<lambda>x. X x + (if x = p then - 1 else 0)) = X(p := X p - 1)" by auto
  ultimately have "vm_inv s' R (X(p := X p - 1))" by simp
  moreover have "keeps s {p} s'"
    unfolding keeps_def using kp(3,4) by (auto intro: agree_subset [OF kp(1)])
  moreover have "keeps s {} s'" if "1 < rc s p"
    unfolding keeps_def using kp(2) [OF that] kp(3,4) that by auto
  ultimately show thesis using that [OF k] kp(1) kp(4) [OF p(1)] ag by simp
qed

lemma kaddref_vm:
  assumes inv: "vm_inv s R X" and p: "ram s p" "0 < rc s p" "p \<notin> tables (pmem s) R"
    "\<not> writable (pmem s) R p"
  obtains s' where "kaddref s p = Ok s'" "vm_inv s' R (X(p := X p + 1))" "keeps s {} s'"
    "pmem s' = pmem s" "rc s' p = rc s p + 1" "kend s' = kend s" "nfree s' = nfree s"
proof -
  note al = ram_pgaligned [OF p(1)]
  define s' where "s' = s\<lparr>refcount := (refcount s)(p div PGSIZE := rc s p + 1)\<rparr>"
  have k: "kaddref s p = Ok s'" using kaddref_cases [OF p(1,2)] by (simp add: s'_def)
  have rc': "rc s' x = rc s x + (if x = p then 1 else 0)" if "ram s x" for x
    using rc_update [OF al ram_pgaligned [OF that], of s] by (simp add: s'_def)
  have "vm_inv s' R (\<lambda>x. X x + (if x = p then 1 else 0))"
  proof (rule vm_inv_frame [OF inv kaddref_inv [OF vm_invD(1) [OF inv] k] _ _ rc'])
    show "0 < rc s x + (if x = p then 1 else 0)" if "user_mapped (pmem s) R x" for x
      using user_mappedD [OF inv that] by auto
  qed (use p in \<open>auto simp: s'_def\<close>)
  moreover have "(\<lambda>x. X x + (if x = p then 1 else 0)) = X(p := X p + 1)" by auto
  ultimately have "vm_inv s' R (X(p := X p + 1))" by simp
  moreover have "keeps s {} s'" unfolding keeps_def using rc' by (auto simp: s'_def)
  moreover have "{x. ram s' x \<and> rc s' x = 0} = {x. ram s x \<and> rc s x = 0}"
    using rc' p(1,2) ram_cong [of s' s] by (auto simp: s'_def split: if_splits)
  then have "nfree s' = nfree s" by (simp add: nfree_def)
  ultimately show thesis using that [OF k] rc' [OF p(1)] by (simp add: s'_def)
qed

text \<open>Writing to a page in use that is not a page-table page.\<close>

lemma write_vm:
  assumes inv: "vm_inv s R X" and p: "0 < rc s p" "p \<notin> tables (pmem s) R"
    and ag: "agree (- {p}) (pmem s) m"
  shows "vm_inv (s\<lparr>pmem := m\<rparr>) R X" "keeps s {p} (s\<lparr>pmem := m\<rparr>)"
    "agree (tables (pmem s) R) (pmem s) m"
proof -
  show t: "agree (tables (pmem s) R) (pmem s) m" using ag by (rule agree_subset) (use p in auto)
  have "kmem_inv (s\<lparr>pmem := m\<rparr>)"
    using vm_invD(1) [OF inv] by (rule kmem_inv_agree) (use p in \<open>auto intro: agree_subset [OF ag]\<close>)
  then have "vm_inv (s\<lparr>pmem := m\<rparr>) R (\<lambda>x. X x + 0)"
    by (rule vm_inv_frame [OF inv]) (use t user_mappedD [OF inv] in auto)
  then show "vm_inv (s\<lparr>pmem := m\<rparr>) R X" by simp
  show "keeps s {p} (s\<lparr>pmem := m\<rparr>)" unfolding keeps_def by (auto intro: agree_subset [OF ag])
qed

section \<open>Steps that change a page table\<close>

text \<open>The changed table's pages are \<open>nodes 2 m r\<close> and \<open>F\<close>; the others are untouched.\<close>

lemma forest_change:
  assumes f: "forest m R" and r: "r \<in> R" and wf: "wf_pt 2 m' r" and se: "sealed m' r"
    and nd: "nodes 2 m' r = nodes 2 m r \<union> F" and F: "F \<inter> tables m R = {}"
    and ag: "agree (tables m R - nodes 2 m r) m m'"
  shows "tables m' R = tables m R \<union> F" "forest m' R"
    "r' \<in> R \<Longrightarrow> r' \<noteq> r \<Longrightarrow> umap m' r' = umap m r'"
    "r' \<in> R \<Longrightarrow> r' \<noteq> r \<Longrightarrow> pte 2 m' r' va = pte 2 m r' va"
proof -
  have t: "nodes 2 m' r' = nodes 2 m r'" "wf_pt 2 m' r'" "\<And>va. pte 2 m' r' va = pte 2 m r' va"
    if "r' \<in> R" "r' \<noteq> r" for r'
  proof -
    have wf': "wf_pt 2 m r'" and d: "nodes 2 m r' \<inter> nodes 2 m r = {}" using f that r by (auto simp: forest_def)
    have "agree (nodes 2 m r') m m'" using ag by (rule agree_subset) (use that d in \<open>auto simp: tables_def\<close>)
    note ta = tree_agree [OF wf' this]
    show "nodes 2 m' r' = nodes 2 m r'" "wf_pt 2 m' r'" by (rule ta(1), rule ta(2))
    show "pte 2 m' r' va = pte 2 m r' va" for va by (rule ta(4))
  qed
  have nd': "nodes 2 m' r' = (if r' = r then nodes 2 m r \<union> F else nodes 2 m r')" if "r' \<in> R" for r'
    using nd t(1) [OF that] by simp
  show "tables m' R = tables m R \<union> F" using r by (force simp: tables_def nd')
  have "nodes 2 m r' \<inter> F = {}" if "r' \<in> R" for r' using F that by (auto simp: tables_def)
  moreover have "nodes 2 m r1 \<inter> nodes 2 m r2 = {}" if "r1 \<in> R" "r2 \<in> R" "r1 \<noteq> r2" for r1 r2
    using f that by (simp add: forest_def)
  ultimately have "nodes 2 m' r1 \<inter> nodes 2 m' r2 = {}" if "r1 \<in> R" "r2 \<in> R" "r1 \<noteq> r2" for r1 r2
    using that r nd' [OF that(1)] nd' [OF that(2)] 
    by (cases "r1 = r"; cases "r2 = r") (simp_all add: Int_Un_distrib Int_Un_distrib2 Int_commute)
  moreover have "wf_pt 2 m' r' \<and> sealed m' r'" if "r' \<in> R" for r'
    using wf se t(2,3) [OF that] f that by (cases "r' = r") (auto simp: forest_def sealed_def)
  ultimately show "forest m' R" by (simp add: forest_def)
  show "r' \<in> R \<Longrightarrow> r' \<noteq> r \<Longrightarrow> umap m' r' = umap m r'" using t(3) by (simp add: umap_def fun_eq_iff)
  show "r' \<in> R \<Longrightarrow> r' \<noteq> r \<Longrightarrow> pte 2 m' r' va = pte 2 m r' va" by (rule t(3))
qed

lemma grow_vm:
  assumes inv: "vm_inv s R X" and r: "r \<in> R" and g: "grows 2 s r s' F"
  shows "vm_inv s' R X" "\<And>r'. r' \<in> R \<Longrightarrow> umap (pmem s') r' = umap (pmem s) r'"
    "keeps s (tables (pmem s) R) s'" "tables (pmem s') R = tables (pmem s) R \<union> F"
    "\<And>x. ram s x \<Longrightarrow> 0 < rc s x \<Longrightarrow> rc s' x = rc s x \<and> x \<notin> F"
    "\<And>r' va. r' \<in> R \<Longrightarrow> pte 2 (pmem s') r' va = pte 2 (pmem s) r' va"
proof -
  note i = vm_invD [OF inv] and d = growsD [OF g]
  have FT: "F \<inter> tables (pmem s) R = {}" using d(5) i(3) by fastforce
  have ag: "agree (tables (pmem s) R - nodes 2 (pmem s) r) (pmem s) (pmem s')"
    using d(8) by (rule agree_subset) (use FT in auto)
  have "sealed (pmem s') r" using i(2) r d(7) by (simp add: forest_def sealed_def)
  note fc = forest_change [OF i(2) r d(3) this d(4) FT ag]
  show tb: "tables (pmem s') R = tables (pmem s) R \<union> F" by (rule fc(1))
  show "pte 2 (pmem s') r' va = pte 2 (pmem s) r' va" if "r' \<in> R" for r' va
    using fc(4) [OF that] d(7) by (cases "r' = r") simp_all
  show um: "umap (pmem s') r' = umap (pmem s) r'" if "r' \<in> R" for r'
    using fc(3) [OF that] d(7) by (cases "r' = r") (auto simp: umap_def fun_eq_iff)
  have mp: "mappings (pmem s') R = mappings (pmem s) R" using um by (auto simp: mappings_def fun_eq_iff)
  have rm: "ram s' x = ram s x" for x by (rule ram_cong [OF d(2)])
  show old: "rc s' x = rc s x \<and> x \<notin> F" if "ram s x" "0 < rc s x" for x
    using d(6) [OF ram_pgaligned [OF that(1)]] d(5) [of x] that by auto
  have "mapped_ok s' R e" if "r' \<in> R" "umap (pmem s) r' va = Some e" for r' va e
    using i(4) [OF that] old [of "PTE2PA e"] tb rm by (auto simp: mapped_ok_def)
  moreover have "ram s' x \<and> rc s' x = 1" if "x \<in> tables (pmem s) R \<union> F" for x
    using that i(3) [of x] old [of x] d(5) [of x] d(6) [OF ram_pgaligned, of s x] rm by auto
  moreover have "rc s' x = of_bool (x \<in> tables (pmem s) R \<union> F) + int (card (mappings (pmem s) R x)) + X x"
    if "ram s x" for x
    using i(5) [OF that] d(5) [of x] d(6) [OF ram_pgaligned [OF that]] FT
    by (cases "x \<in> F"; cases "x \<in> tables (pmem s) R") auto
  ultimately show "vm_inv s' R X" unfolding vm_inv_def using d(1) fc(1,2) um mp rm by simp
  show "keeps s (tables (pmem s) R) s'" unfolding keeps_def using d(2) old i(8) [OF r]
    by (auto intro!: agree_subset [OF d(8)])
qed

definition refs :: "uint64 option \<Rightarrow> uint64 \<Rightarrow> int" where
  "refs e x = (case e of None \<Rightarrow> 0 | Some e \<Rightarrow> of_bool (PTE2PA e = x))"

lemma mappings_change:
  assumes r: "r \<in> R" and um: "\<And>r' va'. r' \<in> R \<Longrightarrow> umap m' r' va' = (if r' = r \<and> va' = va then e else umap m r' va')"
  shows "int (card (mappings m' R x)) = int (card (mappings m R x)) - refs (umap m r va) x + refs e x"
proof -
  have old: "(r, va) \<in> mappings m R x \<longleftrightarrow> refs (umap m r va) x = 1" using r
    by (auto simp: mappings_def refs_def split: option.splits)
  have "mappings m' R x = (mappings m R x - {(r, va)}) \<union> (if refs e x = 1 then {(r, va)} else {})"
    using r um by (auto simp: mappings_def refs_def split: option.splits if_splits)
  then have "card (mappings m' R x) = card (mappings m R x - {(r, va)}) + (if refs e x = 1 then 1 else 0)"
    by (simp add: card.insert_remove)
  moreover have "card (mappings m R x - {(r, va)}) = card (mappings m R x) - (if refs (umap m r va) x = 1 then 1 else 0)"
    using old by simp
  moreover have "refs (umap m r va) x = 1 \<Longrightarrow> 0 < card (mappings m R x)"
    using old by (auto simp: card_gt_0_iff)
  moreover have "refs e x \<in> {0, 1}" "refs (umap m r va) x \<in> {0, 1}" by (auto simp: refs_def split: option.splits)
  ultimately show ?thesis by (auto simp: of_nat_diff Suc_le_eq)
qed

lemma user_va_less: "user_va va \<Longrightarrow> va < MAXVA"
  by (auto simp: user_va_def elim: order.strict_trans)

lemma same_path_page:
  assumes "pgaligned va'" and "va' < MAXVA" and "pgaligned va" and "va < MAXVA"
  shows "same_path 2 va' va \<longleftrightarrow> va' = va"
proof -
  from PX_eq_iff [OF assms(2,4)] show ?thesis using assms by (simp add: same_path_def)
qed

lemma same_path_top: "va < MAXVA \<Longrightarrow> same_path 2 va' va \<Longrightarrow> \<not> bit va' 38"
proof
  assume va: "va < MAXVA" and path: "same_path 2 va' va" and "bit va' 38"
  then have "bit (PX 2 va') 8" by (simp add: PX_bit)
  then have "bit (PX 2 va) 8" using path by (simp add: same_path_def)
  then have "bit va 38" by (simp add: PX_bit)
  then show False using less_exp_bitD [of va 38 38] va by simp
qed

lemma store_pte_vm:
  assumes inv: "vm_inv s R X" and r: "r \<in> R" and sl: "slot 2 (pmem s) r va = Some a"
    and va: "pgaligned va" "va < MAXVA"
    and ok: "user_va va \<Longrightarrow> v AND PTE_V \<noteq> 0 \<Longrightarrow> mapped_ok s R v"
    and kern: "\<not> user_va va \<Longrightarrow> v AND PTE_V \<noteq> 0 \<Longrightarrow> v AND PTE_U = 0"
    and s': "s' = s\<lparr>pmem := store64 (pmem s) a v\<rparr>"
    and e: "e = (if user_va va \<and> v AND PTE_V \<noteq> 0 then Some v else None)"
  shows "vm_inv s' R (\<lambda>x. X x + refs (umap (pmem s) r va) x - refs e x)"
    "\<And>r' va'. r' \<in> R \<Longrightarrow> umap (pmem s') r' va' = (if r' = r \<and> va' = va then e else umap (pmem s) r' va')"
    "keeps s (tables (pmem s) R) s'" "tables (pmem s') R = tables (pmem s) R"
    "\<And>va'. slot 2 (pmem s') r va' = slot 2 (pmem s) r va'" "pte 2 (pmem s') r va = v"
    "\<And>r' va'. r' \<in> R \<Longrightarrow> pgaligned va' \<Longrightarrow> va' < MAXVA \<Longrightarrow>
       pte 2 (pmem s') r' va' = (if r' = r \<and> va' = va then v else pte 2 (pmem s) r' va')"
proof -
  let ?m = "pmem s" and ?m' = "pmem s'"
  note i = vm_invD [OF inv]
  obtain t where t: "t \<in> nodes 2 ?m r" "pgaligned t" "a = t + 8 * PX 0 va"
    using slot_in_nodes [OF i(6) [OF r] sl] by blast
  have ss: "nodes 2 ?m' r = nodes 2 ?m r" "wf_pt 2 ?m' r"
    "\<And>va'. slot 2 ?m' r va' = slot 2 ?m r va'"
    "\<And>va'. pte 2 ?m' r va' = (if same_path 2 va' va then v else pte 2 ?m r va')"
    using store_slot [OF i(6) [OF r] sl, of v] s' by simp_all
  show "slot 2 ?m' r va' = slot 2 ?m r va'" for va' by (rule ss(3))
  show "pte 2 ?m' r va = v" using ss(4) by (simp add: same_path_def)
  have ag: "agree (- nodes 2 ?m r) ?m ?m'"
    using agree_store64 [OF t(2) PX_less, of "- nodes 2 ?m r" ?m 0 va v] t(1,3) s' by simp
  have nd: "nodes 2 ?m' r = nodes 2 ?m r \<union> {}" using ss(1) by simp
  have ag': "agree (tables ?m R - nodes 2 ?m r) ?m ?m'" using ag by (rule agree_subset) auto
  have "sealed ?m' r"
    using i(2) r kern ss(4) same_path_page [OF _ _ va] same_path_top [OF va(2)] by (auto simp: forest_def sealed_def)
  note fc = forest_change [OF i(2) r ss(2) this nd _ ag']
  show tb: "tables ?m' R = tables ?m R" using fc(1) by simp
  show "pte 2 ?m' r' va' = (if r' = r \<and> va' = va then v else pte 2 ?m r' va')"
    if "r' \<in> R" "pgaligned va'" "va' < MAXVA" for r' va'
    using fc(4) [OF _ that(1)] ss(4) [of va'] same_path_page [OF that(2,3) va] by (cases "r' = r") simp_all
  show um: "umap ?m' r' va' = (if r' = r \<and> va' = va then e else umap ?m r' va')" if "r' \<in> R" for r' va'
    using fc(3) [OF _ that] ss(4) [of va'] same_path_page [OF _ user_va_less va, of va'] e
    by (cases "r' = r") (auto simp: umap_def user_va_def)
  have "agree {x. ram s x \<and> rc s x = 0} ?m ?m'" using ag by (rule agree_subset) (use i(3) i(8) [OF r] in fastforce)
  then have "kmem_inv s'" using kmem_inv_agree [OF i(1)] s' by simp
  moreover have "mapped_ok s' R e'" if "r' \<in> R" "umap ?m' r' va' = Some e'" for r' va' e'
  proof -
    have "mapped_ok s R e'" using um [OF that(1)] that i(4) [OF that(1)] ok e by (auto split: if_splits)
    then show ?thesis using tb s' by (simp add: mapped_ok_def)
  qed
  moreover have "rc s' x = of_bool (x \<in> tables ?m' R) + int (card (mappings ?m' R x)) +
      (X x + refs (umap ?m r va) x - refs e x)" if "ram s' x" for x
    using i(5) [of x] mappings_change [OF r um, of x] tb s' that by simp
  moreover have "ram s' x \<and> rc s' x = 1" if "x \<in> tables ?m' R" for x
    using i(3) [of x] that tb s' by simp
  ultimately show "vm_inv s' R (\<lambda>x. X x + refs (umap ?m r va) x - refs e x)"
    using fc(2) by (intro vm_invI) blast+
  have "agree {x. ram s x \<and> 0 < rc s x \<and> x \<notin> tables ?m R} ?m ?m'"
    using ag by (rule agree_subset) (use i(8) [OF r] in auto)
  then show "keeps s (tables ?m R) s'" using s' by (simp add: keeps_def)
qed

end
