(* ===== verification/Vm_Ops.thy ===== *)
theory Vm_Ops
  imports Vm_Inv
begin

text \<open>
  What the routines of \<^verbatim>\<open>kernel/vm.c\<close> do on states that satisfy \<open>vm_inv\<close>: that they
  return without a panic, that they keep the invariant, and which mappings and which
  user bytes they change. \<open>uview m r va\<close> is the byte a process with page table \<open>r\<close>
  sees at \<open>va\<close> (none where no user page is mapped).
\<close>

section \<open>Frames and views\<close>

definition frame0 :: "phys \<Rightarrow> uint64 set \<Rightarrow> uint64 set \<Rightarrow> phys \<Rightarrow> bool" where
  "frame0 s R P s' \<longleftrightarrow> keeps s (tables (pmem s) R \<union> P) s' \<and>
     (\<forall>x. ram s x \<longrightarrow> 0 < rc s x \<longrightarrow> x \<notin> tables (pmem s) R \<longrightarrow> x \<notin> P \<longrightarrow> x \<notin> tables (pmem s') R)"

text \<open>The entries at and above the trapframe.\<close>

definition kpte :: "mem \<Rightarrow> uint64 \<Rightarrow> uint64 \<Rightarrow> uint64" where
  "kpte m r va = (if pgaligned va \<and> va < MAXVA \<and> \<not> user_va va then pte 2 m r va else 0)"

definition frame :: "phys \<Rightarrow> uint64 set \<Rightarrow> uint64 set \<Rightarrow> phys \<Rightarrow> bool" where
  "frame s R P s' \<longleftrightarrow> frame0 s R P s' \<and> (\<forall>r\<in>R. kpte (pmem s') r = kpte (pmem s) r)"

definition uview :: "mem \<Rightarrow> uint64 \<Rightarrow> uint64 \<Rightarrow> uchar option" where
  "uview m r va = (case umap m r (PGROUNDDOWN va) of None \<Rightarrow> None
     | Some e \<Rightarrow> if bit e 4 then Some (m (PTE2PA e + (va - PGROUNDDOWN va))) else None)"

lemma frame_refl [simp]: "frame s R P s"
  by (simp add: frame_def frame0_def)

lemma frame_kend: "frame0 s R P s' \<Longrightarrow> kend s' = kend s"
  by (simp add: frame0_def keeps_def)

lemma frame_frame0: "frame s R P s' \<Longrightarrow> frame0 s R P s'"
  by (simp add: frame_def)

lemma frame_kpte: "frame s R P s' \<Longrightarrow> r \<in> R \<Longrightarrow> kpte (pmem s') r = kpte (pmem s) r"
  by (simp add: frame_def)

lemma frame_page0:
  "frame0 s R P s' \<Longrightarrow> ram s x \<Longrightarrow> 0 < rc s x \<Longrightarrow> x \<notin> tables (pmem s) R \<Longrightarrow> x \<notin> P \<Longrightarrow>
   ram s' x \<and> 0 < rc s' x \<and> x \<notin> tables (pmem s') R"
  using ram_cong [OF frame_kend, of s R P s' x] by (auto simp: frame0_def keeps_def)

lemma frame_byte0:
  "frame0 s R P s' \<Longrightarrow> ram s (PGROUNDDOWN a) \<Longrightarrow> 0 < rc s (PGROUNDDOWN a) \<Longrightarrow>
   PGROUNDDOWN a \<notin> tables (pmem s) R \<Longrightarrow> PGROUNDDOWN a \<notin> P \<Longrightarrow> pmem s' a = pmem s a"
  by (auto simp: frame0_def keeps_def agree_def)

lemmas frame_page = frame_page0 [OF frame_frame0]
lemmas frame_byte = frame_byte0 [OF frame_frame0]

lemma frame0_trans:
  assumes "frame0 s R P s1" and "frame0 s1 R Q s2"
    and "\<And>x. x \<in> Q \<Longrightarrow> ram s x \<Longrightarrow> 0 < rc s x \<Longrightarrow> x \<notin> tables (pmem s) R \<Longrightarrow> x \<in> P"
  shows "frame0 s R P s2"
proof -
  have st: "x \<notin> Q \<and> ram s1 x \<and> 0 < rc s1 x \<and> x \<notin> tables (pmem s1) R"
    if "ram s x" "0 < rc s x" "x \<notin> tables (pmem s) R" "x \<notin> P" for x
    using assms(3) [of x] frame_page0 [OF assms(1) that] that by blast
  have "keeps s (tables (pmem s) R \<union> P) s2"
  proof (rule keeps_trans)
    show "keeps s (tables (pmem s) R \<union> P) s1" "keeps s1 (tables (pmem s1) R \<union> Q) s2"
      using assms(1,2) by (simp_all add: frame0_def)
  qed (use st in blast)
  moreover have "x \<notin> tables (pmem s2) R"
    if x: "ram s x" "0 < rc s x" "x \<notin> tables (pmem s) R" "x \<notin> P" for x
    using st [OF x] frame_page0 [OF assms(2), of x] by blast
  ultimately show ?thesis by (simp add: frame0_def)
qed

lemma frame_trans:
  assumes "frame s R P s1" and "frame s1 R Q s2"
    and "\<And>x. x \<in> Q \<Longrightarrow> ram s x \<Longrightarrow> 0 < rc s x \<Longrightarrow> x \<notin> tables (pmem s) R \<Longrightarrow> x \<in> P"
  shows "frame s R P s2"
  using frame0_trans [OF frame_frame0 frame_frame0 assms(3), OF assms(1,2)] assms(1,2) by (simp add: frame_def)

lemma frame_step: "frame s R P s1 \<Longrightarrow> frame s1 R {} s2 \<Longrightarrow> frame s R P s2"
  by (rule frame_trans [of s R P s1 "{}"]) simp_all

lemma frame0_step: "frame0 s R P s1 \<Longrightarrow> frame0 s1 R {} s2 \<Longrightarrow> frame0 s R P s2"
  by (rule frame0_trans [of s R P s1 "{}"]) simp_all

lemma page_offset: "va - PGROUNDDOWN va < 4096"
proof -
  have "unat (va - PGROUNDDOWN va) < 4096" by (simp add: in_page_iff)
  then show ?thesis by (simp add: word_less_nat_alt)
qed

text \<open>A byte seen before through \<open>r\<close> is seen after through any \<open>r'\<close> that maps the same page.\<close>

lemma uview_page0:
  assumes inv: "vm_inv s R X" and fr: "frame0 s R P s'" and r: "r \<in> R"
    and um: "map_option (\<lambda>e. (PTE2PA e, bit e 4)) (umap (pmem s') r' (PGROUNDDOWN va)) =
      map_option (\<lambda>e. (PTE2PA e, bit e 4)) (umap (pmem s) r (PGROUNDDOWN va))"
    and P: "\<And>e. umap (pmem s) r (PGROUNDDOWN va) = Some e \<Longrightarrow> PTE2PA e \<notin> P"
  shows "uview (pmem s') r' va = uview (pmem s) r va"
proof (cases "umap (pmem s) r (PGROUNDDOWN va)")
  case (Some e)
  have "PGROUNDDOWN (PTE2PA e + (va - PGROUNDDOWN va)) = PTE2PA e"
    by (rule PGROUNDDOWN_plus [OF pgaligned_PTE2PA page_offset])
  then show ?thesis
    using Some um P [OF Some] vm_invD(4) [OF inv r Some] frame_byte0 [OF fr, of "PTE2PA e + (va - PGROUNDDOWN va)"]
    by (auto simp: uview_def mapped_ok_def)
qed (use um in \<open>simp add: uview_def\<close>)

lemmas uview_page = uview_page0 [OF _ frame_frame0]

lemma uview_frame0:
  assumes "vm_inv s R X" and "frame0 s R P s'" and "r \<in> R"
    and "umap (pmem s') r (PGROUNDDOWN va) = umap (pmem s) r (PGROUNDDOWN va)"
    and "\<And>e. umap (pmem s) r (PGROUNDDOWN va) = Some e \<Longrightarrow> PTE2PA e \<notin> P"
  shows "uview (pmem s') r va = uview (pmem s) r va"
  using assms by (intro uview_page0) simp_all

lemmas uview_frame = uview_frame0 [OF _ frame_frame0]

lemma frame_tables:
  assumes "agree (tables (pmem s) R) (pmem s) (pmem s')" and "forest (pmem s) R" and "keeps s P s'"
  shows "frame s R P s'"
proof -
  note fa = forest_agree [OF assms(2,1)]
  have "keeps s (tables (pmem s) R \<union> P) s'" by (rule keeps_weaken [OF assms(3)]) simp
  then show ?thesis using fa(1,6) by (simp add: frame_def frame0_def kpte_def fun_eq_iff)
qed

text \<open>A store into an entry below the trapframe.\<close>

lemma frame_store:
  assumes "keeps s (tables (pmem s) R) s'" and "tables (pmem s') R = tables (pmem s) R"
    and "\<And>r' va'. r' \<in> R \<Longrightarrow> pgaligned va' \<Longrightarrow> va' < MAXVA \<Longrightarrow>
       pte 2 (pmem s') r' va' = (if r' = r \<and> va' = va then v else pte 2 (pmem s) r' va')"
  shows "frame0 s R {} s'" "user_va va \<Longrightarrow> frame s R {} s'"
    "r' \<in> R \<Longrightarrow> kpte (pmem s') r' va' = (if r' = r \<and> va' = va \<and> pgaligned va \<and> va < MAXVA \<and> \<not> user_va va
       then v else kpte (pmem s) r' va')"
proof -
  show f: "frame0 s R {} s'" using assms(1,2) by (simp add: frame0_def)
  show k: "kpte (pmem s') r' va' = (if r' = r \<and> va' = va \<and> pgaligned va \<and> va < MAXVA \<and> \<not> user_va va
       then v else kpte (pmem s) r' va')" if "r' \<in> R" for r' va'
    using assms(3) [OF that, of va'] by (auto simp: kpte_def)
  show "user_va va \<Longrightarrow> frame s R {} s'" using f k by (simp add: frame_def fun_eq_iff)
qed

lemma pte_bit [pte_simps]:
  fixes v :: uint64
  shows "v AND 1 = 0 \<longleftrightarrow> \<not> bit v 0" "v AND 2 = 0 \<longleftrightarrow> \<not> bit v 1" "v AND 4 = 0 \<longleftrightarrow> \<not> bit v 2"
    "v AND 8 = 0 \<longleftrightarrow> \<not> bit v 3" "v AND 16 = 0 \<longleftrightarrow> \<not> bit v 4" "v AND 256 = 0 \<longleftrightarrow> \<not> bit v 8"
  using bit_iff_and_push_bit_not_eq_0 [of v 0] bit_iff_and_push_bit_not_eq_0 [of v 1]
    bit_iff_and_push_bit_not_eq_0 [of v 2] bit_iff_and_push_bit_not_eq_0 [of v 3]
    bit_iff_and_push_bit_not_eq_0 [of v 4] bit_iff_and_push_bit_not_eq_0 [of v 8]
  by (simp_all add: push_bit_eq_mult)

lemma store_user_vm:
  assumes inv: "vm_inv s R X" and r: "r \<in> R" and sl: "slot 2 (pmem s) r va = Some a"
    and va: "user_va va" and ok: "bit v 0 \<longrightarrow> mapped_ok s R v"
    and e: "e = (if bit v 0 then Some v else None)"
    and s': "s' = s\<lparr>pmem := store64 (pmem s) a v\<rparr>"
  shows "vm_inv s' R (\<lambda>x. X x + refs (umap (pmem s) r va) x - refs e x)"
    "\<And>r' va'. r' \<in> R \<Longrightarrow> umap (pmem s') r' va' = (if r' = r \<and> va' = va then e else umap (pmem s) r' va')"
    "frame s R {} s'"
proof -
  have va': "pgaligned va" "va < MAXVA" using va user_va_less by (auto simp: user_va_def)
  have e': "e = (if user_va va \<and> v AND PTE_V \<noteq> 0 then Some v else None)" using va e by (simp add: pte_simps)
  have ok': "v AND PTE_V \<noteq> 0 \<Longrightarrow> mapped_ok s R v" using ok by (simp add: pte_simps)
  note st = store_pte_vm [OF inv r sl va' ok' _ s' e']
  show "vm_inv s' R (\<lambda>x. X x + refs (umap (pmem s) r va) x - refs e x)"
    "\<And>r' va'. r' \<in> R \<Longrightarrow> umap (pmem s') r' va' = (if r' = r \<and> va' = va then e else umap (pmem s) r' va')"
    using st(1,2) va by simp_all
  show "frame s R {} s'" using va by (intro frame_store(2) [OF st(3,4,7)]) simp_all
qed

section \<open>Looking up a mapping\<close>

lemma slot_nonzero_vm:
  assumes "vm_inv s R X" and "r \<in> R" and "slot 2 (pmem s) r va = Some a"
  shows "a \<noteq> 0"
proof -
  note i = vm_invD [OF assms(1)]
  obtain t where t: "t \<in> nodes 2 (pmem s) r" "a = t + 8 * PX 0 va"
    using slot_in_nodes [OF i(6) [OF assms(2)] assms(3)] by blast
  moreover have "ram s t" using i(3) i(8) [OF assms(2)] t(1) by blast
  ultimately show ?thesis using slot_nonzero [of s t] i(1) by (auto simp: kmem_inv_def)
qed

text \<open>Without \<open>alloc\<close>, \<^verbatim>\<open>walk()\<close> finds the entry, and 0 only where no entry is.\<close>

lemma walk_vm:
  assumes inv: "vm_inv s R X" and r: "r \<in> R" and va: "va < MAXVA"
  obtains (none) "walk s r va False = Ok (0, s)" "pte 2 (pmem s) r va = 0"
  | (some) a where "walk s r va False = Ok (a, s)" "a \<noteq> 0" "slot 2 (pmem s) r va = Some a"
      "load64 (pmem s) a = pte 2 (pmem s) r va"
proof (cases "slot 2 (pmem s) r va")
  case None
  then show thesis using none walk_lookup [OF va, of s r] by (simp add: pte_def)
next
  case (Some a)
  then show thesis using some [of a] walk_lookup [OF va, of s r] slot_nonzero_vm [OF inv r Some]
    by (simp add: pte_def)
qed

section \<open>Adding a mapping\<close>

definition same_rc :: "phys \<Rightarrow> phys \<Rightarrow> bool" where
  "same_rc s s' \<longleftrightarrow> (\<forall>x. ram s x \<longrightarrow> 0 < rc s x \<longrightarrow> rc s' x = rc s x)"

lemma walk_alloc_vm:
  assumes inv: "vm_inv s R X" and r: "r \<in> R" and va: "va < MAXVA"
  obtains a s' where "walk s r va True = Ok (a, s')" "vm_inv s' R X" "frame s R {} s'" "same_rc s s'"
    "\<And>r'. r' \<in> R \<Longrightarrow> umap (pmem s') r' = umap (pmem s) r'"
    "a = 0 \<Longrightarrow> nfree s \<le> 1" "nfree s \<le> nfree s' + 2"
    "a \<noteq> 0 \<Longrightarrow> slot 2 (pmem s') r va = Some a \<and> load64 (pmem s') a = pte 2 (pmem s) r va"
proof -
  note i = vm_invD [OF inv]
  obtain a s' where w: "walk_loop 2 s r va True = (a, s')" by force
  obtain F where g: "grows 2 s r s' F" and F: "card F \<le> 2"
    and a: "if a = 0 then freelist s' = 0 \<and> card F < 2 else slot 2 (pmem s') r va = Some a"
    using walk_alloc [OF i(1) i(6) [OF r] i(7) [OF r] w] by blast
  note gv = grow_vm [OF inv r g]
  have nf: "nfree s = nfree s' + card F" using growsD(2,5,6) [OF g] by (rule nfree_take)
  have "nfree s \<le> 1" if "a = 0"
    using a that nf F nfree_pos [OF growsD(1) [OF g]] by (simp split: if_splits)
  moreover have "nfree s \<le> nfree s' + 2" using nf F by simp
  moreover have "walk s r va True = Ok (a, s')" using va w by (simp add: walk_def)
  moreover have "frame s R {} s'" using gv(3-6) by (auto simp: frame_def frame0_def kpte_def fun_eq_iff)
  moreover have "same_rc s s'" using gv(5) by (simp add: same_rc_def)
  moreover have "load64 (pmem s') a = pte 2 (pmem s) r va" if "a \<noteq> 0"
    using a that growsD(7) [OF g, of va] by (simp add: pte_def)
  ultimately show thesis using that [of a s'] gv(1,2) a by (simp split: if_splits)
qed

lemma PTE_bits:
  assumes "f < 1024" and "g < 1024"
  shows "(PA2PTE p OR f OR PTE_V) AND g = (f OR PTE_V) AND g"
proof -
  have "f OR 1 < 1024" using assms(1) by (intro bit_less_exp [of _ 10, simplified])
    (auto simp: bit_simps dest: less_exp_bitD [of f 10, simplified])
  then show ?thesis using PA2PTE_and_flags [of "f OR 1" g p] assms(2) by (simp add: or.assoc)
qed

lemma PTE_valid: "(v OR f OR PTE_V) AND PTE_V = PTE_V"
  by (simp add: word_ao_absorbs flip: or.assoc)

lemma PTE2PA_mapping:
  assumes "pgaligned p" and "p < 2 ^ 56" and "f < 1024"
  shows "PTE2PA (PA2PTE p OR f OR PTE_V) = p"
proof -
  have "f OR 1 < 1024" using assms(3) by (intro bit_less_exp [of _ 10, simplified])
    (auto simp: bit_simps dest: less_exp_bitD [of f 10, simplified])
  then show ?thesis using PTE2PA_PA2PTE [OF assms(1,2), of "f OR 1"] by (simp add: or.assoc)
qed

lemma mappages_vm:
  assumes inv: "vm_inv s R X" and r: "r \<in> R" and va: "pgaligned va" "va < MAXVA"
    and free: "pte 2 (pmem s) r va AND PTE_V = 0"
    and pa: "pgaligned pa" "pa < 2 ^ 56" "perm < 1024"
    and ok: "user_va va \<longrightarrow> mapped_ok s R (PA2PTE pa OR perm OR PTE_V)"
    and kern: "\<not> user_va va \<longrightarrow> perm AND PTE_U = 0"
    and e: "e = (if user_va va then Some (PA2PTE pa OR perm OR PTE_V) else None)"
  obtains (fail) s' where "mappages s r va PGSIZE pa perm = Ok (-1, s')" "vm_inv s' R X"
      "frame s R {} s'" "same_rc s s'" "\<And>r'. r' \<in> R \<Longrightarrow> umap (pmem s') r' = umap (pmem s) r'"
      "nfree s \<le> 1"
  | (mapped) s' where "mappages s r va PGSIZE pa perm = Ok (0, s')"
      "vm_inv s' R (\<lambda>x. X x - refs e x)" "user_va va \<longrightarrow> frame s R {} s'" "same_rc s s'"
      "\<And>r' va'. r' \<in> R \<Longrightarrow> umap (pmem s') r' va' = (if r' = r \<and> va' = va then e else umap (pmem s) r' va')"
      "pte 2 (pmem s') r va = PA2PTE pa OR perm OR PTE_V" "frame0 s R {} s'"
      "\<And>r' va'. r' \<in> R \<Longrightarrow> kpte (pmem s') r' va' = (if r' = r \<and> va' = va \<and> \<not> user_va va
         then PA2PTE pa OR perm OR PTE_V else kpte (pmem s) r' va')"
      "nfree s \<le> nfree s' + 2"
proof -
  obtain a s1 where w: "walk s r va True = Ok (a, s1)" and inv1: "vm_inv s1 R X" and f1: "frame s R {} s1"
    and rc1: "same_rc s s1" and um1: "\<And>r'. r' \<in> R \<Longrightarrow> umap (pmem s1) r' = umap (pmem s) r'"
    and a0: "a = 0 \<Longrightarrow> nfree s \<le> 1" and nf: "nfree s \<le> nfree s1 + 2"
    and a1: "a \<noteq> 0 \<Longrightarrow> slot 2 (pmem s1) r va = Some a \<and> load64 (pmem s1) a = pte 2 (pmem s) r va"
    by (rule walk_alloc_vm [OF inv r va(2)]) (rule that)
  have mp: "mappages s r va PGSIZE pa perm = (if a = 0 then Ok (-1, s1)
      else Ok (0, s1\<lparr>pmem := store64 (pmem s1) a (PA2PTE pa OR perm OR PTE_V)\<rparr>))"
    using w a1 free va(1) by (simp add: mappages_def pgaligned_def Let_def)
  show thesis
  proof (cases "a = 0")
    case True
    then show thesis using fail mp inv1 f1 rc1 um1 a0 by simp
  next
    case False
    let ?v = "PA2PTE pa OR perm OR PTE_V"
    define s' where "s' = s1\<lparr>pmem := store64 (pmem s1) a ?v\<rparr>"
    have ok1: "mapped_ok s1 R ?v" if "user_va va"
    proof -
      have m: "mapped_ok s R ?v" using ok that by simp
      then show ?thesis using frame_page [OF f1, of "PTE2PA ?v"] rc1 by (simp add: mapped_ok_def same_rc_def)
    qed
    have v: "?v AND PTE_V \<noteq> 0" using PTE_valid [of "PA2PTE pa" perm] by simp
    have kern': "?v AND PTE_U = 0" if "\<not> user_va va"
      using kern that PTE_bits [OF pa(3), of 16 pa] by (simp add: bit.conj_disj_distrib2)
    have e': "e = (if user_va va \<and> ?v AND PTE_V \<noteq> 0 then Some ?v else None)" using e v by simp
    have "umap (pmem s1) r va = None" using um1 [OF r] free by (simp add: umap_def)
    note st = store_pte_vm [OF inv1 r a1 [OF False, THEN conjunct1] va ok1 kern' s'_def e', unfolded this]
    have kern'': "\<not> user_va va \<Longrightarrow> ?v AND PTE_V \<noteq> 0 \<Longrightarrow> ?v AND PTE_U = 0" using kern' by blast
    note fs = frame_store [OF st(3,4,7)]
    have "user_va va \<longrightarrow> frame s R {} s'" using fs(2) frame_step [OF f1] ok1 kern' by blast
    moreover have "frame0 s R {} s'" using fs(1) frame0_step [OF frame_frame0 [OF f1]] ok1 kern' by blast
    moreover have "kpte (pmem s') r' va' = (if r' = r \<and> va' = va \<and> \<not> user_va va then ?v else kpte (pmem s) r' va')"
      if "r' \<in> R" for r' va'
      using fs(3) [of r' va'] that va frame_kpte [OF f1 that] ok1 kern' by simp
    moreover have "same_rc s s'" using rc1 by (simp add: same_rc_def s'_def)
    moreover have "nfree s \<le> nfree s' + 2" using nf by (simp add: nfree_def s'_def)
    ultimately show thesis using mapped [of s'] mp False st(1,2,6) um1
      by (simp add: s'_def refs_def)
  qed
qed

section \<open>The copy-on-write fault\<close>

lemma PTE_FLAGS_bit [pte_simps]: "bit (PTE_FLAGS v) n \<longleftrightarrow> n < 10 \<and> bit v n"
  by (auto simp: PTE_FLAGS_def mask10 bit_simps)

lemma PA2PTE_bit [pte_simps]: "bit (PA2PTE v OR f) n \<longleftrightarrow> n < 10 \<and> bit f n"
  if "n < 10"
  using that mask_low_10 [of v n] by (auto simp: bit_simps)

definition cow_flags :: "uint64 \<Rightarrow> uint64" where
  "cow_flags e = (PTE_FLAGS e OR PTE_W) AND NOT PTE_COW"

lemma cow_flags_bit: "bit (cow_flags e) n \<longleftrightarrow> n < 10 \<and> n \<noteq> 8 \<and> (n = 2 \<or> bit e n)"
proof -
  have "bit (4 :: uint64) n \<longleftrightarrow> n = 2" "bit (256 :: uint64) n \<longleftrightarrow> n = 8"
    using bit_exp_iff [where 'a = uint64, of 2 n] bit_exp_iff [where 'a = uint64, of 8 n] by auto
  then show ?thesis
    by (auto simp: cow_flags_def bit_simps PTE_FLAGS_bit dest: bit_imp_le_length)
qed

lemma cow_flags_less: "cow_flags e < 1024"
  using bit_less_exp [of "cow_flags e" 10] by (simp add: cow_flags_bit)

lemma ram_56: "ram s p \<Longrightarrow> p < 2 ^ 56"
  by (drule ram_less, erule order.strict_trans) simp

lemma cow_mapping:
  assumes "ram s p"
  shows "PTE2PA (PA2PTE p OR cow_flags e) = p"
    "n < 10 \<Longrightarrow> bit (PA2PTE p OR cow_flags e) n \<longleftrightarrow> n \<noteq> 8 \<and> (n = 2 \<or> bit e n)"
  using PTE2PA_PA2PTE [OF ram_pgaligned [OF assms] ram_56 [OF assms] cow_flags_less, of e]
    PA2PTE_bit [of n p "cow_flags e"] by (simp_all add: cow_flags_bit)

text \<open>\<^verbatim>\<open>memmove()\<close> of one page onto another.\<close>

lemma memmove_page:
  assumes "ram s p" and "ram s q"
  shows "agree (- {p}) m (memmove m p q 4096)"
    "off < 4096 \<Longrightarrow> memmove m p q 4096 (p + off) = m (q + off)"
proof -
  have lt: "unat x + 4096 < 2 ^ 64" if "ram s x" for x
    using ram_less [OF that] by (simp add: word_less_nat_alt)
  note mv = memmove_apply [of p 4096 q m, OF lt [OF assms(1)] lt [OF assms(2)]]
  show "agree (- {p}) m (memmove m p q 4096)"
    using ram_pgaligned [OF assms(1)] by (auto simp: agree_def mv in_page_iff)
  show "off < 4096 \<Longrightarrow> memmove m p q 4096 (p + off) = m (q + off)"
    by (simp add: mv word_less_nat_alt)
qed

text \<open>
  Copying a page into a fresh one and redirecting one mapping to it, as \<^verbatim>\<open>cowfault()\<close>
  does when the page has other references.
\<close>

lemma cow_copy_vm:
  assumes inv: "vm_inv s R X" and X: "\<And>x. 0 \<le> X x" and r: "r \<in> R" and va: "user_va va"
    and e: "umap (pmem s) r va = Some e" "bit e 0" "slot 2 (pmem s) r va = Some a" "rc s (PTE2PA e) \<noteq> 1"
    and k: "kalloc s = (p, s1)" "p \<noteq> 0"
    and s2: "s2 = s1\<lparr>pmem := store64 (memmove (pmem s1) p (PTE2PA e) 4096) a (PA2PTE p OR cow_flags e)\<rparr>"
  obtains s' where "kfree s2 (PTE2PA e) = Ok s'" "vm_inv s' R X" "frame s R {} s'" "rc s' p = 1"
    "\<And>r' va'. r' \<in> R \<Longrightarrow> umap (pmem s') r' va' =
       (if r' = r \<and> va' = va then Some (PA2PTE p OR cow_flags e) else umap (pmem s) r' va')"
    "\<And>off. off < 4096 \<Longrightarrow> pmem s' (p + off) = pmem s (PTE2PA e + off)"
proof -
  let ?q = "PTE2PA e" and ?v = "PA2PTE p OR cow_flags e"
  note kv = kalloc_vm [OF inv k]
  have q: "ram s ?q" "0 < rc s ?q" "?q \<notin> tables (pmem s) R" "?q \<noteq> p"
    using vm_invD(4) [OF inv r e(1)] kv(4) by (auto simp: mapped_ok_def)
  have t1: "agree (tables (pmem s) R) (pmem s) (pmem s1)"
    using kv(9) by (rule agree_subset) (use kv(7) in auto)
  note fa1 = forest_agree [OF vm_invD(2) [OF inv] t1]
  define m2 where "m2 = memmove (pmem s1) p ?q 4096"
  have rm: "ram s1 x = ram s x" for x by (rule ram_cong [OF kv(10)])
  note mv = memmove_page [OF kv(3) q(1), where m = "pmem s1", folded m2_def]
  have "0 < rc s1 p" "p \<notin> tables (pmem s1) R" using kv(6,7) fa1(1) by simp_all
  note wv = write_vm [OF kv(1) this mv(1)]
  note fa2 = forest_agree [OF vm_invD(2) [OF kv(1)] wv(3)]
  have sl: "slot 2 (pmem (s1\<lparr>pmem := m2\<rparr>)) r va = Some a" using fa1(5) fa2(5) r e(3) by simp
  have um2: "umap m2 r' = umap (pmem s) r'" if "r' \<in> R" for r' using fa1(3) fa2(3) that by simp
  have ok: "mapped_ok (s1\<lparr>pmem := m2\<rparr>) R ?v"
    using cow_mapping(1) [OF kv(3), of e] kv(3,6,7) rm fa1(1) fa2(1) by (simp add: mapped_ok_def)
  have s2': "s2 = (s1\<lparr>pmem := m2\<rparr>)\<lparr>pmem := store64 (pmem (s1\<lparr>pmem := m2\<rparr>)) a ?v\<rparr>"
    by (simp add: s2 m2_def)
  have e': "Some ?v = (if bit ?v 0 then Some ?v else None)" using e(2) cow_mapping(2) [OF kv(3), of 0 e] by simp
  note st = store_user_vm [OF wv(1) r sl va impI [OF ok] e' s2']
  let ?X = "\<lambda>x. (X(p := 1)) x + refs (umap m2 r va) x - refs (Some ?v) x"
  have inv2: "vm_inv s2 R ?X" using st(1) by simp
  have Xq: "?X ?q = X ?q + 1" using um2 [OF r] e(1) q(4) cow_mapping(1) [OF kv(3), of e] by (simp add: refs_def)
  have rc1: "rc s1 x = (if x = p then 1 else rc s x)" if "ram s x" for x
    using rc_update [OF ram_pgaligned [OF kv(3)] ram_pgaligned [OF that], of s 1]
      kalloc_Some(6) [OF vm_invD(1) [OF inv] k] by (simp add: rc_def)
  have rc2: "rc s2 x = rc s1 x" for x by (simp add: s2 rc_def)
  have ke: "kend s2 = kend s" using kv(10) s2 by simp
  have rq: "1 < rc s2 ?q" using rc1 [OF q(1)] rc2 q(2,4) e(4) by simp
  obtain s' where s': "kfree s2 ?q = Ok s'" "vm_inv s' R (?X(?q := ?X ?q - 1))" "keeps s2 {} s'"
      "agree (tables (pmem s2) R) (pmem s2) (pmem s')" "rc s' ?q = rc s2 ?q - 1"
  proof (rule kfree_vm [OF inv2, of ?q])
    show "ram s2 ?q" using q(1) ram_cong [OF ke] by blast
    show "1 \<le> ?X ?q" using Xq X [of ?q] by linarith
  qed (use rq that in blast)
  note kp = kfree_pmem [OF s'(1)]
  have pm: "pmem s' = pmem s2" by (rule kp(2) [OF rq])
  have "?X(?q := ?X ?q - 1) = X"
    using kv(5) um2 [OF r] e(1) q(4) cow_mapping(1) [OF kv(3), of e] by (auto simp: fun_eq_iff refs_def)
  then have i': "vm_inv s' R X" using s'(2) by simp
  have f1: "frame s R {} s1" by (rule frame_tables [OF t1 vm_invD(2) [OF inv] kv(2)])
  have f2: "frame s1 R {p} (s1\<lparr>pmem := m2\<rparr>)"
    using frame_tables [OF _ vm_invD(2) [OF kv(1)] wv(2)] wv(3) by simp
  note f3 = st(3)
  have f4: "frame s2 R {} s'" using s'(3,4) vm_invD(2) [OF inv2] by (intro frame_tables)
  have "frame s R {} (s1\<lparr>pmem := m2\<rparr>)" using f1 f2 by (rule frame_trans) (use kv(4) in auto)
  from frame_step [OF frame_step [OF this f3] f4] have fr: "frame s R {} s'" .
  have rcp: "rc s' p = 1" using kp(4) [of p] rc2 rc1 [OF kv(3)] q(4) kv(3) ram_cong [OF ke] by simp
  have um: "umap (pmem s') r' va' = (if r' = r \<and> va' = va then Some ?v else umap (pmem s) r' va')" if "r' \<in> R" for r' va'
    using st(2) [OF that, of va'] pm um2 [OF that] by simp
  have bs: "pmem s' (p + off) = pmem s (?q + off)" if "off < 4096" for off
  proof -
    have "PGROUNDDOWN (p + off) = p" "PGROUNDDOWN (?q + off) = ?q"
      using that ram_pgaligned [OF kv(3)] by (simp_all add: PGROUNDDOWN_plus)
    moreover from this have "pmem s2 (p + off) = m2 (p + off)"
      using frame_byte [OF f3, of "p + off"] kv(3,6,7) rm fa1(1) fa2(1) by simp
    ultimately show ?thesis using mv(2) [OF that] kv(9) q(4) pm by (simp add: agree_def)
  qed
  show thesis by (rule that [OF s'(1) i' fr rcp um bs])
qed

lemma umap_pte:
  assumes inv: "vm_inv s R X" and r: "r \<in> R" and va: "pgaligned va" "va < MAXVA"
    and v: "bit (pte 2 (pmem s) r va) 0" "bit (pte 2 (pmem s) r va) 4"
  shows "user_va va" "umap (pmem s) r va = Some (pte 2 (pmem s) r va)"
proof -
  have "sealed (pmem s) r" using vm_invD(2) [OF inv] r by (simp add: forest_def)
  then show "user_va va" using va v by (auto simp: sealed_def pte_simps)
  then show "umap (pmem s) r va = Some (pte 2 (pmem s) r va)" using v by (simp add: umap_def pte_simps)
qed

lemma cowfault_vm:
  assumes inv: "vm_inv s R X" and X: "\<And>x. 0 \<le> X x" and r: "r \<in> R"
  obtains (no) "cowfault s r va = Ok (0, s)"
      "MAXVA \<le> va \<or> freelist s = 0 \<or>
       \<not> (\<exists>e. umap (pmem s) r (PGROUNDDOWN va) = Some e \<and> bit e 4 \<and> bit e 8)"
  | (own) e p s' where "cowfault s r va = Ok (p, s')" "p \<noteq> 0" "ram s p" "va < MAXVA"
      "umap (pmem s) r (PGROUNDDOWN va) = Some e" "bit e 0" "bit e 4" "bit e 8"
      "vm_inv s' R X" "frame s R {} s'" "rc s' p = 1"
      "\<And>r' va'. r' \<in> R \<Longrightarrow> umap (pmem s') r' va' =
         (if r' = r \<and> va' = PGROUNDDOWN va then Some (PA2PTE p OR cow_flags e) else umap (pmem s) r' va')"
      "\<And>off. off < 4096 \<Longrightarrow> pmem s' (p + off) = pmem s (PTE2PA e + off)"
proof (cases "va < MAXVA")
  case False
  then have "MAXVA \<le> va" by simp
  then show thesis by (intro no) (simp_all add: cowfault_def)
next
  case va: True
  let ?va = "PGROUNDDOWN va" and ?e = "pte 2 (pmem s) r (PGROUNDDOWN va)"
  have va0: "?va < MAXVA" using PGROUNDDOWN_le [of va] va by (rule order.strict_trans1)
  from inv r va0 show thesis
  proof (cases rule: walk_vm)
    case none
    then show thesis using va by (intro no) (simp_all add: cowfault_def umap_def)
  next
    case (some a)
    show thesis
    proof (cases "bit ?e 0 \<and> bit ?e 4 \<and> bit ?e 8")
      case False
      then show thesis using va some by (intro no) (auto simp: cowfault_def umap_def pte_simps)
    next
      case b: True
      then have u: "user_va ?va" and um: "umap (pmem s) r ?va = Some ?e"
        using umap_pte [OF inv r _ va0] by simp_all
      have m: "ram s (PTE2PA ?e)" "0 < rc s (PTE2PA ?e)" "PTE2PA ?e \<notin> tables (pmem s) R"
        using vm_invD(4) [OF inv r um] by (auto simp: mapped_ok_def)
      have ref: "kgetref s (PTE2PA ?e) = Ok (rc s (PTE2PA ?e))" using m(1) by (simp add: kgetref_def ram_def rc_def)
      obtain mem s1 where k: "kalloc s = (mem, s1)" by force
      have cf: "cowfault s r va = (if rc s (PTE2PA ?e) = 1
          then Ok (PTE2PA ?e, s\<lparr>pmem := store64 (pmem s) a (PA2PTE (PTE2PA ?e) OR cow_flags ?e)\<rparr>)
          else if mem = 0 then Ok (0, s1)
          else bindR (kfree (s1\<lparr>pmem := store64 (memmove (pmem s1) mem (PTE2PA ?e) 4096) a
                (PA2PTE mem OR cow_flags ?e)\<rparr>) (PTE2PA ?e)) (\<lambda>s. Ok (mem, s)))"
        using va [unfolded not_le [symmetric]] some b ref k by (simp add: cowfault_def pte_simps cow_flags_def Let_def)
      show thesis
      proof (cases "rc s (PTE2PA ?e) = 1")
        case True
        let ?v = "PA2PTE (PTE2PA ?e) OR cow_flags ?e"
        define s' where "s' = s\<lparr>pmem := store64 (pmem s) a ?v\<rparr>"
        have ok: "mapped_ok s R ?v" using m True cow_mapping(1) [OF m(1), of ?e] by (simp add: mapped_ok_def)
        have "Some ?v = (if bit ?v 0 then Some ?v else None)" using b cow_mapping(2) [OF m(1), of 0 ?e] by simp
        note st = store_user_vm [OF inv r some(3) u impI [OF ok] this s'_def]
        have X': "(\<lambda>x. X x + refs (umap (pmem s) r ?va) x - refs (Some ?v) x) = X"
          using um cow_mapping(1) [OF m(1), of ?e] by (simp add: refs_def)
        note f = st(3)
        have "pmem s' (PTE2PA ?e + off) = pmem s (PTE2PA ?e + off)" if "off < 4096" for off
          using frame_byte [OF f, of "PTE2PA ?e + off"] m PGROUNDDOWN_plus [OF pgaligned_PTE2PA that] by simp
        then show thesis
          using own [of "PTE2PA ?e" s' ?e] cf True m ram_nonzero [OF _ m(1)] vm_invD(1) [OF inv] va um b
            st(1) [unfolded X'] st(2) u f by (simp add: s'_def kmem_inv_def)
      next
        case False
        show thesis
        proof (cases "mem = 0")
          case True
          then show thesis using cf False k kalloc_None [of s s1] by (intro no) simp_all
        next
          case m0: False
          from cow_copy_vm [OF inv X r u um conjunct1 [OF b] some(3) False k m0 refl] obtain s'
            where s': "kfree (s1\<lparr>pmem := store64 (memmove (pmem s1) mem (PTE2PA ?e) 4096) a (PA2PTE mem OR cow_flags ?e)\<rparr>)
                (PTE2PA ?e) = Ok s'" "vm_inv s' R X" "frame s R {} s'" "rc s' mem = 1"
              "\<And>r' va'. r' \<in> R \<Longrightarrow> umap (pmem s') r' va' =
                (if r' = r \<and> va' = ?va then Some (PA2PTE mem OR cow_flags ?e) else umap (pmem s) r' va')"
              "\<And>off. off < 4096 \<Longrightarrow> pmem s' (mem + off) = pmem s (PTE2PA ?e + off)"
            by (metis (no_types, lifting))
          then show thesis using own [of mem s' ?e] cf False k m0 va um b kalloc_vm(3) [OF inv k m0] by simp
        qed
      qed
    qed
  qed
qed

section \<open>The fault on a lazily allocated page\<close>

lemma zalloc_vm:
  assumes inv: "vm_inv s R X" and k: "kalloc s = (p, s1)" "p \<noteq> 0"
    and s2: "s2 = s1\<lparr>pmem := memset (pmem s1) p 0 4096\<rparr>"
  shows "vm_inv s2 R (X(p := 1))" "frame s R {} s2" "zero_page (pmem s2) p" "rc s2 p = 1" "ram s2 p"
    "p \<notin> tables (pmem s2) R" "X p = 0" "rc s p = 0" "agree (tables (pmem s) R) (pmem s) (pmem s2)"
    "ram s p" "agree (- {p}) (pmem s) (pmem s2)" "nfree s = nfree s2 + 1"
proof -
  note kv = kalloc_vm [OF inv k]
  show "nfree s = nfree s2 + 1" using kalloc_nfree [OF vm_invD(1) [OF inv] k] by (simp add: s2 nfree_def)
  have al: "pgaligned p" using kv(3) by (rule ram_pgaligned)
  have t1: "agree (tables (pmem s) R) (pmem s) (pmem s1)"
    using kv(9) by (rule agree_subset) (use kv(7) in auto)
  note fa1 = forest_agree [OF vm_invD(2) [OF inv] t1]
  have "0 < rc s1 p" "p \<notin> tables (pmem s1) R" using kv(6,7) fa1(1) by simp_all
  note wv = write_vm [OF kv(1) this agree_memset [OF al, of "- {p}" "pmem s1" 0, simplified], folded s2]
  show "vm_inv s2 R (X(p := 1))" "ram s p" "X p = 0" "rc s p = 0" by (fact wv(1) kv(3) kv(5) kv(4))+
  show "zero_page (pmem s2) p" using zero_page_memset [OF al] by (simp add: s2)
  show "rc s2 p = 1" "ram s2 p" using kv(6,3) ram_cong [OF kv(10), of p] by (simp_all add: s2)
  show t: "agree (tables (pmem s) R) (pmem s) (pmem s2)"
    using agree_trans [OF t1] wv(3) fa1(1) s2 by simp
  show "p \<notin> tables (pmem s2) R" using forest_agree(1) [OF vm_invD(2) [OF inv] t] kv(7) by simp
  have "keeps s {} s2" using kv(2) wv(2) by (rule keeps_trans) (use kv(4) in auto)
  then show "frame s R {} s2" by (rule frame_tables [OF t vm_invD(2) [OF inv]])
  show "agree (- {p}) (pmem s) (pmem s2)"
    unfolding s2 using agree_trans [OF kv(9) agree_memset [OF al]] by simp
qed

lemma fresh_mapped_ok:
  "ram s p \<Longrightarrow> rc s p = 1 \<Longrightarrow> p \<notin> tables (pmem s) R \<Longrightarrow> perm < 1024 \<Longrightarrow>
   mapped_ok s R (PA2PTE p OR perm OR PTE_V)"
  using PTE2PA_mapping [OF ram_pgaligned ram_56, of s p s perm] by (simp add: mapped_ok_def)

text \<open>
  Mapping a fresh page: the step that \<^verbatim>\<open>uvmalloc()\<close> and \<^verbatim>\<open>vmfault()\<close> share, with the page
  given back when the walk runs out of memory.
\<close>

lemma map_fresh_vm:
  assumes inv: "vm_inv s R X" and r: "r \<in> R" and va: "user_va va" "umap (pmem s) r va = None"
    and k: "kalloc s = (p, s1)" "p \<noteq> 0" and s2: "s2 = s1\<lparr>pmem := memset (pmem s1) p 0 4096\<rparr>"
    and perm: "perm < 1024"
  obtains (fail) s3 s' where "mappages s2 r va PGSIZE p perm = Ok (-1, s3)" "kfree s3 p = Ok s'"
      "vm_inv s' R X" "frame s R {} s'" "\<And>r'. r' \<in> R \<Longrightarrow> umap (pmem s') r' = umap (pmem s) r'"
      "nfree s \<le> 2"
  | (mapped) s' where "mappages s2 r va PGSIZE p perm = Ok (0, s')" "vm_inv s' R X" "frame s R {} s'"
      "\<And>r' va'. r' \<in> R \<Longrightarrow> umap (pmem s') r' va' =
         (if r' = r \<and> va' = va then Some (PA2PTE p OR perm OR PTE_V) else umap (pmem s) r' va')"
      "\<And>off. off < 4096 \<Longrightarrow> pmem s' (p + off) = 0" "ram s p" "rc s' p = 1" "nfree s \<le> nfree s' + 3"
proof -
  note z = zalloc_vm [OF inv k s2]
  note fa = forest_agree [OF vm_invD(2) [OF inv] z(9)]
  have va': "pgaligned va" "va < MAXVA" using va user_va_less by (auto simp: user_va_def)
  have free: "pte 2 (pmem s2) r va AND PTE_V = 0" using va fa(6) [OF r] by (auto simp: umap_def split: if_splits)
  have e: "Some (PA2PTE p OR perm OR PTE_V) = (if user_va va then Some (PA2PTE p OR perm OR PTE_V) else None)"
    and kern: "\<not> user_va va \<longrightarrow> perm AND PTE_U = 0"
    and ok: "user_va va \<longrightarrow> mapped_ok s2 R (PA2PTE p OR perm OR PTE_V)"
    using va fresh_mapped_ok [OF z(5,4,6) perm] by simp_all
  show thesis
  proof (cases rule: mappages_vm [OF z(1) r va' free ram_pgaligned [OF z(5)] ram_56 [OF z(5)] perm ok kern e,
        case_names fail mapped])
    case (fail s3)
    have p3: "ram s3 p" "rc s3 p = 1"
      using frame_page [OF fail(3) z(5)] fail(4) z(4-6) by (auto simp: same_rc_def)
    obtain s' where k': "kfree s3 p = Ok s'" "vm_inv s' R ((X(p := 1))(p := (X(p := 1)) p - 1))"
      "keeps s3 {p} s'" "agree (tables (pmem s3) R) (pmem s3) (pmem s')"
      by (rule kfree_vm [OF fail(2) p3(1)]) (use that in auto)
    have "frame s3 R {p} s'" using k'(3,4) vm_invD(2) [OF fail(2)] by (intro frame_tables)
    then have "frame s R {} s'" by (rule frame_trans [OF frame_step [OF z(2) fail(3)]]) (use z(8) in auto)
    moreover have "umap (pmem s') r' = umap (pmem s) r'" if "r' \<in> R" for r'
      using forest_agree(3) [OF vm_invD(2) [OF fail(2)] k'(4) that] fail(5) [OF that] fa(3) [OF that] by simp
    moreover have "X(p := 0) = X" using z(7) by auto
    ultimately show thesis using that(1) [OF fail(1) k'(1)] k'(2) fail(6) z(12) by simp
  next
    case (mapped s')
    have f: "frame s2 R {} s'" using mapped(3) va by simp
    have X: "(\<lambda>x. (X(p := 1)) x - refs (Some (PA2PTE p OR perm OR PTE_V)) x) = X"
      using z(7) PTE2PA_mapping [OF ram_pgaligned [OF z(5)] ram_56 [OF z(5)] perm]
      by (auto simp: refs_def fun_eq_iff)
    have "pmem s' (p + off) = 0" if "off < 4096" for off
      using frame_byte [OF f, of "p + off"] PGROUNDDOWN_plus [OF ram_pgaligned [OF z(5)] that] z(3-6)
      by (simp add: zero_page_def)
    moreover have "rc s' p = 1" using mapped(4) z(4,5) by (simp add: same_rc_def)
    ultimately show thesis
      using that(2) [OF mapped(1)] mapped(2) [unfolded X] frame_step [OF z(2) f] mapped(5,9) fa(3) z(10,12)
      by simp
  qed
qed

end
