(* ===== verification/Vm_Space.thy ===== *)
theory Vm_Space
  imports Vm_Ops
begin

text \<open>
  Growing, shrinking, copying and freeing an address space: the loops of
  \<^verbatim>\<open>kernel/vm.c\<close> over a range of pages, by induction on their fuel.
\<close>

section \<open>Faulting in a lazily allocated page\<close>

definition zero_flags :: uint64 where
  "zero_flags = PTE_W OR PTE_U OR PTE_R"

lemma vmfault_vm:
  assumes inv: "vm_inv s R X" and r: "r \<in> R" and psz: "psz \<le> TRAPFRAME"
  obtains (no) s' where "vmfault psz r s r va = Ok (0, s')" "vm_inv s' R X" "frame s R {} s'"
      "\<And>r'. r' \<in> R \<Longrightarrow> umap (pmem s') r' = umap (pmem s) r'"
  | (new) p s' where "vmfault psz r s r va = Ok (p, s')" "p \<noteq> 0" "va < psz"
      "umap (pmem s) r (PGROUNDDOWN va) = None" "vm_inv s' R X" "frame s R {} s'" "ram s p" "rc s' p = 1"
      "\<And>r' va'. r' \<in> R \<Longrightarrow> umap (pmem s') r' va' = (if r' = r \<and> va' = PGROUNDDOWN va
         then Some (PA2PTE p OR zero_flags OR PTE_V) else umap (pmem s) r' va')"
      "\<And>off. off < 4096 \<Longrightarrow> pmem s' (p + off) = 0"
proof (cases "va < psz")
  case False
  then have "psz \<le> va" by simp
  then show thesis using inv by (intro no [of s]) (simp_all add: vmfault_def)
next
  case va: True
  let ?va = "PGROUNDDOWN va"
  have "va < TRAPFRAME" using va psz by (rule order.strict_trans2)
  with PGROUNDDOWN_le [of va] have "?va < TRAPFRAME" by (rule order.strict_trans1)
  then have u: "user_va ?va" by (simp add: user_va_def)
  have mp: "ismapped s r ?va = Ok (umap (pmem s) r ?va \<noteq> None)"
    by (rule walk_vm [OF inv r user_va_less [OF u]]) (use u in \<open>auto simp: ismapped_def umap_def\<close>)
  show thesis
  proof (cases "umap (pmem s) r ?va")
    case (Some e)
    then show thesis using inv va [unfolded not_le [symmetric]] mp
      by (intro no [of s]) (simp_all add: vmfault_def)
  next
    case None
    obtain p s1 where k: "kalloc s = (p, s1)" by force
    show thesis
    proof (cases "p = 0")
      case True
      then show thesis using None inv va [unfolded not_le [symmetric]] mp k kalloc_None [of s s1]
        by (intro no [of s]) (simp_all add: vmfault_def)
    next
      case False
      have z: "zero_flags < 1024" by (simp add: zero_flags_def)
      show thesis
      proof (cases rule: map_fresh_vm [OF inv r u None k False refl z, case_names fail mapped])
        case (fail s3 s')
        then show thesis using None va [unfolded not_le [symmetric]] mp k False
          by (intro no [of s']) (simp_all add: vmfault_def zero_flags_def)
      next
        case (mapped s')
        then show thesis using None va va [unfolded not_le [symmetric]] mp k False
          by (intro new [of p s']) (simp_all add: vmfault_def zero_flags_def)
      qed
    qed
  qed
qed

section \<open>Unmapping\<close>

text \<open>\<^verbatim>\<open>uvmunmap()\<close> frees the page before it clears the entry; the two commute.\<close>

lemma kfree_store_commute:
  assumes p: "ram s p" "0 < rc s p" and t: "pgaligned t" "t \<noteq> p" "i < 512"
  shows "bindR (kfree s p) (\<lambda>s. Ok (s\<lparr>pmem := store64 (pmem s) (t + 8 * i) v\<rparr>)) =
    kfree (s\<lparr>pmem := store64 (pmem s) (t + 8 * i) v\<rparr>) p"
proof -
  have al: "pgaligned p" using p(1) by (rule ram_pgaligned)
  have out: "\<not> unat (x - (t + 8 * i)) < 8" if "unat (x - p) < 4096" for x
  proof
    assume lt: "unat (x - (t + 8 * i)) < 8"
    have "PGROUNDDOWN (t + 8 * i + of_nat (unat (x - (t + 8 * i)))) = t"
      by (rule slot_byte_page [OF t(1,3) lt])
    then show False using that t(2) al by (simp add: in_page_iff)
  qed
  have "store64 (store64 (memset m p 1 4096) p f) (t + 8 * i) v =
      store64 (memset (store64 m (t + 8 * i) v) p 1 4096) p f" for m f
    using out by (intro ext) (auto simp: store64_def store_le_def memset_apply)
  then show ?thesis using p kfree_cases [of s p] kfree_cases [of "s\<lparr>pmem := store64 (pmem s) (t + 8 * i) v\<rparr>" p]
    by (simp add: rc_def)
qed

lemma frame_weaken: "frame s R P s' \<Longrightarrow> P \<subseteq> Q \<Longrightarrow> frame s R Q s'"
  using keeps_weaken [of s "tables (pmem s) R \<union> P" s' "tables (pmem s) R \<union> Q"] by (auto simp: frame_def frame0_def)

lemma frame_freed_trans:
  assumes f1: "frame s R {x. rc s1 x = 0} s1" and f2: "frame s1 R {x. rc s2 x = 0} s2"
    and dec: "\<And>x. ram s x \<Longrightarrow> rc s2 x \<le> rc s1 x" and k: "kmem_inv s2"
  shows "frame s R {x. rc s2 x = 0} s2"
proof -
  have rm: "ram s2 x = ram s x" for x
    using ram_cong frame_kend [OF frame_frame0 [OF f1]] frame_kend [OF frame_frame0 [OF f2]] by metis
  have z: "rc s2 x = 0" if "ram s x" "rc s1 x = 0" for x
    using dec [OF that(1)] that k rm [of x] unfolding kmem_inv_def by fastforce
  have "frame0 s R {x. rc s2 x = 0} s1"
    unfolding frame0_def keeps_def
  proof (intro conjI allI impI)
    show "kend s1 = kend s" by (rule frame_kend [OF frame_frame0 [OF f1]])
    show "agree {x. ram s x \<and> 0 < rc s x \<and> x \<notin> tables (pmem s) R \<union> {x. rc s2 x = 0}} (pmem s) (pmem s1)"
      using f1 unfolding frame_def frame0_def keeps_def by (elim conjE) (erule agree_subset, use z in blast)
  qed (use frame_page [OF f1] z in blast)+
  then have "frame s R {x. rc s2 x = 0} s1" using f1 by (simp add: frame_def)
  then show ?thesis using f2 by (rule frame_trans) simp
qed

lemma unmap_free_vm:
  assumes inv: "vm_inv s R X" and X: "\<And>x. 0 \<le> X x" and r: "r \<in> R"
    and va: "umap (pmem s) r va = Some e" "slot 2 (pmem s) r va = Some a"
  obtains s1 s' where "kfree s (PTE2PA e) = Ok s1" "s' = s1\<lparr>pmem := store64 (pmem s1) a 0\<rparr>" "vm_inv s' R X"
    "\<And>r' va'. r' \<in> R \<Longrightarrow> umap (pmem s') r' va' = (if r' = r \<and> va' = va then None else umap (pmem s) r' va')"
    "\<And>x. ram s x \<Longrightarrow> rc s' x = rc s x - of_bool (x = PTE2PA e)" "frame s R {x. rc s' x = 0} s'"
proof -
  let ?p = "PTE2PA e"
  have u: "user_va va" using va(1) by (auto simp: umap_def split: if_splits)
  have va': "pgaligned va" "va < MAXVA" using u user_va_less by (auto simp: user_va_def)
  have m: "ram s ?p" "0 < rc s ?p" "?p \<notin> tables (pmem s) R"
    using vm_invD(4) [OF inv r va(1)] by (auto simp: mapped_ok_def)
  obtain t where t: "t \<in> nodes 2 (pmem s) r" "pgaligned t" "a = t + 8 * PX 0 va"
    using slot_in_nodes [OF vm_invD(6) [OF inv r] va(2)] by blast
  have tp: "t \<noteq> ?p" using t(1) m(3) vm_invD(8) [OF inv r] by blast
  define s2 where "s2 = s\<lparr>pmem := store64 (pmem s) a 0\<rparr>"
  have "None = (if bit (0 :: uint64) 0 then Some 0 else None)" "bit (0 :: uint64) 0 \<longrightarrow> mapped_ok s R 0" by simp_all
  note st = store_user_vm [OF inv r va(2) u this(2,1) s2_def]
  let ?X = "\<lambda>x. X x + refs (umap (pmem s) r va) x - refs None x"
  have inv2: "vm_inv s2 R ?X" using st(1) by simp
  have X1: "?X(?p := ?X ?p - 1) = X" using va(1) by (auto simp: refs_def fun_eq_iff)
  obtain s' where k: "kfree s2 ?p = Ok s'" "vm_inv s' R X" "keeps s2 {?p} s'" "1 < rc s2 ?p \<Longrightarrow> keeps s2 {} s'"
      "agree (tables (pmem s2) R) (pmem s2) (pmem s')"
  proof (rule kfree_vm [OF inv2, of ?p])
    show "ram s2 ?p" using m(1) by (simp add: s2_def)
    show "1 \<le> ?X ?p" using X [of ?p] va(1) by (simp add: refs_def)
  qed (use X1 that in metis)
  obtain s1 where k1: "kfree s ?p = Ok s1" "s' = s1\<lparr>pmem := store64 (pmem s1) a 0\<rparr>"
    using k(1) kfree_store_commute [OF m(1,2) t(2) tp PX_less, of 0 va 0] kfree_cases [OF m(1,2)] t(3)
    by (auto simp: s2_def split: if_splits)
  have rc': "rc s' x = rc s x - of_bool (x = ?p)" if "ram s x" for x
    using kfree_pmem(4) [OF k(1), of x] that by (simp add: s2_def)
  have "keeps s2 {x. rc s' x = 0} s'"
  proof (cases "rc s ?p = 1")
    case True
    then show ?thesis using rc' [OF m(1)] by (intro keeps_weaken [OF k(3)]) simp
  next
    case False
    then have "1 < rc s2 ?p" using m(2) by (simp add: s2_def)
    then show ?thesis by (rule keeps_weaken [OF k(4)]) simp
  qed
  then have f2: "frame s2 R {x. rc s' x = 0} s'" by (rule frame_tables [OF k(5) vm_invD(2) [OF inv2]])
  have "frame s R {x. rc s' x = 0} s2" by (rule frame_weaken [OF st(3)]) simp
  from frame_trans [OF this f2] have "frame s R {x. rc s' x = 0} s'" by blast
  moreover have "umap (pmem s') r' va' = (if r' = r \<and> va' = va then None else umap (pmem s) r' va')" if "r' \<in> R" for r' va'
    using forest_agree(3) [OF vm_invD(2) [OF inv2] k(5) that] st(2) [OF that] by simp
  ultimately show thesis using that [OF k1 k(2)] rc' by blast
qed

definition unmapped :: "phys \<Rightarrow> uint64 set \<Rightarrow> (uint64 \<Rightarrow> int) \<Rightarrow> uint64 \<Rightarrow> uint64 \<Rightarrow> uint64 \<Rightarrow> phys \<Rightarrow> bool" where
  "unmapped s R X r a b s' \<longleftrightarrow> vm_inv s' R X \<and>
     (\<forall>r'\<in>R. \<forall>va. umap (pmem s') r' va = (if r' = r \<and> a \<le> va \<and> va < b then None else umap (pmem s) r' va)) \<and>
     (\<forall>x. ram s x \<longrightarrow> rc s' x \<le> rc s x) \<and> frame s R {x. rc s' x = 0} s'"

lemma unmappedD:
  assumes "unmapped s R X r a b s'"
  shows "vm_inv s' R X"
    "\<And>r' va. r' \<in> R \<Longrightarrow> umap (pmem s') r' va = (if r' = r \<and> a \<le> va \<and> va < b then None else umap (pmem s) r' va)"
    "\<And>x. ram s x \<Longrightarrow> rc s' x \<le> rc s x" "frame s R {x. rc s' x = 0} s'"
  using assms by (simp_all add: unmapped_def)

lemma umap_aligned: "umap m r va = Some e \<Longrightarrow> pgaligned va"
  by (auto simp: umap_def user_va_def split: if_splits)

lemma unmapped_step:
  assumes inv: "vm_inv s R X" and ab: "pgaligned a" "pgaligned b" "a < b"
    and s1: "vm_inv s1 R X" "\<And>r' va. r' \<in> R \<Longrightarrow> umap (pmem s1) r' va = (if r' = r \<and> va = a then None else umap (pmem s) r' va)"
      "\<And>x. ram s x \<Longrightarrow> rc s1 x \<le> rc s x" "frame s R {x. rc s1 x = 0} s1"
    and u: "unmapped s1 R X r (a + 4096) b s'"
  shows "unmapped s R X r a b s'"
proof -
  note d = unmappedD [OF u]
  have rm: "ram s1 x = ram s x" for x by (rule ram_cong [OF frame_kend [OF frame_frame0 [OF s1(4)]]])
  have "umap (pmem s') r' va = (if r' = r \<and> a \<le> va \<and> va < b then None else umap (pmem s) r' va)" if "r' \<in> R" for r' va
  proof (cases "umap (pmem s) r' va")
    case (Some e)
    then show ?thesis using page_step(5) [OF ab umap_aligned [OF Some]] d(2) [OF that] s1(2) [OF that] by auto
  qed (use d(2) [OF that] s1(2) [OF that] in auto)
  moreover have "rc s' x \<le> rc s1 x" if "ram s x" for x using d(3) [of x] rm that by simp
  moreover from this have "frame s R {x. rc s' x = 0} s'"
    by (rule frame_freed_trans [OF s1(4) d(4) _ vm_invD(1) [OF d(1)]])
  moreover have "rc s' x \<le> rc s x" if "ram s x" for x
    using s1(3) [OF that] d(3) [of x] rm that by force
  ultimately show ?thesis using d(1) by (simp add: unmapped_def)
qed

lemma uvmunmap_loop_vm:
  assumes "vm_inv s R X" and X: "\<And>x. 0 \<le> X x" and r: "r \<in> R"
    and "pgaligned a" and b: "pgaligned b" "b \<le> TRAPFRAME" and "a \<le> b" and "unat (b - a) div 4096 < n"
  shows "\<exists>s'. uvmunmap_loop n s r a b True = Ok s' \<and> unmapped s R X r a b s'"
  using assms(1,4,7,8)
proof (induction n arbitrary: s a)
  case (Suc n)
  note inv = Suc.prems(1) and a = Suc.prems(2)
  show ?case
  proof (cases "a < b")
    case False
    then show ?thesis using inv by (intro exI [of _ s]) (auto simp: unmapped_def)
  next
    case True
    note ps = page_step [OF a b(1) True]
    have u: "user_va a" using a True b(2) by (auto simp: user_va_def elim: order.strict_trans2)
    have fuel: "unat (b - (a + 4096)) div 4096 < n" using Suc.prems(4) ps(4) by simp
    have next_page: "\<exists>s'. uvmunmap_loop n s1 r (a + 4096) b True = Ok s' \<and> unmapped s R X r a b s'"
      if "vm_inv s1 R X" "\<And>r' va. r' \<in> R \<Longrightarrow> umap (pmem s1) r' va = (if r' = r \<and> va = a then None else umap (pmem s) r' va)"
        "\<And>x. ram s x \<Longrightarrow> rc s1 x \<le> rc s x" "frame s R {x. rc s1 x = 0} s1" for s1
      using Suc.IH [OF that(1) ps(2,1) fuel] unmapped_step [OF inv a b(1) True that] by blast
    show ?thesis
    proof (cases "umap (pmem s) r a")
      case None
      have "uvmunmap_loop (Suc n) s r a b True = uvmunmap_loop n s r (a + 4096) b True"
        by (rule walk_vm [OF inv r user_va_less [OF u]])
          (use None u True in \<open>auto simp: umap_def split: if_splits\<close>)
      then show ?thesis using next_page [of s] inv None by simp
    next
      case (Some e)
      then have e: "e = pte 2 (pmem s) r a" "e AND PTE_V \<noteq> 0" by (auto simp: umap_def split: if_splits)
      obtain w where w: "walk s r a False = Ok (w, s)" "w \<noteq> 0" "slot 2 (pmem s) r a = Some w" "load64 (pmem s) w = e"
        by (rule walk_vm [OF inv r user_va_less [OF u]]) (use e in auto)
      obtain s1 s' where s1: "kfree s (PTE2PA e) = Ok s1" "s' = s1\<lparr>pmem := store64 (pmem s1) w 0\<rparr>"
        and v: "vm_inv s' R X" "\<And>r' va'. r' \<in> R \<Longrightarrow> umap (pmem s') r' va' = (if r' = r \<and> va' = a then None else umap (pmem s) r' va')"
          "\<And>x. ram s x \<Longrightarrow> rc s' x = rc s x - of_bool (x = PTE2PA e)" "frame s R {x. rc s' x = 0} s'"
        by (rule unmap_free_vm [OF inv X r Some w(3)]) (rule that)
      have "uvmunmap_loop (Suc n) s r a b True = uvmunmap_loop n s' r (a + 4096) b True"
        using w e s1 True by simp
      then show ?thesis using next_page [OF v(1,2) _ v(4)] v(3) by simp
    qed
  qed
qed simp

lemma uvmunmap_vm:
  assumes inv: "vm_inv s R X" and X: "\<And>x. 0 \<le> X x" and r: "r \<in> R"
    and a: "pgaligned a" and n: "unat a + 4096 * unat npages \<le> unat TRAPFRAME"
  shows "\<exists>s'. uvmunmap s r a npages True = Ok s' \<and> unmapped s R X r a (a + npages * PGSIZE) s'"
proof -
  have u: "unat (npages * 4096) = unat npages * 4096" "unat (a + npages * 4096) = unat a + unat npages * 4096"
    using n by (simp_all add: unat_word_ariths)
  have b: "pgaligned (a + npages * 4096)" using a u by (simp add: pgaligned_dvd)
  have le: "a + npages * 4096 \<le> TRAPFRAME" "a \<le> a + npages * 4096" using n u by (simp_all add: word_le_nat_alt)
  have "\<exists>s'. uvmunmap_loop (unat npages + 1) s r a (a + npages * 4096) True = Ok s' \<and>
      unmapped s R X r a (a + npages * 4096) s'"
    by (rule uvmunmap_loop_vm [OF inv X r a b le]) (simp add: u)
  then show ?thesis using a by (simp add: uvmunmap_def pgaligned_def)
qed

section \<open>Shrinking and growing\<close>

lemma PGROUNDUP_user:
  assumes "a \<le> TRAPFRAME"
  shows "pgaligned (PGROUNDUP a)" "unat (PGROUNDUP a) = (unat a + 4095) div 4096 * 4096"
    "a \<le> PGROUNDUP a" "PGROUNDUP a \<le> TRAPFRAME"
proof -
  have le: "unat a \<le> 274877898752" using assms by (simp add: word_le_nat_alt)
  then show u: "unat (PGROUNDUP a) = (unat a + 4095) div 4096 * 4096"
    by (simp add: PGROUNDUP_eq unat_PGROUNDDOWN unat_word_ariths)
  show "pgaligned (PGROUNDUP a)" by (simp add: PGROUNDUP_eq)
  show "a \<le> PGROUNDUP a" "PGROUNDUP a \<le> TRAPFRAME" using le by (simp_all add: word_le_nat_alt u)
qed

lemma PGROUNDUP_mono: "a \<le> b \<Longrightarrow> b \<le> TRAPFRAME \<Longrightarrow> PGROUNDUP a \<le> PGROUNDUP b"
  using PGROUNDUP_user(2) [of a] PGROUNDUP_user(2) [of b] by (auto simp: word_le_nat_alt intro: div_le_mono)

lemma PGROUNDUP_aligned: "pgaligned a \<Longrightarrow> a \<le> TRAPFRAME \<Longrightarrow> PGROUNDUP a = a"
  using PGROUNDUP_user(2) [of a] by (auto simp: word_unat_eq_iff pgaligned_dvd elim!: dvdE)

text \<open>The page count survives its passage through a C \<^verbatim>\<open>int\<close>.\<close>

lemma int_page_count:
  assumes "unat (k :: uint64) < 2 ^ 31"
  shows "scast (ucast k :: uint) = k"
proof -
  have "k < 2 ^ 31" using assms by (simp add: word_less_nat_alt)
  then have "bit k n \<Longrightarrow> n < 31" for n by (rule less_exp_bitD)
  then show ?thesis by (intro bit_word_eqI) (fastforce simp: bit_word_scast_iff bit_word_ucast_iff)
qed

lemma uvmdealloc_vm:
  assumes inv: "vm_inv s R X" and X: "\<And>x. 0 \<le> X x" and r: "r \<in> R"
    and sz: "newsz < oldsz" "oldsz \<le> TRAPFRAME"
  shows "\<exists>s'. uvmdealloc s r oldsz newsz = Ok (newsz, s') \<and>
    unmapped s R X r (PGROUNDUP newsz) (PGROUNDUP oldsz) s'"
proof -
  have sz': "newsz \<le> TRAPFRAME" "newsz \<le> oldsz" using sz by auto
  note o = PGROUNDUP_user [OF sz(2)] and n = PGROUNDUP_user [OF sz'(1)] and mono = PGROUNDUP_mono [OF sz'(2) sz(2)]
  show ?thesis
  proof (cases "PGROUNDUP newsz < PGROUNDUP oldsz")
    case False
    then have "PGROUNDUP newsz = PGROUNDUP oldsz" using mono by simp
    then show ?thesis using inv sz(1) [unfolded not_le [symmetric]]
      by (intro exI [of _ s]) (auto simp: uvmdealloc_def unmapped_def)
  next
    case True
    define k where "k = (PGROUNDUP oldsz - PGROUNDUP newsz) div 4096"
    have "unat (PGROUNDUP oldsz - PGROUNDUP newsz) = ((unat oldsz + 4095) div 4096 - (unat newsz + 4095) div 4096) * 4096"
      using mono o(2) n(2) by (simp add: unat_sub diff_mult_distrib)
    then have uk: "unat k = (unat oldsz + 4095) div 4096 - (unat newsz + 4095) div 4096"
      by (simp add: k_def unat_div)
    have "unat (PGROUNDUP oldsz) \<le> unat TRAPFRAME" using o(4) by (simp add: word_le_nat_alt)
    moreover have "unat (PGROUNDUP oldsz) = unat (PGROUNDUP newsz) + 4096 * unat k"
      using True o(2) n(2) by (simp add: uk word_less_nat_alt)
    ultimately have lim: "unat (PGROUNDUP newsz) + 4096 * unat k \<le> unat TRAPFRAME"
      and top: "PGROUNDUP newsz + k * 4096 = PGROUNDUP oldsz"
      by (simp_all add: word_unat_eq_iff unat_word_ariths)
    have "unat k < 2 ^ 31" using lim by simp
    then have "scast (ucast k :: uint) = k" by (rule int_page_count)
    then show ?thesis
      using uvmunmap_vm [OF inv X r n(1) lim] True top sz(1) [unfolded not_le [symmetric]]
      by (auto simp: uvmdealloc_def k_def Let_def)
  qed
qed

end
