(* ===== verification/Vm_Grow.thy ===== *)
theory Vm_Grow
  imports Vm_Space
begin

text \<open>
  \<^verbatim>\<open>uvmalloc()\<close>, \<^verbatim>\<open>uvmcopy()\<close> and \<^verbatim>\<open>uvmcreate()\<close>: growing an address space, the
  copy-on-write copy of one, and a new one. On failure the mappings are as before.
\<close>

section \<open>Growing an address space\<close>

definition unchanged :: "phys \<Rightarrow> uint64 set \<Rightarrow> (uint64 \<Rightarrow> int) \<Rightarrow> phys \<Rightarrow> bool" where
  "unchanged s R X s' \<longleftrightarrow> vm_inv s' R X \<and> frame s R {} s' \<and> (\<forall>r\<in>R. umap (pmem s') r = umap (pmem s) r)"

text \<open>Undoing added mappings frees only pages that were free before.\<close>

lemma frame_undo:
  assumes inv: "vm_inv s R X" and f1: "frame s R {} s1" and f2: "frame s1 R {x. rc s' x = 0} s'"
    and inv': "vm_inv s' R X" and mp: "mappings (pmem s') R = mappings (pmem s) R"
  shows "frame s R {} s'"
proof -
  have rm: "ram s' x = ram s x" for x using frame_kend [OF frame_frame0 [OF f1]] frame_kend [OF frame_frame0 [OF f2]] ram_cong by metis
  have "False" if "rc s' x = 0" "ram s x" "0 < rc s x" "x \<notin> tables (pmem s) R" for x
    using that vm_invD(3) [OF inv', of x] vm_invD(5) [OF inv', of x] vm_invD(5) [OF inv that(2)] rm mp
    by (cases "x \<in> tables (pmem s') R") auto
  then show ?thesis by (intro frame_trans [OF f1 f2]) auto
qed

lemma unchanged_undo:
  assumes "vm_inv s R X" and "frame s R {} s1" and "frame s1 R {x. rc s' x = 0} s'"
    and "vm_inv s' R X" and "\<And>r. r \<in> R \<Longrightarrow> umap (pmem s') r = umap (pmem s) r"
  shows "unchanged s R X s'"
proof -
  have "mappings (pmem s') R = mappings (pmem s) R" using assms(5) by (auto simp: mappings_def fun_eq_iff)
  with assms show ?thesis using frame_undo [OF assms(1-4)] by (simp add: unchanged_def)
qed

definition grown :: "phys \<Rightarrow> uint64 set \<Rightarrow> (uint64 \<Rightarrow> int) \<Rightarrow> uint64 \<Rightarrow> uint64 \<Rightarrow> uint64 \<Rightarrow> uint64 \<Rightarrow> phys \<Rightarrow> bool" where
  "grown s R X r a b perm s' \<longleftrightarrow> vm_inv s' R X \<and> frame s R {} s' \<and>
     (\<forall>r'\<in>R. \<forall>va. \<not> (r' = r \<and> a \<le> va \<and> va < b) \<longrightarrow> umap (pmem s') r' va = umap (pmem s) r' va) \<and>
     (\<forall>va. pgaligned va \<longrightarrow> a \<le> va \<longrightarrow> va < b \<longrightarrow>
        (\<exists>p. ram s' p \<and> umap (pmem s') r va = Some (PA2PTE p OR perm OR PTE_V) \<and> (\<forall>off<4096. pmem s' (p + off) = 0)))"

lemma grownD:
  assumes "grown s R X r a b perm s'"
  shows "vm_inv s' R X" "frame s R {} s'"
    "\<And>r' va. r' \<in> R \<Longrightarrow> \<not> (r' = r \<and> a \<le> va \<and> va < b) \<Longrightarrow> umap (pmem s') r' va = umap (pmem s) r' va"
    "\<And>va. pgaligned va \<Longrightarrow> a \<le> va \<Longrightarrow> va < b \<Longrightarrow>
       \<exists>p. ram s' p \<and> umap (pmem s') r va = Some (PA2PTE p OR perm OR PTE_V) \<and> (\<forall>off<4096. pmem s' (p + off) = 0)"
  using assms by (auto simp: grown_def)

lemma grown_step:
  assumes g: "grown s R X r a b perm s1" and ab: "pgaligned a" "pgaligned b" "a \<le> b" "b < c" "pgaligned c"
    and r: "r \<in> R" and perm: "perm < 1024"
    and s2: "vm_inv s2 R X" "frame s1 R {} s2" "ram s1 p"
      "\<And>r' va'. r' \<in> R \<Longrightarrow> umap (pmem s2) r' va' =
         (if r' = r \<and> va' = b then Some (PA2PTE p OR perm OR PTE_V) else umap (pmem s1) r' va')"
      "\<And>off. off < 4096 \<Longrightarrow> pmem s2 (p + off) = 0"
  shows "grown s R X r a (b + 4096) perm s2"
proof -
  note d = grownD [OF g] and ps = page_step [OF ab(2,5,4)]
  have rm: "ram s2 x = ram s1 x" for x by (rule ram_cong [OF frame_kend [OF frame_frame0 [OF s2(2)]]])
  have bl: "b < b + 4096" using ps(3) by (simp add: word_less_nat_alt)
  note rng = page_next [OF ab(2,5,4)]
  have "umap (pmem s2) r' va = umap (pmem s) r' va" if "r' \<in> R" "\<not> (r' = r \<and> a \<le> va \<and> va < b + 4096)" for r' va
  proof -
    have "\<not> (r' = r \<and> a \<le> va \<and> va < b)" using that(2) bl by auto
    then show ?thesis using that d(3) [OF that(1), of va] s2(4) [OF that(1), of va] ab(3) bl by auto
  qed
  moreover have "\<exists>p. ram s2 p \<and> umap (pmem s2) r va = Some (PA2PTE p OR perm OR PTE_V) \<and> (\<forall>off<4096. pmem s2 (p + off) = 0)"
    if va: "pgaligned va" "a \<le> va" "va < b + 4096" for va
  proof (cases "va = b")
    case True
    then show ?thesis using s2(3-5) r rm by auto
  next
    case False
    then obtain q where q: "ram s1 q" "umap (pmem s1) r va = Some (PA2PTE q OR perm OR PTE_V)"
        "\<And>off. off < 4096 \<Longrightarrow> pmem s1 (q + off) = 0"
      using d(4) [OF va(1,2)] rng [OF va(1)] va(3) by blast
    have ok: "0 < rc s1 q" "q \<notin> tables (pmem s1) R"
      using vm_invD(4) [OF d(1) r q(2)] PTE2PA_mapping [OF ram_pgaligned [OF q(1)] ram_56 [OF q(1)] perm]
      by (auto simp: mapped_ok_def)
    have "pmem s2 (q + off) = 0" if "off < 4096" for off
      using frame_byte [OF s2(2), of "q + off"] ok q(1) q(3) [OF that] PGROUNDDOWN_plus [OF ram_pgaligned [OF q(1)] that]
      by simp
    then show ?thesis using q(1,2) rm s2(4) [OF r, of va] False by auto
  qed
  ultimately show ?thesis using s2(1) frame_step [OF d(2) s2(2)] by (auto simp: grown_def)
qed

lemma grown_trim:
  assumes g: "grown s R X r a b perm s'" and r: "r \<in> R" and c: "c \<le> b"
    "\<And>va. pgaligned va \<Longrightarrow> va < b \<Longrightarrow> va < c"
  shows "grown s R X r a c perm s'"
proof -
  note d = grownD [OF g]
  have "umap (pmem s') r' va = umap (pmem s) r' va" if "r' \<in> R" "\<not> (r' = r \<and> a \<le> va \<and> va < c)" for r' va
  proof (cases "pgaligned va")
    case True
    then show ?thesis using d(3) [OF that(1), of va] that(2) c(2) by blast
  qed (simp add: umap_def user_va_def)
  moreover have "va < b" if "va < c" for va using that c(1) by (rule order.strict_trans2)
  ultimately show ?thesis using d(1,2,4) unfolding grown_def by blast
qed

lemma dealloc_undo:
  assumes inv: "vm_inv s R X" and X: "\<And>x. 0 \<le> X x" and r: "r \<in> R"
    and ab: "pgaligned a" "pgaligned b" "a \<le> b" "b \<le> TRAPFRAME"
    and free: "\<And>va. a \<le> va \<Longrightarrow> va < b \<Longrightarrow> umap (pmem s) r va = None"
    and s1: "vm_inv s1 R X" "frame s R {} s1"
      "\<And>r' va. r' \<in> R \<Longrightarrow> \<not> (r' = r \<and> a \<le> va \<and> va < b) \<Longrightarrow> umap (pmem s1) r' va = umap (pmem s) r' va"
  shows "\<exists>z s'. uvmdealloc s1 r b a = Ok (z, s') \<and> unchanged s R X s'"
proof (cases "a < b")
  case False
  then have "uvmdealloc s1 r b a = Ok (b, s1)" using ab(3) by (simp add: uvmdealloc_def)
  moreover have "umap (pmem s1) r' va = umap (pmem s) r' va" if "r' \<in> R" for r' va
    using s1(3) [OF that, of va] False order.strict_trans1 [of a va b] by blast
  then have "unchanged s R X s1" using s1(1,2) by (simp add: unchanged_def fun_eq_iff)
  ultimately show ?thesis by blast
next
  case True
  have "a \<le> TRAPFRAME" using ab(3,4) by (rule order.trans)
  then obtain s' where s': "uvmdealloc s1 r b a = Ok (a, s')" "unmapped s1 R X r a b s'"
    using uvmdealloc_vm [OF s1(1) X r True ab(4)] ab PGROUNDUP_aligned by auto
  have "umap (pmem s') r' = umap (pmem s) r'" if "r' \<in> R" for r'
    using unmappedD(2) [OF s'(2) that] s1(3) [OF that] free by (intro ext) auto
  with unchanged_undo [OF inv s1(2) unmappedD(4) [OF s'(2)] unmappedD(1) [OF s'(2)]]
  show ?thesis using s'(1) by blast
qed

lemma pages_bound:
  assumes "pgaligned a" and "\<And>va. pgaligned va \<Longrightarrow> va < a \<Longrightarrow> va < newsz"
  shows "nfree s0 \<le> nfree s + c * (unat a div 4096) \<Longrightarrow> nfree s0 \<le> nfree s + c * (unat newsz div 4096 + 1)"
proof -
  have "unat a div 4096 \<le> unat newsz div 4096 + 1"
  proof (cases "a = 0")
    case False
    have d: "4096 dvd unat a" using assms(1) by (simp add: pgaligned_dvd)
    then have ge: "4096 \<le> unat a" using False by (auto simp: word_unat_eq_iff elim!: dvdE)
    then have u: "unat (a - 4096) = unat a - 4096" by (simp add: unat_sub word_le_nat_alt)
    have "pgaligned (a - 4096)" using d u by (simp add: pgaligned_dvd)
    moreover have "a - 4096 < a" using u ge by (simp add: word_less_nat_alt)
    ultimately have "unat (a - 4096) < unat newsz" using assms(2) by (simp add: word_less_nat_alt)
    then show ?thesis using u d by (elim dvdE) simp
  qed simp
  then show "nfree s0 \<le> nfree s + c * (unat a div 4096) \<Longrightarrow> nfree s0 \<le> nfree s + c * (unat newsz div 4096 + 1)"
    using mult_le_mono2 [of "unat a div 4096" "unat newsz div 4096 + 1" c] by linarith
qed

lemma uvmalloc_loop_vm:
  assumes inv: "vm_inv s0 R X" and X: "\<And>x. 0 \<le> X x" and r: "r \<in> R"
    and old: "pgaligned old" and new: "newsz \<le> TRAPFRAME"
    and free: "\<And>va. old \<le> va \<Longrightarrow> va < newsz \<Longrightarrow> umap (pmem s0) r va = None"
    and perm: "perm = PTE_R OR PTE_U OR xperm" "perm < 1024"
    and "grown s0 R X r old a perm s" and "pgaligned a" and "old \<le> a" and "a \<le> TRAPFRAME"
    and "unat newsz \<le> unat a + 4096 * n"
    and "\<And>va. pgaligned va \<Longrightarrow> va < a \<Longrightarrow> va < newsz" and "nfree s0 \<le> nfree s + 3 * (unat a div 4096)"
  shows "(\<exists>s'. uvmalloc_loop (Suc n) s r old a newsz xperm = Ok (newsz, s') \<and> grown s0 R X r old newsz perm s' \<and>
      nfree s0 \<le> nfree s' + 3 * (unat newsz div 4096 + 1)) \<or>
    (\<exists>s'. uvmalloc_loop (Suc n) s r old a newsz xperm = Ok (0, s') \<and> unchanged s0 R X s' \<and>
      nfree s0 < 3 * (unat newsz div 4096 + 1))"
  using assms(9-)
proof (induction n arbitrary: s a)
  case 0
  then have "\<not> a < newsz" by (simp add: word_less_nat_alt)
  then show ?case using grown_trim [OF 0(1) r] 0(6) pages_bound [OF 0(2) 0(6)] 0(7) by (simp add: not_less)
next
  case (Suc n)
  note g = Suc.prems(1) and a = Suc.prems(2-4) and d = grownD [OF Suc.prems(1)]
  show ?case
  proof (cases "a < newsz")
    case False
    then show ?thesis using grown_trim [OF g r] Suc.prems(6) pages_bound [OF a(1) Suc.prems(6)] Suc.prems(7)
      by (simp add: not_less)
  next
    case True
    have at: "a < TRAPFRAME" using True new by (rule order.strict_trans2)
    have tf: "pgaligned TRAPFRAME" by (simp add: pgaligned_def)
    note ps = page_step [OF a(1) tf at]
    have u: "user_va a" using a(1) at by (simp add: user_va_def)
    have un: "umap (pmem s) r a = None" using d(3) [OF r, of a] free [OF a(2) True] by simp
    have free': "umap (pmem s0) r va = None" if "old \<le> va" "va < a" for va
    proof (cases "umap (pmem s0) r va")
      case (Some e)
      then show ?thesis using free [OF that(1)] Suc.prems(6) [OF umap_aligned [OF Some] that(2)] by simp
    qed
    have few: "nfree s0 < 3 * (unat newsz div 4096 + 1)" if "nfree s \<le> 2"
      using that Suc.prems(7) True div_le_mono [of "unat a" "unat newsz" 4096] by (simp add: word_less_nat_alt)
    obtain p s1 where k: "kalloc s = (p, s1)" by force
    show ?thesis
    proof (cases "p = 0")
      case p0: True
      then have "s1 = s" "freelist s = 0" using k kalloc_None by simp_all
      then have "nfree s \<le> 2" using nfree_pos [OF vm_invD(1) [OF d(1)]] by simp
      note few = few [OF this]
      obtain z s' where "uvmdealloc s r a old = Ok (z, s')" "unchanged s0 R X s'"
        using dealloc_undo [OF inv X r old a(1,2) a(3) free' d(1,2)] d(3) by blast
      then show ?thesis using k p0 True \<open>s1 = s\<close> few by auto
    next
      case p: False
      show ?thesis
      proof (cases rule: map_fresh_vm [OF d(1) r u un k p refl perm(2), case_names fail mapped])
        case (fail s3 s4)
        have "frame s0 R {} s4" by (rule frame_step [OF d(2) fail(4)])
        then obtain z s' where "uvmdealloc s4 r a old = Ok (z, s')" "unchanged s0 R X s'"
          using dealloc_undo [OF inv X r old a(1,2) a(3) free' fail(3)] d(3) fail(5) by metis
        then show ?thesis using k p True fail(1,2) perm(1) few [OF fail(6)] by (auto simp: Let_def)
      next
        case (mapped s2)
        have "grown s0 R X r old (a + 4096) perm s2"
          by (rule grown_step [OF g old a(1,2) at tf r perm(2) mapped(2,3,6,4,5)])
        moreover have "nfree s0 \<le> nfree s2 + 3 * (unat (a + 4096) div 4096)"
          using Suc.prems(7) mapped(8) by (simp add: ps(3) div_page_Suc)
        moreover have "old \<le> a + 4096" using a(2) ps(3) by (simp add: word_le_nat_alt)
        moreover have "unat newsz \<le> unat (a + 4096) + 4096 * n" using Suc.prems(5) ps(3) by simp
        moreover have "va < newsz" if "pgaligned va" "va < a + 4096" for va
          using that(2) True page_next [OF a(1) tf at that(1)] Suc.prems(6) [OF that(1)] by blast
        ultimately have "(\<exists>s'. uvmalloc_loop (Suc n) s2 r old (a + 4096) newsz xperm = Ok (newsz, s') \<and>
              grown s0 R X r old newsz perm s' \<and> nfree s0 \<le> nfree s' + 3 * (unat newsz div 4096 + 1)) \<or>
            (\<exists>s'. uvmalloc_loop (Suc n) s2 r old (a + 4096) newsz xperm = Ok (0, s') \<and> unchanged s0 R X s' \<and>
              nfree s0 < 3 * (unat newsz div 4096 + 1))"
          by (intro Suc.IH ps(1,2))
        moreover have "uvmalloc_loop (Suc (Suc n)) s r old a newsz xperm = uvmalloc_loop (Suc n) s2 r old (a + 4096) newsz xperm"
          using k p True mapped(1) perm(1) by (simp add: Let_def)
        ultimately show ?thesis by simp
      qed
    qed
  qed
qed

theorem uvmalloc_vm:
  assumes inv: "vm_inv s R X" and X: "\<And>x. 0 \<le> X x" and r: "r \<in> R"
    and sz: "oldsz \<le> newsz" "newsz \<le> TRAPFRAME"
    and free: "\<And>va. PGROUNDUP oldsz \<le> va \<Longrightarrow> va < newsz \<Longrightarrow> umap (pmem s) r va = None"
    and perm: "perm = PTE_R OR PTE_U OR xperm" "perm < 1024"
  shows "(\<exists>s'. uvmalloc s r oldsz newsz xperm = Ok (newsz, s') \<and> grown s R X r (PGROUNDUP oldsz) newsz perm s' \<and>
      nfree s \<le> nfree s' + 3 * (unat newsz div 4096 + 1)) \<or>
    (\<exists>s'. uvmalloc s r oldsz newsz xperm = Ok (0, s') \<and> unchanged s R X s' \<and>
      nfree s < 3 * (unat newsz div 4096 + 1))"
proof -
  have old: "oldsz \<le> TRAPFRAME" using sz by (rule order.trans)
  note pu = PGROUNDUP_user [OF old]
  let ?a = "PGROUNDUP oldsz"
  have g: "grown s R X r ?a ?a perm s" using inv by (auto simp: grown_def)
  have lim: "va < newsz" if "pgaligned va" "va < ?a" for va
  proof -
    have "unat va + 4096 \<le> unat ?a"
      using page_step(1,3) [OF that(1) pu(1) that(2)] by (simp add: word_le_nat_alt)
    then have "unat va < unat oldsz" using pu(2) div_times_less_eq_dividend [of "unat oldsz + 4095" 4096] by linarith
    then show ?thesis using sz(1) by (simp add: word_less_nat_alt word_le_nat_alt)
  qed
  have fuel: "unat newsz \<le> unat ?a + 4096 * (unat newsz div 4096 + 1)"
    using div_mult_mod_eq [of "unat newsz" 4096] mod_less_divisor [of 4096 "unat newsz"] by simp
  have "\<not> newsz < oldsz" using sz(1) by simp
  then show ?thesis
    using uvmalloc_loop_vm [OF inv X r pu(1) sz(2) free perm g pu(1) order.refl pu(4) fuel lim le_add1]
    by (simp only: uvmalloc_def add_2_eq_Suc' if_False Suc_eq_plus1 [symmetric])
qed

end
