(* ===== verification/Vm_Fork.thy ===== *)
theory Vm_Fork
  imports Vm_Grow
begin

text \<open>
  \<^verbatim>\<open>uvmcopy()\<close>: the copy-on-write copy of an address space. Page by page the parent's
  entry loses its write permission and the child gets an entry for the same page, with
  one more reference to it. Both processes then see the bytes the parent saw before.
\<close>

definition share_flags :: "uint64 \<Rightarrow> uint64" where
  "share_flags e = (if PTE_FLAGS e AND PTE_W \<noteq> 0 then (PTE_FLAGS e AND NOT PTE_W) OR PTE_COW else PTE_FLAGS e)"

definition share_parent :: "uint64 \<Rightarrow> uint64" where
  "share_parent e = (if PTE_FLAGS e AND PTE_W \<noteq> 0 then PA2PTE (PTE2PA e) OR share_flags e else e)"

definition share_child :: "uint64 \<Rightarrow> uint64" where
  "share_child e = PA2PTE (PTE2PA e) OR share_flags e OR PTE_V"

lemma share_flags_bit:
  "bit (share_flags e) n \<longleftrightarrow> n < 10 \<and> (if bit e 2 then n = 8 \<or> n \<noteq> 2 \<and> bit e n else bit e n)"
proof -
  have "bit (4 :: uint64) n \<longleftrightarrow> n = 2" "bit (256 :: uint64) n \<longleftrightarrow> n = 8"
    using bit_exp_iff [where 'a = uint64, of 2 n] bit_exp_iff [where 'a = uint64, of 8 n] by auto
  then show ?thesis
    by (auto simp: share_flags_def bit_simps pte_simps dest: bit_imp_le_length)
qed

lemma share_flags_less: "share_flags e < 1024"
  using bit_less_exp [of "share_flags e" 10] by (simp add: share_flags_bit split: if_splits)

lemma share_bits:
  assumes "ram s (PTE2PA e)"
  shows "PTE2PA (share_parent e) = PTE2PA e" "PTE2PA (share_child e) = PTE2PA e"
    "\<not> bit (share_parent e) 2" "\<not> bit (share_child e) 2" "bit (share_child e) 0"
    "bit (share_parent e) 0 \<longleftrightarrow> bit e 0" "bit (share_parent e) 4 \<longleftrightarrow> bit e 4" "bit (share_child e) 4 \<longleftrightarrow> bit e 4"
proof -
  note pg = pgaligned_PTE2PA ram_56 [OF assms] share_flags_less [of e]
  show "PTE2PA (share_parent e) = PTE2PA e" using PTE2PA_PA2PTE [OF pg] by (simp add: share_parent_def)
  show "PTE2PA (share_child e) = PTE2PA e" using PTE2PA_mapping [OF pg] by (simp add: share_child_def)
  show "\<not> bit (share_parent e) 2" "bit (share_parent e) 0 \<longleftrightarrow> bit e 0" "bit (share_parent e) 4 \<longleftrightarrow> bit e 4"
    by (auto simp: share_parent_def pte_simps share_flags_bit)
  show "\<not> bit (share_child e) 2" "bit (share_child e) 0" "bit (share_child e) 4 \<longleftrightarrow> bit e 4"
    by (auto simp: share_child_def pte_simps share_flags_bit bit_simps dest: mask_low_10)
qed

lemma single_mapping:
  assumes inv: "vm_inv s R X" and X: "0 \<le> X (PTE2PA e)" and r: "r \<in> R" "r' \<in> R"
    and um: "umap (pmem s) r va = Some e" "umap (pmem s) r' va' = Some e'" "PTE2PA e' = PTE2PA e"
    and one: "rc s (PTE2PA e) = 1"
  shows "r' = r \<and> va' = va"
proof -
  let ?M = "mappings (pmem s) R (PTE2PA e)"
  have "ram s (PTE2PA e)" "PTE2PA e \<notin> tables (pmem s) R"
    using vm_invD(4) [OF inv r(1) um(1)] by (auto simp: mapped_ok_def)
  then have "card ?M \<le> 1" using vm_invD(5) [OF inv, of "PTE2PA e"] X one by simp
  moreover have "(r, va) \<in> ?M" "(r', va') \<in> ?M" using r um by (auto simp: mappings_def)
  ultimately show ?thesis using card_le_Suc0_iff_eq [of ?M] by (auto simp: le_Suc_eq)
qed

lemma not_writable:
  assumes inv: "vm_inv s R X" and X: "0 \<le> X (PTE2PA e)" and r: "r \<in> R"
    and um: "umap (pmem s) r va = Some e" "\<not> bit e 2"
  shows "\<not> writable (pmem s) R (PTE2PA e)"
proof
  assume w: "writable (pmem s) R (PTE2PA e)"
  then obtain r' va' e' where w': "r' \<in> R" "umap (pmem s) r' va' = Some e'" "PTE2PA e' = PTE2PA e" "bit e' 2"
    by (auto simp: writable_def pte_simps)
  have "rc s (PTE2PA e) = 1" using writableD [OF inv w] by simp
  from single_mapping [OF inv X r w'(1) um(1) w'(2,3) this] show False using um w' by auto
qed

section \<open>One page\<close>

text \<open>The parent's entry, rewritten when it was writable.\<close>

lemma share_parent_vm:
  assumes inv: "vm_inv s R X" and r: "r \<in> R" and um: "umap (pmem s) r va = Some e"
    and sl: "slot 2 (pmem s) r va = Some a"
    and s': "s' = (if PTE_FLAGS e AND PTE_W \<noteq> 0 then s\<lparr>pmem := store64 (pmem s) a (share_parent e)\<rparr> else s)"
  shows "vm_inv s' R X" "frame s R {} s'" "same_rc s s'"
    "\<And>r' va'. r' \<in> R \<Longrightarrow> umap (pmem s') r' va' = (if r' = r \<and> va' = va then Some (share_parent e) else umap (pmem s) r' va')"
proof -
  let ?v = "share_parent e"
  have u: "user_va va" "bit e 0" using um by (auto simp: umap_def pte_simps split: if_splits)
  have ok: "mapped_ok s R e" by (rule vm_invD(4) [OF inv r um])
  then have m: "ram s (PTE2PA e)" by (simp add: mapped_ok_def)
  note b = share_bits [OF m]
  have ok': "mapped_ok s R ?v" using ok b by (simp add: mapped_ok_def pte_simps)
  define s1 where "s1 = s\<lparr>pmem := store64 (pmem s) a ?v\<rparr>"
  have "Some ?v = (if bit ?v 0 then Some ?v else None)" using u b by simp
  note st = store_user_vm [OF inv r sl u(1) impI [OF ok'] this s1_def]
  have X: "(\<lambda>x. X x + refs (umap (pmem s) r va) x - refs (Some ?v) x) = X" using um b by (simp add: refs_def)
  have s1: "vm_inv s1 R X" "frame s R {} s1" "same_rc s s1"
      "\<And>r' va'. r' \<in> R \<Longrightarrow> umap (pmem s1) r' va' = (if r' = r \<and> va' = va then Some ?v else umap (pmem s) r' va')"
    using st(1) [unfolded X] st(2,3) by (simp_all add: same_rc_def s1_def)
  have nw: "?v = e" if "\<not> PTE_FLAGS e AND PTE_W \<noteq> 0" using that by (simp add: share_parent_def)
  show "vm_inv s' R X" "frame s R {} s'" "same_rc s s'"
    using s1 inv s' by (auto simp: s1_def same_rc_def)
  show "umap (pmem s') r' va' = (if r' = r \<and> va' = va then Some ?v else umap (pmem s) r' va')" if "r' \<in> R" for r' va'
  proof (cases "PTE_FLAGS e AND PTE_W \<noteq> 0")
    case True
    then have "s' = s1" using s' by (simp add: s1_def)
    then show ?thesis using s1(4) [OF that] by simp
  next
    case False
    then show ?thesis using s' nw um by simp
  qed
qed

lemma share_page_vm:
  assumes inv: "vm_inv s R X" and X: "\<And>x. 0 \<le> X x" and r: "old \<in> R" "new \<in> R" "old \<noteq> new"
    and um: "umap (pmem s) old va = Some e" "umap (pmem s) new va = None"
    and sl: "slot 2 (pmem s) old va = Some a"
    and s1: "s1 = (if PTE_FLAGS e AND PTE_W \<noteq> 0 then s\<lparr>pmem := store64 (pmem s) a (share_parent e)\<rparr> else s)"
  obtains (fail) s' where "mappages s1 new va PGSIZE (PTE2PA e) (share_flags e) = Ok (-1, s')"
      "vm_inv s' R X" "frame s R {} s'"
      "\<And>r' va'. r' \<in> R \<Longrightarrow> umap (pmem s') r' va' = (if r' = old \<and> va' = va then Some (share_parent e) else umap (pmem s) r' va')"
      "nfree s \<le> 1"
  | (shared) s2 s' where "mappages s1 new va PGSIZE (PTE2PA e) (share_flags e) = Ok (0, s2)"
      "kaddref s2 (PTE2PA e) = Ok s'" "vm_inv s' R X" "frame s R {} s'"
      "\<And>r' va'. r' \<in> R \<Longrightarrow> umap (pmem s') r' va' = (if r' = old \<and> va' = va then Some (share_parent e)
         else if r' = new \<and> va' = va then Some (share_child e) else umap (pmem s) r' va')"
      "nfree s \<le> nfree s' + 2"
proof -
  let ?p = "PTE2PA e"
  have n1: "nfree s1 = nfree s" by (simp add: s1 nfree_def)
  have u: "user_va va" "bit e 0" using um by (auto simp: umap_def pte_simps split: if_splits)
  have va: "pgaligned va" "va < MAXVA" using u user_va_less by (auto simp: user_va_def)
  have ok: "mapped_ok s R e" by (rule vm_invD(4) [OF inv r(1) um(1)])
  then have m: "ram s ?p" "0 < rc s ?p" "?p \<notin> tables (pmem s) R" by (simp_all add: mapped_ok_def)
  note b = share_bits [OF m(1)]
  note p1 = share_parent_vm [OF inv r(1) um(1) sl s1]
  have um1: "umap (pmem s1) old va = Some (share_parent e)" "umap (pmem s1) new va = None"
    using p1(4) [OF r(1)] p1(4) [OF r(2)] um r(3) by simp_all
  have m1: "ram s1 ?p" "0 < rc s1 ?p" "?p \<notin> tables (pmem s1) R" using frame_page [OF p1(2) m] by simp_all
  have nw1: "\<not> writable (pmem s1) R ?p"
    using not_writable [OF p1(1) _ r(1) um1(1) b(3)] X b(1) by simp
  have free: "pte 2 (pmem s1) new va AND PTE_V = 0" using um1(2) u(1) by (auto simp: umap_def split: if_splits)
  have e: "Some (share_child e) = (if user_va va then Some (PA2PTE ?p OR share_flags e OR PTE_V) else None)"
    and kern: "\<not> user_va va \<longrightarrow> share_flags e AND PTE_U = 0"
    and ok1: "user_va va \<longrightarrow> mapped_ok s1 R (PA2PTE ?p OR share_flags e OR PTE_V)"
    using u m1 b(2,4) unfolding share_child_def mapped_ok_def by (simp_all add: pte_simps)
  show thesis
  proof (cases rule: mappages_vm [OF p1(1) r(2) va free pgaligned_PTE2PA ram_56 [OF m1(1)] share_flags_less ok1 kern e,
        case_names fail mapped])
    case (fail s')
    then show thesis using that(1) [of s'] frame_step [OF p1(2)] p1(4) n1 by simp
  next
    case (mapped s2)
    have f: "frame s1 R {} s2" using mapped(3) u by simp
    have m2: "ram s2 ?p" "0 < rc s2 ?p" "?p \<notin> tables (pmem s2) R" using frame_page [OF f m1] by simp_all
    have nw2: "\<not> writable (pmem s2) R ?p"
      using nw1 mapped(5) b(4) by (auto simp: writable_def pte_simps split: if_splits)
    obtain s' where k: "kaddref s2 ?p = Ok s'"
      "vm_inv s' R ((\<lambda>x. X x - refs (Some (share_child e)) x)(?p := X ?p - refs (Some (share_child e)) ?p + 1))"
      "keeps s2 {} s'" "pmem s' = pmem s2" "nfree s' = nfree s2"
      by (rule kaddref_vm [OF mapped(2) m2 nw2]) (rule that)
    have "(\<lambda>x. X x - refs (Some (share_child e)) x)(?p := X ?p - refs (Some (share_child e)) ?p + 1) = X"
      using b(2) by (auto simp: refs_def fun_eq_iff)
    then have i': "vm_inv s' R X" using k(2) by simp
    have "frame s2 R {} s'" using frame_tables [OF _ vm_invD(2) [OF mapped(2)] k(3)] k(4) by simp
    then have fr: "frame s R {} s'" by (rule frame_step [OF frame_step [OF p1(2) f]])
    show thesis
      by (rule that(2) [OF mapped(1) k(1) i' fr]) (use mapped(5,9) p1(4) k(4,5) r(3) n1 in auto)
  qed
qed

section \<open>The loop\<close>

definition copied :: "phys \<Rightarrow> uint64 set \<Rightarrow> (uint64 \<Rightarrow> int) \<Rightarrow> uint64 \<Rightarrow> uint64 \<Rightarrow> uint64 \<Rightarrow> phys \<Rightarrow> bool" where
  "copied s R X old new i s' \<longleftrightarrow> vm_inv s' R X \<and> frame s R {} s' \<and>
     (\<forall>r\<in>R. \<forall>va. umap (pmem s') r va =
        (if r = old \<and> va < i then map_option share_parent (umap (pmem s) old va)
         else if r = new \<and> va < i then map_option share_child (umap (pmem s) old va)
         else umap (pmem s) r va))"

lemma copiedD:
  assumes "copied s R X old new i s'"
  shows "vm_inv s' R X" "frame s R {} s'"
    "\<And>r va. r \<in> R \<Longrightarrow> umap (pmem s') r va =
       (if r = old \<and> va < i then map_option share_parent (umap (pmem s) old va)
        else if r = new \<and> va < i then map_option share_child (umap (pmem s) old va)
        else umap (pmem s) r va)"
  using assms by (simp_all add: copied_def)

text \<open>
  A failed copy: the child's mappings are gone, and the parent may be left with
  copy-on-write entries for pages it owns alone.
\<close>

definition copy_failed :: "phys \<Rightarrow> uint64 set \<Rightarrow> (uint64 \<Rightarrow> int) \<Rightarrow> uint64 \<Rightarrow> phys \<Rightarrow> bool" where
  "copy_failed s R X old s' \<longleftrightarrow> vm_inv s' R X \<and> frame s R {} s' \<and>
     (\<forall>r\<in>R. \<forall>va. umap (pmem s') r va = umap (pmem s) r va \<or>
        r = old \<and> umap (pmem s') r va = map_option share_parent (umap (pmem s) r va))"

lemma mappings_shared:
  assumes inv: "vm_inv s R X"
    and um: "\<And>r va. r \<in> R \<Longrightarrow> umap m' r va = umap (pmem s) r va \<or>
        umap m' r va = map_option share_parent (umap (pmem s) r va)"
  shows "mappings m' R = mappings (pmem s) R"
proof -
  have "map_option PTE2PA (umap m' r va) = map_option PTE2PA (umap (pmem s) r va)" if "r \<in> R" for r va
  proof (cases "umap (pmem s) r va")
    case (Some e)
    then show ?thesis using um [OF that, of va] vm_invD(4) [OF inv that Some] share_bits(1) [of s e]
      by (auto simp: mapped_ok_def)
  qed (use um [OF that, of va] in auto)
  moreover have "mappings m R p = {(r, va). r \<in> R \<and> map_option PTE2PA (umap m r va) = Some p}" for m p
    by (auto simp: mappings_def)
  ultimately show ?thesis by (intro ext) (simp del: map_option_eq_Some cong: conj_cong)
qed

lemma copy_undo:
  assumes inv: "vm_inv s0 R X" and X: "\<And>x. 0 \<le> X x" and r: "old \<in> R" "new \<in> R" "old \<noteq> new"
    and i: "pgaligned i" "i \<le> TRAPFRAME" and fresh: "\<And>va. umap (pmem s0) new va = None"
    and s: "vm_inv s R X" "frame s0 R {} s"
      "\<And>r va. r \<in> R \<Longrightarrow> umap (pmem s) r va =
       (if r = old \<and> va \<le> i then map_option share_parent (umap (pmem s0) old va)
        else if r = new \<and> va < i then map_option share_child (umap (pmem s0) old va)
        else umap (pmem s0) r va)"
  shows "\<exists>s'. uvmunmap s new 0 (i div PGSIZE) True = Ok s' \<and> copy_failed s0 R X old s'"
proof -
  have d: "4096 dvd unat i" using i(1) by (simp add: pgaligned_dvd)
  have le: "unat i \<le> unat TRAPFRAME" using i(2) by (simp add: word_le_nat_alt)
  have ui: "4096 * unat (i div 4096) = unat i" using d by (simp add: unat_div)
  have im: "i div 4096 * 4096 = i"
    using ui unat64_less [of i] by (simp add: word_unat_eq_iff unat_word_ariths mult.commute)
  obtain s' where s': "uvmunmap s new 0 (i div PGSIZE) True = Ok s'" "unmapped s R X new 0 i s'"
    using uvmunmap_vm [OF s(1) X r(2), of 0 "i div PGSIZE"] ui le im by (auto simp: pgaligned_def)
  note u = unmappedD [OF s'(2)]
  have um: "umap (pmem s') r va = umap (pmem s0) r va \<or>
      r = old \<and> umap (pmem s') r va = map_option share_parent (umap (pmem s0) r va)" if "r \<in> R" for r va
    using u(2) [OF that, of va] s(3) [OF that, of va] fresh r(3) by auto
  have "mappings (pmem s') R = mappings (pmem s0) R" using um by (intro mappings_shared [OF inv]) blast
  from frame_undo [OF inv s(2) u(4,1) this] show ?thesis using s'(1) u(1) um by (auto simp: copy_failed_def)
qed

lemma copied_step:
  assumes c: "copied s0 R X old new i s" and r: "old \<in> R" "new \<in> R" "old \<noteq> new"
    and i: "pgaligned i" "i < TRAPFRAME"
    and s': "vm_inv s' R X" "frame s R {} s'"
      "\<And>r va. r \<in> R \<Longrightarrow> umap (pmem s') r va =
         (if r = old \<and> va = i then map_option share_parent (umap (pmem s) old i)
          else if r = new \<and> va = i then map_option share_child (umap (pmem s) old i) else umap (pmem s) r va)"
  shows "copied s0 R X old new (i + 4096) s'"
proof -
  note d = copiedD [OF c]
  have tf: "pgaligned TRAPFRAME" by (simp add: pgaligned_def)
  have "umap (pmem s') r va = (if r = old \<and> va < i + 4096 then map_option share_parent (umap (pmem s0) old va)
        else if r = new \<and> va < i + 4096 then map_option share_child (umap (pmem s0) old va)
        else umap (pmem s0) r va)" if "r \<in> R" for r va
  proof (cases "pgaligned va")
    case True
    then show ?thesis
      using s'(3) [OF that, of va] d(3) [OF that, of va] d(3) [OF r(1), of i] page_next [OF i(1) tf i(2) True] r(3)
      by auto
  qed (simp add: umap_def user_va_def)
  then show ?thesis using s'(1) frame_step [OF d(2) s'(2)] by (simp add: copied_def)
qed

lemma copied_trim:
  assumes c: "copied s R X old new b s'" and sz: "\<And>va. pgaligned va \<Longrightarrow> va < b \<longleftrightarrow> va < sz"
  shows "copied s R X old new sz s'"
proof -
  note d = copiedD [OF c]
  have "umap (pmem s') r va = (if r = old \<and> va < sz then map_option share_parent (umap (pmem s) old va)
        else if r = new \<and> va < sz then map_option share_child (umap (pmem s) old va)
        else umap (pmem s) r va)" if "r \<in> R" for r va
  proof (cases "pgaligned va")
    case True
    then show ?thesis using d(3) [OF that, of va] sz by simp
  qed (simp add: umap_def user_va_def)
  then show ?thesis using d(1,2) by (simp add: copied_def)
qed

lemma uvmcopy_loop_vm:
  assumes inv: "vm_inv s0 R X" and X: "\<And>x. 0 \<le> X x" and r: "old \<in> R" "new \<in> R" "old \<noteq> new"
    and sz: "sz \<le> TRAPFRAME" and fresh: "\<And>va. umap (pmem s0) new va = None"
    and "copied s0 R X old new i s" and "pgaligned i" and "unat sz \<le> unat i + 4096 * n"
    and "\<And>va. pgaligned va \<Longrightarrow> va < i \<Longrightarrow> va < sz" and "nfree s0 \<le> nfree s + 2 * (unat i div 4096)"
  shows "(\<exists>s'. uvmcopy_loop (Suc n) s old new i sz = Ok (0, s') \<and> copied s0 R X old new sz s' \<and>
      nfree s0 \<le> nfree s' + 2 * (unat sz div 4096 + 1)) \<or>
    (\<exists>s'. uvmcopy_loop (Suc n) s old new i sz = Ok (-1, s') \<and> copy_failed s0 R X old s' \<and>
      nfree s0 < 2 * (unat sz div 4096 + 1))"
  using assms(8-)
proof (induction n arbitrary: s i)
  case 0
  have "\<not> i < sz" using 0(3) by (simp add: word_less_nat_alt)
  moreover from this have "copied s0 R X old new sz s" using 0(4) by (intro copied_trim [OF 0(1)]) fastforce
  ultimately show ?case using pages_bound [OF 0(2,4,5)] by simp
next
  case (Suc n)
  note c = Suc.prems(1) and i = Suc.prems(2) and d = copiedD [OF Suc.prems(1)]
  show ?case
  proof (cases "i < sz")
    case False
    moreover from this have "copied s0 R X old new sz s" using Suc.prems(4) by (intro copied_trim [OF c]) fastforce
    ultimately show ?thesis using pages_bound [OF i Suc.prems(4,5)] by simp
  next
    case True
    have it: "i < TRAPFRAME" using True sz by (rule order.strict_trans2)
    have tf: "pgaligned TRAPFRAME" by (simp add: pgaligned_def)
    note ps = page_step [OF i tf it]
    have u: "user_va i" using i it by (simp add: user_va_def)
    have next_page: "?thesis" if eq: "uvmcopy_loop (Suc (Suc n)) s old new i sz = uvmcopy_loop (Suc n) s1 old new (i + 4096) sz"
      and s1: "vm_inv s1 R X" "frame s R {} s1"
      "\<And>r va. r \<in> R \<Longrightarrow> umap (pmem s1) r va =
         (if r = old \<and> va = i then map_option share_parent (umap (pmem s) old i)
          else if r = new \<and> va = i then map_option share_child (umap (pmem s) old i) else umap (pmem s) r va)"
      and nf: "nfree s \<le> nfree s1 + 2" for s1
    proof -
      have "nfree s0 \<le> nfree s1 + 2 * (unat (i + 4096) div 4096)" using Suc.prems(5) nf by (simp add: ps(3) div_page_Suc)
      moreover have "unat sz \<le> unat (i + 4096) + 4096 * n" using Suc.prems(3) ps(3) by simp
      moreover have "va < sz" if "pgaligned va" "va < i + 4096" for va
        using that(2) True page_next [OF i tf it that(1)] Suc.prems(4) [OF that(1)] by blast
      ultimately show ?thesis unfolding eq
        by (intro Suc.IH copied_step [OF c r i it s1] ps(2))
    qed
    have new: "umap (pmem s) new i = None" using d(3) [OF r(2), of i] fresh r(3) by simp
    show ?thesis
    proof (cases "umap (pmem s) old i")
      case None
      have "uvmcopy_loop (Suc (Suc n)) s old new i sz = uvmcopy_loop (Suc n) s old new (i + 4096) sz"
        by (rule walk_vm [OF d(1) r(1) user_va_less [OF u]])
          (use None u True in \<open>auto simp: umap_def split: if_splits\<close>)
      then show ?thesis by (rule next_page) (use d(1) None new in auto)
    next
      case (Some e)
      then have e: "e = pte 2 (pmem s) old i" "e AND PTE_V \<noteq> 0" by (auto simp: umap_def split: if_splits)
      obtain w where w: "walk s old i False = Ok (w, s)" "w \<noteq> 0" "slot 2 (pmem s) old i = Some w" "load64 (pmem s) w = e"
        by (rule walk_vm [OF d(1) r(1) user_va_less [OF u]]) (use e in auto)
      define s1 where "s1 = (if PTE_FLAGS e AND PTE_W \<noteq> 0 then s\<lparr>pmem := store64 (pmem s) w (share_parent e)\<rparr> else s)"
      have eq: "uvmcopy_loop (Suc (Suc n)) s old new i sz =
          bindR (mappages s1 new i PGSIZE (PTE2PA e) (share_flags e)) (\<lambda>(r, s).
            if r \<noteq> 0 then bindR (uvmunmap s new 0 (i div PGSIZE) True) (\<lambda>s. Ok (-1, s))
            else bindR (kaddref s (PTE2PA e)) (\<lambda>s. uvmcopy_loop (Suc n) s old new (i + PGSIZE) sz))"
        using w e(2) True by (simp add: s1_def share_parent_def share_flags_def Let_def)
      show ?thesis
      proof (cases rule: share_page_vm [OF d(1) X r Some new w(3) s1_def, case_names fail shared])
        case (fail s')
        have e0: "umap (pmem s0) old i = Some e" using d(3) [OF r(1), of i] Some r(3) by simp
        have um: "umap (pmem s') r va = (if r = old \<and> va \<le> i then map_option share_parent (umap (pmem s0) old va)
          else if r = new \<and> va < i then map_option share_child (umap (pmem s0) old va)
          else umap (pmem s0) r va)" if "r \<in> R" for r va
          using fail(4) [OF that, of va] d(3) [OF that, of va] e0 by (auto simp: order_le_less)
        have "i \<le> TRAPFRAME" using it by simp
        from copy_undo [OF inv X r i this fresh fail(2) frame_step [OF d(2) fail(3)] um]
        moreover have "nfree s0 < 2 * (unat sz div 4096 + 1)"
          using fail(5) Suc.prems(5) True div_le_mono [of "unat i" "unat sz" 4096] by (simp add: word_less_nat_alt)
        ultimately show ?thesis using eq fail(1) by auto
      next
        case (shared s2 s3)
        then have "uvmcopy_loop (Suc (Suc n)) s old new i sz = uvmcopy_loop (Suc n) s3 old new (i + 4096) sz"
          using eq by simp
        then show ?thesis by (rule next_page) (use shared Some in auto)
      qed
    qed
  qed
qed

theorem uvmcopy_vm:
  assumes inv: "vm_inv s R X" and X: "\<And>x. 0 \<le> X x" and r: "old \<in> R" "new \<in> R" "old \<noteq> new"
    and sz: "sz \<le> TRAPFRAME" and fresh: "\<And>va. umap (pmem s) new va = None"
  shows "(\<exists>s'. uvmcopy s old new sz = Ok (0, s') \<and> copied s R X old new sz s' \<and>
      nfree s \<le> nfree s' + 2 * (unat sz div 4096 + 1)) \<or>
    (\<exists>s'. uvmcopy s old new sz = Ok (-1, s') \<and> copy_failed s R X old s' \<and> nfree s < 2 * (unat sz div 4096 + 1))"
proof -
  have c: "copied s R X old new 0 s" using inv by (simp add: copied_def)
  have "unat sz \<le> unat (0 :: uint64) + 4096 * (unat sz div 4096 + 1)"
    using div_mult_mod_eq [of "unat sz" 4096] mod_less_divisor [of 4096 "unat sz"] by simp
  from uvmcopy_loop_vm [OF inv X r sz fresh c _ this] show ?thesis
    by (simp only: uvmcopy_def add_2_eq_Suc' Suc_eq_plus1 [symmetric]) (simp add: pgaligned_def)
qed

end
