(* ===== verification/Vm_Life.thy ===== *)
theory Vm_Life
  imports Vm_Fork
begin

text \<open>
  The life of a page table: \<^verbatim>\<open>uvmcreate()\<close> adds an empty one, \<^verbatim>\<open>freewalk()\<close> gives back
  the pages of one whose mappings are gone, and \<^verbatim>\<open>uvmfree()\<close> unmaps and frees.
\<close>

section \<open>Creating a page table\<close>

lemma add_root_vm:
  assumes inv: "vm_inv s R X" and p: "ram s p" "rc s p = 1" "X p = 1" "p \<notin> tables (pmem s) R"
    and z: "zero_page (pmem s) p"
  shows "vm_inv s (insert p R) (X(p := 0))" "\<And>va. umap (pmem s) p va = None" "p \<notin> R"
    "tables (pmem s) (insert p R) = insert p (tables (pmem s) R)"
proof -
  note i = vm_invD [OF inv] and zt = zero_page_tree [OF z ram_pgaligned [OF p(1)]]
  show un: "umap (pmem s) p va = None" for va by (simp add: umap_def zt(3))
  show tb: "tables (pmem s) (insert p R) = insert p (tables (pmem s) R)" by (simp add: tables_def zt(1))
  show pR: "p \<notin> R" using p(4) i(8) root_in_nodes by blast
  have mp: "mappings (pmem s) (insert p R) = mappings (pmem s) R" using un by (auto simp: mappings_def fun_eq_iff)
  have np: "card (mappings (pmem s) R p) = 0" using i(5) [OF p(1)] p by simp
  have "sealed (pmem s) p" by (simp add: sealed_def zt(3))
  moreover have "nodes 2 (pmem s) r \<inter> {p} = {}" if "r \<in> R" for r using i(8) [OF that] p(4) by blast
  ultimately have "forest (pmem s) (insert p R)"
    using i(2) zt(1) [of 2] zt(2) [of 2] by (simp add: forest_def Int_commute)
  moreover have "mapped_ok s (insert p R) e" if "r \<in> insert p R" "umap (pmem s) r va = Some e" for r va e
  proof -
    have r: "r \<in> R" using that un by auto
    have "PTE2PA e \<noteq> p" using np r that(2) by (auto simp: mappings_def)
    then show ?thesis using i(4) [OF r that(2)] tb by (simp add: mapped_ok_def)
  qed
  moreover have "rc s x = of_bool (x \<in> tables (pmem s) (insert p R)) + int (card (mappings (pmem s) (insert p R) x)) + (X(p := 0)) x"
    if "ram s x" for x
    using i(5) [OF that] np p tb mp by (cases "x = p") auto
  moreover have "ram s x \<and> rc s x = 1" if "x \<in> tables (pmem s) (insert p R)" for x
    using that i(3) [of x] p(1,2) tb by auto
  ultimately show "vm_inv s (insert p R) (X(p := 0))" using i(1) by (intro vm_invI) blast+
qed

lemma uvmcreate_vm:
  assumes inv: "vm_inv s R X"
  obtains (fail) "uvmcreate s = (0, s)" "freelist s = 0"
  | (new) p s' where "uvmcreate s = (p, s')" "p \<noteq> 0" "vm_inv s' (insert p R) X" "p \<notin> R" "frame s R {} s'"
      "\<And>r. r \<in> R \<Longrightarrow> umap (pmem s') r = umap (pmem s) r" "\<And>va. umap (pmem s') p va = None"
      "\<And>va. kpte (pmem s') p va = 0" "nfree s = nfree s' + 1"
proof -
  obtain p s1 where k: "kalloc s = (p, s1)" by force
  show thesis
  proof (cases "p = 0")
    case True
    then show thesis using fail k kalloc_None [of s s1] by (simp add: uvmcreate_def)
  next
    case False
    define s2 where "s2 = s1\<lparr>pmem := memset (pmem s1) p 0 4096\<rparr>"
    note z = zalloc_vm [OF inv k False s2_def]
    have "(X(p := 1)) p = 1" by simp
    note ar = add_root_vm [OF z(1,5,4) this z(6,3)]
    have "(X(p := 1))(p := 0) = X" using z(7) by auto
    with ar(1) have "vm_inv s2 (insert p R) X" by (rule back_subst)
    moreover have "umap (pmem s2) r = umap (pmem s) r" if "r \<in> R" for r
      by (rule forest_agree(3) [OF vm_invD(2) [OF inv] z(9) that])
    moreover have "kpte (pmem s2) p va = 0" for va
      using zero_page_tree(3) [OF z(3) ram_pgaligned [OF z(5)]] by (simp add: kpte_def)
    ultimately show thesis
      using new [of p s2] k False ar(2,3) z(2,12) by (simp add: uvmcreate_def s2_def)
  qed
qed

text \<open>With no page table, every reference is the kernel's.\<close>

lemma vm_inv_boot: "kmem_inv s \<Longrightarrow> vm_inv s {} (rc s)"
  by (intro vm_invI) (auto simp: forest_def tables_def mappings_def)

section \<open>Freeing the pages of a tree\<close>

primrec empty_tree :: "nat \<Rightarrow> mem \<Rightarrow> uint64 \<Rightarrow> bool" where
  "empty_tree 0 m p \<longleftrightarrow> (\<forall>i<512. load64 m (p + 8 * i) AND PTE_V = 0)"
| "empty_tree (Suc l) m p \<longleftrightarrow> (\<forall>i<512. \<forall>q. child m p i = Some q \<longrightarrow> empty_tree l m q)"

definition freed :: "phys \<Rightarrow> uint64 set \<Rightarrow> uint64 set \<Rightarrow> phys \<Rightarrow> bool" where
  "freed s P N s' \<longleftrightarrow> kmem_inv s' \<and> kend s' = kend s \<and>
     (\<forall>x. pgaligned x \<longrightarrow> rc s' x = (if x \<in> N then 0 else rc s x)) \<and> agree (- (P \<union> N)) (pmem s) (pmem s')"

lemma freedD:
  assumes "freed s P N s'"
  shows "kmem_inv s'" "kend s' = kend s" "\<And>x. pgaligned x \<Longrightarrow> rc s' x = (if x \<in> N then 0 else rc s x)"
    "agree (- (P \<union> N)) (pmem s) (pmem s')"
  using assms by (auto simp: freed_def)

lemma freed_trans:
  assumes "freed s P N s1" and "freed s1 P M s2"
  shows "freed s P (N \<union> M) s2"
proof -
  have "agree (- (P \<union> (N \<union> M))) (pmem s) (pmem s2)"
    by (rule agree_trans [OF agree_subset [OF freedD(4) [OF assms(1)]] agree_subset [OF freedD(4) [OF assms(2)]]]) auto
  then show ?thesis using assms by (auto simp: freed_def)
qed

lemma freed_mono: "freed s P N s' \<Longrightarrow> P \<subseteq> Q \<union> N \<Longrightarrow> freed s Q N s'"
  by (auto simp: freed_def elim!: agree_subset)

lemma kfree_freed:
  assumes "kmem_inv s" and "ram s p" and "rc s p = 1"
  shows "\<exists>s'. kfree s p = Ok s' \<and> freed s {} {p} s'"
proof -
  obtain s' where k: "kfree s p = Ok s'" using kfree_cases [OF assms(2)] assms(3) by auto
  then show ?thesis
    using kfree_inv [OF assms(1) k] kfree_rc(1) [OF k] kfree_pmem(1,3) [OF k] assms(3) by (auto simp: freed_def)
qed

lemma empty_tree_agree:
  "wf_pt l m p \<Longrightarrow> agree (nodes l m p) m m' \<Longrightarrow> empty_tree l m p \<Longrightarrow> empty_tree l m' p"
proof (induction l arbitrary: p)
  case 0
  then show ?case using agree_load64 [OF 0(2) wf_pt_aligned [OF 0(1)] root_in_nodes] by simp
next
  case (Suc l)
  have "empty_tree l m' q" if q: "i < 512" "child m' p i = Some q" for i q
  proof -
    have c: "child m p i = Some q"
      using q child_agree [OF Suc.prems(2) root_in_nodes wf_pt_aligned [OF Suc.prems(1)] q(1)] by simp
    have "agree (nodes l m q) m m'" using Suc.prems(2) nodes_child [OF q(1) c] by (rule agree_subset)
    then show ?thesis
      using Suc.IH [OF wf_pt_child(1) [OF Suc.prems(1) q(1) c]] Suc.prems(3) q(1) c by auto
  qed
  then show ?case by simp
qed

text \<open>The pages below the first \<open>k\<close> entries of a page.\<close>

definition kids :: "nat \<Rightarrow> mem \<Rightarrow> uint64 \<Rightarrow> nat \<Rightarrow> uint64 set" where
  "kids l m p k = (\<Union>j\<in>{j. j < 512 \<and> unat j < k}. case child m p j of None \<Rightarrow> {} | Some q \<Rightarrow> nodes l m q)"

lemma kids_all: "nodes (Suc l) m p = insert p (kids l m p 512)"
proof -
  have "{j :: uint64. j < 512} = {j. j < 512 \<and> unat j < 512}" by (auto simp: word_less_nat_alt)
  then show ?thesis by (simp add: nodes.simps kids_def)
qed

lemma kids_Suc:
  assumes "k < 512"
  shows "kids l m p (Suc k) = kids l m p k \<union> (case child m p (of_nat k) of None \<Rightarrow> {} | Some q \<Rightarrow> nodes l m q)"
proof -
  have "{j :: uint64. j < 512 \<and> unat j < Suc k} = insert (of_nat k) {j. j < 512 \<and> unat j < k}"
    using assms by (auto simp: less_Suc_eq word_less_nat_alt unat_of_nat word_unat_eq_iff)
  then show ?thesis by (simp add: kids_def Un_commute)
qed

lemma kids_root: "wf_pt (Suc l) m p \<Longrightarrow> p \<notin> kids l m p k"
  by (auto simp: kids_def wf_pt.simps split: option.splits)

lemma kids_0 [simp]: "kids l m p 0 = {}"
  by (simp add: kids_def)

lemma kids_nodes: "kids l m p k \<subseteq> nodes (Suc l) m p"
  by (auto simp: kids_def nodes.simps split: option.splits)

lemma kids_others: "wf_pt (Suc l) m p \<Longrightarrow> k < 512 \<Longrightarrow> kids l m p k \<subseteq> others l m p (of_nat k)"
  by (auto simp: kids_def others_def unat_of_nat)

definition freewalk_entry :: "nat \<Rightarrow> uint64 \<Rightarrow> nat \<Rightarrow> phys \<Rightarrow> phys res" where
  "freewalk_entry d pagetable i s =
     (let pte = load64 (pmem s) (pagetable + 8 * of_nat i) in
      if pte AND PTE_V \<noteq> 0 \<and> pte AND (PTE_R OR PTE_W OR PTE_X) = 0
      then bindR (freewalk_levels d s (PTE2PA pte)) (\<lambda>s.
           Ok (s\<lparr>pmem := store64 (pmem s) (pagetable + 8 * of_nat i) 0\<rparr>))
      else if pte AND PTE_V \<noteq> 0 then Panic ''freewalk: leaf''
      else Ok s)"

lemma freewalk_levels_eq:
  "freewalk_levels (Suc d) s p = bindR (foldR (freewalk_entry d p) [0..<512] s) (\<lambda>s. kfree s p)"
  by (simp add: freewalk_entry_def [abs_def])

lemma freewalk_step:
  assumes IH: "\<And>s q. kmem_inv s \<Longrightarrow> wf_pt l (pmem s) q \<Longrightarrow> empty_tree l (pmem s) q \<Longrightarrow>
      (\<forall>x\<in>nodes l (pmem s) q. ram s x \<and> rc s x = 1) \<Longrightarrow>
      \<exists>s'. freewalk_levels (Suc l) s q = Ok s' \<and> freed s {} (nodes l (pmem s) q) s'"
    and wf: "wf_pt (Suc l) (pmem s) p" and emp: "empty_tree (Suc l) (pmem s) p"
    and al: "\<And>x. x \<in> nodes (Suc l) (pmem s) p \<Longrightarrow> ram s x \<and> rc s x = 1"
    and k: "k < 512" and f: "freed s {p} (kids l (pmem s) p k) s1"
    and ld: "\<And>j. j < 512 \<Longrightarrow> k \<le> unat j \<Longrightarrow> load64 (pmem s1) (p + 8 * j) = load64 (pmem s) (p + 8 * j)"
  shows "\<exists>s2. freewalk_entry (Suc l) p k s1 = Ok s2 \<and> freed s {p} (kids l (pmem s) p (Suc k)) s2 \<and>
    (\<forall>j<512. Suc k \<le> unat j \<longrightarrow> load64 (pmem s2) (p + 8 * j) = load64 (pmem s) (p + 8 * j))"
proof -
  let ?i = "of_nat k :: uint64" and ?m = "pmem s"
  have i: "?i < 512" "unat ?i = k" using k by (simp_all add: word_less_nat_alt unat_of_nat)
  have v: "load64 (pmem s1) (p + 8 * ?i) = load64 ?m (p + 8 * ?i)" using ld i by simp
  note d = freedD [OF f] and alp = wf_pt_aligned [OF wf]
  show ?thesis
  proof (cases "child ?m p ?i")
    case None
    then have "freewalk_entry (Suc l) p k s1 = Ok s1"
      using v by (auto simp: freewalk_entry_def child_def Let_def split: if_splits)
    then show ?thesis using f ld None by (auto simp: kids_Suc [OF k])
  next
    case (Some q)
    let ?N = "nodes l ?m q"
    note wq = wf_pt_child [OF wf i(1) Some]
    have dj: "?N \<inter> (insert p (kids l ?m p k)) = {}"
      using wq(2) others_disjoint [OF wf i(1) Some] kids_others [OF wf k] by blast
    have ag: "agree ?N ?m (pmem s1)" using d(4) by (rule agree_subset) (use dj in auto)
    note ta = tree_agree [OF wq(1) ag]
    have sub: "?N \<subseteq> nodes (Suc l) ?m p" by (rule nodes_child [OF i(1) Some])
    have al1: "ram s1 x \<and> rc s1 x = 1" if "x \<in> ?N" for x
    proof -
      have "ram s x \<and> rc s x = 1" using al sub that by blast
      moreover have "x \<notin> kids l ?m p k" using dj that by blast
      ultimately show ?thesis using d(3) [OF ram_pgaligned, of s x] ram_cong [OF d(2), of x] by simp
    qed
    have e1: "empty_tree l (pmem s1) q" using empty_tree_agree [OF wq(1) ag] emp Some i(1) by simp
    obtain s2 where s2: "freewalk_levels (Suc l) s1 q = Ok s2" "freed s1 {} ?N s2"
      using IH [OF d(1) ta(2) e1] al1 ta(1) by auto
    note d2 = freedD [OF s2(2)]
    define s3 where "s3 = s2\<lparr>pmem := store64 (pmem s2) (p + 8 * ?i) 0\<rparr>"
    have fe: "freewalk_entry (Suc l) p k s1 = Ok s3"
      using v Some s2(1) wq(3) by (auto simp: freewalk_entry_def child_def Let_def s3_def split: if_splits)
    have ag3: "agree (- {p}) (pmem s2) (pmem s3)" unfolding s3_def by (simp add: agree_store64 [OF alp i(1)])
    have pk: "p \<notin> kids l ?m p k" by (rule kids_root [OF wf])
    have "rc s2 p = 1" using d(3) [OF alp] d2(3) [OF alp] al [OF root_in_nodes] pk wq(2) by simp
    then have "agree {x. ram s2 x \<and> rc s2 x = 0} (pmem s2) (pmem s3)" by (intro agree_subset [OF ag3]) auto
    then have "kmem_inv s3" using kmem_inv_agree [OF d2(1)] by (simp add: s3_def)
    then have "freed s2 {p} {} s3" using ag3 by (simp add: freed_def s3_def)
    moreover have "freed s {p} (kids l ?m p k \<union> ?N) s2"
      by (rule freed_trans [OF f freed_mono [OF s2(2)]]) simp
    ultimately have "freed s {p} (kids l ?m p k \<union> ?N) s3" using freed_trans by fastforce
    moreover have "load64 (pmem s3) (p + 8 * j) = load64 ?m (p + 8 * j)" if j: "j < 512" "Suc k \<le> unat j" for j
    proof -
      have "?i \<noteq> j" using j(2) i(2) by auto
      then have "p + 8 * ?i \<noteq> p + 8 * j" using slot_eq_iff [OF alp alp i(1) j(1)] by simp
      then have "load64 (pmem s3) (p + 8 * j) = load64 (pmem s2) (p + 8 * j)"
        using load64_store64_aligned [OF aligned8_slot [OF alp] aligned8_slot [OF alp]] by (simp add: s3_def)
      also have "\<dots> = load64 (pmem s1) (p + 8 * j)"
        by (rule agree_load64 [OF d2(4) alp _ j(1)]) (use wq(2) in simp)
      finally show ?thesis using ld [OF j(1)] j(2) by simp
    qed
    ultimately show ?thesis using fe Some by (auto simp: kids_Suc [OF k])
  qed
qed

lemma freewalk_levels_Ok:
  "kmem_inv s \<Longrightarrow> wf_pt l (pmem s) p \<Longrightarrow> empty_tree l (pmem s) p \<Longrightarrow>
   (\<forall>x\<in>nodes l (pmem s) p. ram s x \<and> rc s x = 1) \<Longrightarrow>
   \<exists>s'. freewalk_levels (Suc l) s p = Ok s' \<and> freed s {} (nodes l (pmem s) p) s'"
proof (induction l arbitrary: s p)
  case 0
  have "foldR (freewalk_entry 0 p) [0..<k] s = Ok s" if "k \<le> 512" for k
    using that
  proof (induction k)
    case (Suc k)
    then have "load64 (pmem s) (p + 8 * of_nat k) AND PTE_V = 0"
      using 0(3) by (simp add: word_less_nat_alt unat_of_nat)
    then show ?case using Suc by (simp add: foldR_append freewalk_entry_def Let_def)
  qed simp
  from this [of 512] show ?case
    using kfree_freed [OF 0(1), of p] 0(4) unfolding freewalk_levels_eq by simp
next
  case (Suc l)
  note outer = Suc.IH and inv = Suc.prems(1) and wf = Suc.prems(2) and emp = Suc.prems(3) and al = bspec [OF Suc.prems(4)]
  have step: "k \<le> 512 \<Longrightarrow> \<exists>s1. foldR (freewalk_entry (Suc l) p) [0..<k] s = Ok s1 \<and>
      freed s {p} (kids l (pmem s) p k) s1 \<and>
      (\<forall>j<512. k \<le> unat j \<longrightarrow> load64 (pmem s1) (p + 8 * j) = load64 (pmem s) (p + 8 * j))" for k
  proof (induction k)
    case 0
    then show ?case using inv by (simp add: freed_def)
  next
    case (Suc k)
    then obtain s1 where s1: "foldR (freewalk_entry (Suc l) p) [0..<k] s = Ok s1" "freed s {p} (kids l (pmem s) p k) s1"
      "\<And>j. j < 512 \<Longrightarrow> k \<le> unat j \<Longrightarrow> load64 (pmem s1) (p + 8 * j) = load64 (pmem s) (p + 8 * j)" by auto
    have k: "k < 512" using Suc.prems by simp
    obtain s2 where "freewalk_entry (Suc l) p k s1 = Ok s2" "freed s {p} (kids l (pmem s) p (Suc k)) s2"
      "\<forall>j<512. Suc k \<le> unat j \<longrightarrow> load64 (pmem s2) (p + 8 * j) = load64 (pmem s) (p + 8 * j)"
      using freewalk_step [OF outer wf emp al k s1(2,3)] by blast
    then show ?case using s1(1) by (simp add: foldR_append)
  qed
  from step [of 512] obtain s1 where s1: "foldR (freewalk_entry (Suc l) p) [0..<512] s = Ok s1"
    "freed s {p} (kids l (pmem s) p 512) s1" by auto
  note d = freedD [OF s1(2)] and alp = wf_pt_aligned [OF wf]
  have "ram s1 p" "rc s1 p = 1" using kids_root [OF wf, of 512] al [OF root_in_nodes] d(3) [OF alp] ram_cong [OF d(2)] by auto
  then obtain s' where s': "kfree s1 p = Ok s'" "freed s1 {} {p} s'" using kfree_freed [OF d(1)] by blast
  have "freed s {p} (kids l (pmem s) p 512 \<union> {p}) s'"
    by (rule freed_trans [OF s1(2) freed_mono [OF s'(2)]]) simp
  then have "freed s {} (nodes (Suc l) (pmem s) p) s'"
    using freed_mono [of s "{p}" "insert p (kids l (pmem s) p 512)" s' "{}"] by (simp add: kids_all)
  then show ?case using s1(1) s'(1) unfolding freewalk_levels_eq by simp
qed

text \<open>Every entry of a tree is the entry of some virtual address.\<close>

definition path_va :: "uint64 \<Rightarrow> uint64 \<Rightarrow> uint64 \<Rightarrow> uint64" where
  "path_va i2 i1 i0 = push_bit 30 i2 OR push_bit 21 i1 OR push_bit 12 i0"

lemma path_va:
  assumes "i2 < 512" and "i1 < 512" and "i0 < 512"
  shows "PX 2 (path_va i2 i1 i0) = i2" "PX 1 (path_va i2 i1 i0) = i1" "PX 0 (path_va i2 i1 i0) = i0"
    "pgaligned (path_va i2 i1 i0)" "bit (path_va i2 i1 i0) 38 \<or> path_va i2 i1 i0 < MAXVA"
proof -
  have b: "bit i2 n \<Longrightarrow> n < 9" "bit i1 n \<Longrightarrow> n < 9" "bit i0 n \<Longrightarrow> n < 9" for n
    using assms less_exp_bitD [of i2 9 n] less_exp_bitD [of i1 9 n] less_exp_bitD [of i0 9 n] by simp_all
  have bp: "bit (path_va i2 i1 i0) n \<longleftrightarrow> 30 \<le> n \<and> bit i2 (n - 30) \<or> 21 \<le> n \<and> bit i1 (n - 21) \<or> 12 \<le> n \<and> bit i0 (n - 12)"
    if "n < 64" for n
    using that by (auto simp: path_va_def bit_simps)
  show "PX 2 (path_va i2 i1 i0) = i2" "PX 1 (path_va i2 i1 i0) = i1" "PX 0 (path_va i2 i1 i0) = i0"
    by (rule bit_word_eqI, use b bp in \<open>fastforce simp: PX_bit\<close>)+
  show "pgaligned (path_va i2 i1 i0)" by (auto simp: pgaligned_bit bp)
  show "bit (path_va i2 i1 i0) 38 \<or> path_va i2 i1 i0 < MAXVA"
  proof (rule disjCI)
    assume "\<not> path_va i2 i1 i0 < MAXVA"
    then have "\<not> (\<forall>n. bit (path_va i2 i1 i0) n \<longrightarrow> n < 38)"
      using bit_less_exp [of "path_va i2 i1 i0" 38] by auto
    then obtain n where n: "bit (path_va i2 i1 i0) n" "38 \<le> n" by (auto simp: not_less)
    then have "n < 64" using bit_imp_le_length [OF n(1)] by simp
    from bp [OF this] n have "n = 38" using b [of "n - 30"] b [of "n - 21"] b [of "n - 12"] by auto
    then show "bit (path_va i2 i1 i0) 38" using n by simp
  qed
qed

lemma pte_empty_tree:
  assumes "\<And>va. pgaligned va \<Longrightarrow> va < MAXVA \<Longrightarrow> pte 2 m r va AND PTE_V = 0" and "sealed m r"
  shows "empty_tree 2 m r"
proof -
  have "load64 m (q0 + 8 * i0) AND PTE_V = 0"
    if i: "i2 < 512" "i1 < 512" "i0 < 512" and q: "child m r i2 = Some q1" "child m q1 i1 = Some q0" for i2 i1 i0 q1 q0
  proof -
    let ?va = "path_va i2 i1 i0"
    note pv = path_va [OF i]
    have "pte 2 m r ?va = load64 m (q0 + 8 * i0)"
      using pv(1-3) q by (simp add: pte_def numeral_2_eq_2)
    moreover have "pte 2 m r ?va AND PTE_V = 0"
      using assms(1) [OF pv(4)] assms(2) pv(5) by (auto simp: sealed_def)
    ultimately show ?thesis by simp
  qed
  then show ?thesis by (simp add: numeral_2_eq_2)
qed

section \<open>Freeing an address space\<close>

text \<open>Dropping a table whose pages have been freed.\<close>

lemma drop_root_vm:
  assumes inv: "vm_inv s R X" and r: "r \<in> R" and f: "freed s {} (nodes 2 (pmem s) r) s'"
    and un: "\<And>va. umap (pmem s) r va = None"
  shows "vm_inv s' (R - {r}) X" "\<And>r'. r' \<in> R - {r} \<Longrightarrow> umap (pmem s') r' = umap (pmem s) r'"
    "tables (pmem s') (R - {r}) = tables (pmem s) R - nodes 2 (pmem s) r"
proof -
  let ?N = "nodes 2 (pmem s) r"
  note i = vm_invD [OF inv] and d = freedD [OF f]
  have dj: "nodes 2 (pmem s) r' \<inter> ?N = {}" if "r' \<in> R - {r}" for r'
    using i(2) that r by (auto simp: forest_def)
  then have tb: "tables (pmem s) (R - {r}) = tables (pmem s) R - ?N" using r unfolding tables_def by blast
  have fo: "forest (pmem s) (R - {r})" using i(2) by (simp add: forest_def)
  have ag: "agree (tables (pmem s) (R - {r})) (pmem s) (pmem s')" using d(4) by (rule agree_subset) (use tb in auto)
  note fa = forest_agree [OF fo ag]
  show "umap (pmem s') r' = umap (pmem s) r'" if "r' \<in> R - {r}" for r' by (rule fa(3) [OF that])
  show tb': "tables (pmem s') (R - {r}) = tables (pmem s) R - ?N" using fa(1) tb by simp
  have mp: "mappings (pmem s) (R - {r}) = mappings (pmem s) R" using un by (auto simp: mappings_def fun_eq_iff)
  have rm: "ram s' x = ram s x" for x by (rule ram_cong [OF d(2)])
  have sub: "?N \<subseteq> tables (pmem s) R" by (rule i(8) [OF r])
  have rc': "rc s' x = (if x \<in> ?N then 0 else rc s x)" if "ram s x" for x using d(3) [OF ram_pgaligned [OF that]] .
  have "mapped_ok s' (R - {r}) e" if "r' \<in> R - {r}" "umap (pmem s') r' va = Some e" for r' va e
  proof -
    have "mapped_ok s R e" using i(4) [of r' va e] that fa(3) [OF that(1)] by simp
    then show ?thesis using rc' [of "PTE2PA e"] tb' sub rm by (auto simp: mapped_ok_def)
  qed
  moreover have "ram s' x \<and> rc s' x = 1" if "x \<in> tables (pmem s') (R - {r})" for x
    using that i(3) [of x] rc' [of x] tb' rm by auto
  moreover have "rc s' x = of_bool (x \<in> tables (pmem s') (R - {r})) + int (card (mappings (pmem s') (R - {r}) x)) + X x"
    if "ram s' x" for x
    using i(5) [of x] i(3) [of x] rc' [of x] that rm tb' fa(4) mp sub by (cases "x \<in> ?N") auto
  ultimately show "vm_inv s' (R - {r}) X" using d(1) fa(2) by (intro vm_invI) blast+
qed

lemma freewalk_vm:
  assumes inv: "vm_inv s R X" and r: "r \<in> R"
    and un: "\<And>va. pgaligned va \<Longrightarrow> va < MAXVA \<Longrightarrow> pte 2 (pmem s) r va AND PTE_V = 0"
  shows "\<exists>s'. freewalk s r = Ok s' \<and> freed s {} (nodes 2 (pmem s) r) s' \<and> vm_inv s' (R - {r}) X \<and>
    (\<forall>r'\<in>R - {r}. umap (pmem s') r' = umap (pmem s) r')"
proof -
  note i = vm_invD [OF inv]
  have "sealed (pmem s) r" using i(2) r by (simp add: forest_def)
  from pte_empty_tree [OF un this] have e: "empty_tree 2 (pmem s) r" .
  have "\<forall>x\<in>nodes 2 (pmem s) r. ram s x \<and> rc s x = 1" using i(3) i(8) [OF r] by blast
  from freewalk_levels_Ok [OF i(1) i(6) [OF r] e this]
  obtain s' where s': "freewalk_levels (Suc 2) s r = Ok s'" "freed s {} (nodes 2 (pmem s) r) s'" by blast
  have "umap (pmem s) r va = None" for va
    using un [of va] user_va_less [of va] by (auto simp: umap_def user_va_def)
  note dr = drop_root_vm [OF inv r s'(2) this]
  have "freewalk s r = Ok s'" using s'(1) by (simp add: freewalk_def numeral_3_eq_3 numeral_2_eq_2)
  then show ?thesis using s'(2) dr(1,2) by blast
qed

lemma uview_freed:
  assumes inv: "vm_inv s R X" and r: "r \<in> R" "r' \<in> R" and f: "freed s {} (nodes 2 (pmem s) r) s'"
    and um: "umap (pmem s') r' = umap (pmem s) r'"
  shows "uview (pmem s') r' va = uview (pmem s) r' va"
proof (cases "umap (pmem s) r' (PGROUNDDOWN va)")
  case (Some e)
  have "PGROUNDDOWN (PTE2PA e + (va - PGROUNDDOWN va)) = PTE2PA e"
    by (rule PGROUNDDOWN_plus [OF pgaligned_PTE2PA page_offset])
  moreover have "PTE2PA e \<notin> nodes 2 (pmem s) r"
    using vm_invD(4) [OF inv r(2) Some] vm_invD(8) [OF inv r(1)] by (auto simp: mapped_ok_def)
  ultimately show ?thesis using freedD(4) [OF f] Some um by (simp add: uview_def agree_def)
qed (use um in \<open>simp add: uview_def\<close>)

lemma uview_unmapped:
  assumes inv: "vm_inv s R X" and r: "r' \<in> R" "r' \<noteq> r" and u: "unmapped s R X r a b s'"
  shows "uview (pmem s') r' va = uview (pmem s) r' va"
proof (rule uview_frame [OF inv unmappedD(4) [OF u] r(1)])
  show um: "umap (pmem s') r' (PGROUNDDOWN va) = umap (pmem s) r' (PGROUNDDOWN va)"
    using unmappedD(2) [OF u r(1)] r(2) by simp
  show "PTE2PA e \<notin> {x. rc s' x = 0}" if "umap (pmem s) r' (PGROUNDDOWN va) = Some e" for e
    using vm_invD(4) [OF unmappedD(1) [OF u] r(1), of "PGROUNDDOWN va" e] um that by (auto simp: mapped_ok_def)
qed

text \<open>A page of the kernel's own is no page-table page.\<close>

lemma owned_page:
  assumes "vm_inv s R X" and "ram s x" and "1 \<le> X x"
  shows "0 < rc s x" "x \<notin> tables (pmem s) R"
  using vm_invD(5) [OF assms(1,2)] vm_invD(3) [OF assms(1), of x] assms(3) by (auto split: if_splits)

lemma uvmfree_vm:
  assumes inv: "vm_inv s R X" and X: "\<And>x. 0 \<le> X x" and r: "r \<in> R" and sz: "sz \<le> TRAPFRAME"
    and all: "\<And>va e. umap (pmem s) r va = Some e \<Longrightarrow> va < sz"
    and kern: "\<And>va. kpte (pmem s) r va AND PTE_V = 0"
  shows "\<exists>s'. uvmfree s r sz = Ok s' \<and> vm_inv s' (R - {r}) X \<and>
    (\<forall>r'\<in>R - {r}. umap (pmem s') r' = umap (pmem s) r' \<and> uview (pmem s') r' = uview (pmem s) r' \<and>
       kpte (pmem s') r' = kpte (pmem s) r') \<and>
    agree {x. ram s x \<and> 1 \<le> X x} (pmem s) (pmem s') \<and> kend s' = kend s"
proof -
  note pu = PGROUNDUP_user [OF sz]
  have ui: "4096 * unat (PGROUNDUP sz div 4096) = unat (PGROUNDUP sz)" by (simp add: unat_div pu(2))
  have top: "0 + PGROUNDUP sz div 4096 * 4096 = PGROUNDUP sz"
    using ui unat64_less [of "PGROUNDUP sz"] by (simp add: word_unat_eq_iff unat_word_ariths mult.commute)
  have "\<exists>s1. uvmunmap s r 0 (PGROUNDUP sz div PGSIZE) True = Ok s1 \<and> unmapped s R X r 0 (PGROUNDUP sz) s1"
    using uvmunmap_vm [OF inv X r, of 0 "PGROUNDUP sz div PGSIZE"] ui pu(4) top
    by (simp add: pgaligned_def word_le_nat_alt)
  moreover have "unmapped s R X r 0 (PGROUNDUP sz) s" if "sz = 0"
    using inv all that by (auto simp: unmapped_def PGROUNDUP_def)
  ultimately obtain s1 where s1: "(if sz > 0 then uvmunmap s r 0 (PGROUNDUP sz div PGSIZE) True else Ok s) = Ok s1"
    "unmapped s R X r 0 (PGROUNDUP sz) s1"
    by (cases "sz = 0") (auto simp: word_gt_0)
  note u = unmappedD [OF s1(2)]
  have un: "umap (pmem s1) r va = None" for va
  proof (cases "umap (pmem s) r va")
    case (Some e)
    then show ?thesis using u(2) [OF r, of va] all [OF Some] pu(3) by (auto elim: order.strict_trans2)
  qed (simp add: u(2) [OF r])
  have "pte 2 (pmem s1) r va AND PTE_V = 0" if "pgaligned va" "va < MAXVA" for va
    using un [of va] kern [of va] frame_kpte [OF u(4) r] that
    by (auto simp: umap_def kpte_def fun_eq_iff split: if_splits)
  from freewalk_vm [OF u(1) r this] obtain s' where s': "freewalk s1 r = Ok s'"
    "freed s1 {} (nodes 2 (pmem s1) r) s'" "vm_inv s' (R - {r}) X"
    "\<forall>r'\<in>R - {r}. umap (pmem s') r' = umap (pmem s1) r'" by blast
  have "umap (pmem s') r' = umap (pmem s) r' \<and> uview (pmem s') r' = uview (pmem s) r'" if "r' \<in> R - {r}" for r'
    using s'(4) that u(2) [of r'] uview_unmapped [OF inv _ _ s1(2), of r'] uview_freed [OF u(1) r _ s'(2), of r']
    by (auto simp: fun_eq_iff)
  moreover have "kpte (pmem s') r' = kpte (pmem s) r'" if "r' \<in> R - {r}" for r'
  proof -
    have ag: "agree (tables (pmem s1) (R - {r})) (pmem s1) (pmem s')"
      using freedD(4) [OF s'(2)] by (rule agree_subset) (use vm_invD(2) [OF u(1)] r in \<open>auto simp: tables_def forest_def\<close>)
    have "forest (pmem s1) (R - {r})" using vm_invD(2) [OF u(1)] by (simp add: forest_def)
    from forest_agree(6) [OF this ag that] have "kpte (pmem s') r' = kpte (pmem s1) r'" by (simp add: kpte_def fun_eq_iff)
    then show ?thesis using frame_kpte [OF u(4), of r'] that by simp
  qed
  moreover have "agree {x. ram s x \<and> 1 \<le> X x} (pmem s) (pmem s')"
  proof (rule agree_trans)
    have rm: "ram s1 x = ram s x" for x by (rule ram_cong [OF frame_kend [OF frame_frame0 [OF u(4)]]])
    show "agree {x. ram s x \<and> 1 \<le> X x} (pmem s) (pmem s1)"
      unfolding agree_def using frame_byte [OF u(4)] owned_page [OF inv] owned_page(1) [OF u(1)] rm by force
    show "agree {x. ram s x \<and> 1 \<le> X x} (pmem s1) (pmem s')"
      using freedD(4) [OF s'(2)] by (rule agree_subset) (use owned_page(2) [OF u(1)] vm_invD(8) [OF u(1) r] rm in auto)
  qed
  moreover have "kend s' = kend s" using freedD(2) [OF s'(2)] frame_kend [OF frame_frame0 [OF u(4)]] by simp
  ultimately show ?thesis using s1(1) s'(1,3) by (simp add: uvmfree_def)
qed

end
