(* ===== verification/Vm_Copy.thy ===== *)
theory Vm_Copy
  imports Vm_Life
begin

text \<open>
  \<^verbatim>\<open>copyout()\<close> and \<^verbatim>\<open>copyin()\<close> against the user's view of memory: a successful
  \<^verbatim>\<open>copyout()\<close> changes the view of the one process it writes for, exactly at the bytes
  written, whatever pages are shared copy-on-write; \<^verbatim>\<open>copyin()\<close> returns the bytes in view.
\<close>

definition view_ext :: "phys \<Rightarrow> uint64 set \<Rightarrow> uint64 \<Rightarrow> phys \<Rightarrow> bool" where
  "view_ext s R r s' \<longleftrightarrow> (\<forall>r'\<in>R. r' \<noteq> r \<longrightarrow> uview (pmem s') r' = uview (pmem s) r') \<and>
     (\<forall>va b. uview (pmem s) r va = Some b \<longrightarrow> uview (pmem s') r va = Some b)"

lemma view_ext_refl [simp]: "view_ext s R r s"
  by (simp add: view_ext_def)

lemma view_ext_trans: "view_ext s R r s1 \<Longrightarrow> view_ext s1 R r s2 \<Longrightarrow> view_ext s R r s2"
  by (simp add: view_ext_def)

text \<open>Frames with unchanged mappings, with one mapping added, and with one page copied.\<close>

lemma view_ext_add:
  assumes inv: "vm_inv s R X" and fr: "frame s R {} s'" and r: "r \<in> R"
    and um: "\<And>r' va'. r' \<in> R \<Longrightarrow> \<not> (r' = r \<and> va' = va) \<Longrightarrow> umap (pmem s') r' va' = umap (pmem s) r' va'"
    and here: "\<And>va'. PGROUNDDOWN va' = va \<Longrightarrow> uview (pmem s) r va' \<noteq> None \<Longrightarrow> uview (pmem s') r va' = uview (pmem s) r va'"
  shows "view_ext s R r s'"
proof -
  have "uview (pmem s') r' va' = uview (pmem s) r' va'" if "r' \<in> R" "\<not> (r' = r \<and> PGROUNDDOWN va' = va)" for r' va'
    using uview_frame [OF inv fr that(1) um [OF that]] by simp
  then show ?thesis using r here by (fastforce simp: view_ext_def fun_eq_iff)
qed

lemma view_ext_same:
  "vm_inv s R X \<Longrightarrow> frame s R {} s' \<Longrightarrow> (\<And>r'. r' \<in> R \<Longrightarrow> umap (pmem s') r' = umap (pmem s) r') \<Longrightarrow> r \<in> R \<Longrightarrow>
   view_ext s R r s'"
  using uview_frame [of s R X "{}" s'] by (simp add: view_ext_def fun_eq_iff)

lemma walkaddr_vm:
  assumes inv: "vm_inv s R X" and r: "r \<in> R" and va: "pgaligned va"
  shows "walkaddr s r va = Ok (case umap (pmem s) r va of None \<Rightarrow> 0 | Some e \<Rightarrow> if bit e 4 then PTE2PA e else 0)"
proof (cases "va < MAXVA")
  case False
  then have "umap (pmem s) r va = None" using user_va_less by (auto simp: umap_def)
  then show ?thesis using False by (simp add: walkaddr_def not_less)
next
  case True
  then have nva: "\<not> MAXVA \<le> va" by simp
  from inv r True show ?thesis
  proof (cases rule: walk_vm)
    case none
    then show ?thesis using nva by (simp add: walkaddr_def umap_def)
  next
    case (some a)
    then show ?thesis using nva umap_pte [OF inv r va True]
      by (auto simp: walkaddr_def umap_def pte_simps Let_def split: if_splits)
  qed
qed

lemma mapped_nonzero:
  assumes "vm_inv s R X" and "r \<in> R" and "umap (pmem s) r va = Some e"
  shows "PTE2PA e \<noteq> 0"
  using vm_invD(1) [OF assms(1)] vm_invD(4) [OF assms] ram_nonzero [of s "PTE2PA e"]
  by (auto simp: mapped_ok_def kmem_inv_def)

lemma zero_flags_bit: "n < 10 \<Longrightarrow> bit (PA2PTE p OR zero_flags OR PTE_V) n \<longleftrightarrow> n = 0 \<or> n = 1 \<or> n = 2 \<or> n = 4"
proof -
  assume "n < 10"
  then have "n \<in> {0,1,2,3,4,5,6,7,8,9}" by auto
  moreover have "\<not> bit (PA2PTE p) n" using mask_low_10 [of p n] \<open>n < 10\<close> by auto
  ultimately show ?thesis by (auto simp: zero_flags_def bit_simps)
qed

text \<open>The translation of \<^verbatim>\<open>va0\<close> at the head of both loops, faulting a lazy page in.\<close>

lemma fault_in_vm:
  assumes inv: "vm_inv s R X" and r: "r \<in> R" and psz: "psz \<le> TRAPFRAME" and va: "pgaligned va"
  obtains (fail) s1 where "bindR (walkaddr s r va) (\<lambda>pa0. if pa0 = 0 then vmfault psz r s r va else Ok (pa0, s)) = Ok (0, s1)"
      "vm_inv s1 R X" "frame s R {} s1" "view_ext s R r s1" "\<not> (\<exists>e. umap (pmem s) r va = Some e \<and> bit e 4)"
  | (ok) e s1 where "bindR (walkaddr s r va) (\<lambda>pa0. if pa0 = 0 then vmfault psz r s r va else Ok (pa0, s)) = Ok (PTE2PA e, s1)"
      "vm_inv s1 R X" "frame s R {} s1" "view_ext s R r s1" "umap (pmem s1) r va = Some e" "bit e 4"
      "PTE2PA e \<noteq> 0" "umap (pmem s) r va \<noteq> None \<Longrightarrow> s1 = s"
proof (cases "\<exists>e. umap (pmem s) r va = Some e \<and> bit e 4")
  case True
  then obtain e where e: "umap (pmem s) r va = Some e" "bit e 4" by blast
  then show thesis
    using inv walkaddr_vm [OF inv r va] mapped_nonzero [OF inv r e(1)] by (intro ok [of e s]) simp_all
next
  case False
  then have w: "walkaddr s r va = Ok 0" using walkaddr_vm [OF inv r va] by (auto split: option.splits)
  from inv r psz show thesis
  proof (cases rule: vmfault_vm [where va = va])
    case (no s')
    then show thesis using w r view_ext_same [OF inv no(3,4)] False by (intro fail [of s']) simp_all
  next
    case (new p s')
    let ?e = "PA2PTE p OR zero_flags OR PTE_V"
    have um: "umap (pmem s) r va = None" "umap (pmem s') r va = Some ?e" using new(4,9) va r by simp_all
    have pa: "PTE2PA ?e = p"
      using PTE2PA_mapping [OF ram_pgaligned ram_56, of s p s zero_flags] new(7) by (simp add: zero_flags_def)
    have "view_ext s R r s'"
      by (rule view_ext_add [OF inv new(6) r, of va]) (use new(9) va um in \<open>auto simp: uview_def\<close>)
    then show thesis using w new pa um zero_flags_bit [of 4 p] by (intro ok [of ?e s']) simp_all
  qed
qed

section \<open>Making a page writable\<close>

lemma cow_entry_bits:
  "ram s p \<Longrightarrow> bit e 0 \<Longrightarrow> bit (PA2PTE p OR cow_flags e) 0 \<and> bit (PA2PTE p OR cow_flags e) 2 \<and>
    bit (PA2PTE p OR cow_flags e) 4 = bit e 4 \<and> \<not> bit (PA2PTE p OR cow_flags e) 8"
  using cow_mapping(2) [of s p _ e] by simp

lemma view_ext_cow:
  assumes inv: "vm_inv s R X" and fr: "frame s R {} s'" and r: "r \<in> R" and p: "ram s p"
    and e: "umap (pmem s) r va = Some e"
    and um: "\<And>r' va'. r' \<in> R \<Longrightarrow> umap (pmem s') r' va' =
         (if r' = r \<and> va' = va then Some (PA2PTE p OR cow_flags e) else umap (pmem s) r' va')"
    and bytes: "\<And>off. off < 4096 \<Longrightarrow> pmem s' (p + off) = pmem s (PTE2PA e + off)"
  shows "view_ext s R r s'" "uview (pmem s') r = uview (pmem s) r"
proof -
  have here: "uview (pmem s') r va' = uview (pmem s) r va'" if "PGROUNDDOWN va' = va" for va'
    using um [OF r, of va] e bytes [OF page_offset [of va']] cow_mapping [OF p] that by (simp add: uview_def)
  show v: "view_ext s R r s'" by (rule view_ext_add [OF inv fr r, of va]) (use um here in auto)
  show "uview (pmem s') r = uview (pmem s) r"
  proof
    fix va'
    show "uview (pmem s') r va' = uview (pmem s) r va'"
      using here [of va'] um [OF r, of "PGROUNDDOWN va'"] uview_frame [OF inv fr r, of va'] by (cases "PGROUNDDOWN va' = va") auto
  qed
qed

lemma make_writable_vm:
  assumes inv: "vm_inv s R X" and X: "\<And>x. 0 \<le> X x" and r: "r \<in> R" and va: "pgaligned va"
    and um: "umap (pmem s) r va = Some e" "bit e 4" and a: "slot 2 (pmem s) r va = Some a"
  obtains (fail) pte s' where "(if load64 (pmem s) a AND PTE_COW \<noteq> 0
        then bindR (cowfault s r va) (\<lambda>(pa0, s). if pa0 = 0 then Ok (pa0, a, s)
             else bindR (walk s r va False) (\<lambda>(pte, s). Ok (pa0, pte, s)))
        else Ok (PTE2PA e, a, s)) = Ok (0, pte, s')" "vm_inv s' R X" "view_ext s R r s'" "bit e 8"
  | (ok) e' pte s' where "(if load64 (pmem s) a AND PTE_COW \<noteq> 0
        then bindR (cowfault s r va) (\<lambda>(pa0, s). if pa0 = 0 then Ok (pa0, a, s)
             else bindR (walk s r va False) (\<lambda>(pte, s). Ok (pa0, pte, s)))
        else Ok (PTE2PA e, a, s)) = Ok (PTE2PA e', pte, s')" "PTE2PA e' \<noteq> 0" "load64 (pmem s') pte = e'"
      "umap (pmem s') r va = Some e'" "bit e' 4" "vm_inv s' R X" "view_ext s R r s'" "\<not> bit e 8 \<Longrightarrow> e' = e \<and> s' = s"
proof -
  have u: "user_va va" "bit e 0" "e = pte 2 (pmem s) r va" using um(1) by (auto simp: umap_def pte_simps split: if_splits)
  have la: "load64 (pmem s) a = e" using a u(3) by (simp add: pte_def)
  show thesis
  proof (cases "bit e 8")
    case False
    then show thesis using la um inv mapped_nonzero [OF inv r um(1)] by (intro ok [of e a s]) (simp_all add: pte_simps)
  next
    case True
    from inv X r show thesis
    proof (cases rule: cowfault_vm [where va = va])
      case no
      then show thesis using la True inv by (intro fail [of a s]) (simp_all add: pte_simps)
    next
      case (own e1 p s')
      have e1: "e1 = e" using own(5) va um(1) by simp
      let ?e = "PA2PTE p OR cow_flags e"
      note b = cow_entry_bits [OF own(3) u(2)]
      have um': "umap (pmem s') r va = Some ?e" using own(12) [OF r] va e1 by simp
      then have pte: "pte 2 (pmem s') r va = ?e" "?e AND PTE_V \<noteq> 0" by (auto simp: umap_def split: if_splits)
      have pa: "PTE2PA ?e = p" by (rule cow_mapping(1) [OF own(3)])
      obtain w where w: "walk s' r va False = Ok (w, s')" "load64 (pmem s') w = ?e"
        by (rule walk_vm [OF own(9) r user_va_less [OF u(1)]]) (use pte in auto)
      have "view_ext s R r s'"
        by (rule view_ext_cow(1) [OF inv own(10) r own(3) um(1)]) (use own(12,13) va e1 in auto)
      then show thesis using la True own(1,2,9) w um' pa b um(2)
        by (intro ok [of ?e w s']) (simp_all add: pte_simps)
    qed
  qed
qed

section \<open>Writing to a page\<close>

definition written :: "phys \<Rightarrow> uint64 set \<Rightarrow> uint64 \<Rightarrow> uint64 \<Rightarrow> uchar list \<Rightarrow> phys \<Rightarrow> bool" where
  "written s R r a bs s' \<longleftrightarrow> (\<forall>r'\<in>R. r' \<noteq> r \<longrightarrow> uview (pmem s') r' = uview (pmem s) r') \<and>
     (\<forall>va. unat (va - a) < length bs \<longrightarrow> uview (pmem s') r va = Some (bs ! unat (va - a))) \<and>
     (\<forall>va b. \<not> unat (va - a) < length bs \<longrightarrow> uview (pmem s) r va = Some b \<longrightarrow> uview (pmem s') r va = Some b)"

lemma writtenD:
  assumes "written s R r a bs s'"
  shows "\<And>r'. r' \<in> R \<Longrightarrow> r' \<noteq> r \<Longrightarrow> uview (pmem s') r' = uview (pmem s) r'"
    "\<And>va. unat (va - a) < length bs \<Longrightarrow> uview (pmem s') r va = Some (bs ! unat (va - a))"
    "\<And>va b. \<not> unat (va - a) < length bs \<Longrightarrow> uview (pmem s) r va = Some b \<Longrightarrow> uview (pmem s') r va = Some b"
  using assms by (auto simp: written_def)

lemma written_Nil: "view_ext s R r s' \<Longrightarrow> written s R r a [] s'"
  by (simp add: written_def view_ext_def)

lemma written_ext: "view_ext s R r s1 \<Longrightarrow> written s1 R r a bs s2 \<Longrightarrow> written s R r a bs s2"
  by (simp add: written_def view_ext_def)

lemma unat_sub_of_nat:
  assumes "n < 2 ^ 64"
  shows "unat ((d :: uint64) - of_nat n) = (if n \<le> unat d then unat d - n else unat d + 2 ^ 64 - n)"
proof -
  have "unat (of_nat n :: uint64) = n" using assms by (simp add: unat_of_nat)
  then show ?thesis by (simp add: unat_sub_if' del: unat_of_nat)
qed

lemma written_append:
  assumes w1: "written s R r a bs s1" and w2: "written s1 R r (a + of_nat (length bs)) cs s2"
    and len: "length bs + length cs < 2 ^ 64"
  shows "written s R r a (bs @ cs) s2"
proof -
  note d1 = writtenD [OF w1] and d2 = writtenD [OF w2]
  have off: "unat (va - (a + of_nat (length bs))) =
      (if length bs \<le> unat (va - a) then unat (va - a) - length bs else unat (va - a) + 2 ^ 64 - length bs)" for va
  proof -
    have eq: "va - (a + of_nat (length bs)) = (va - a) - of_nat (length bs)" by simp
    have "length bs < 2 ^ 64" using len by simp
    then show ?thesis unfolding eq by (rule unat_sub_of_nat)
  qed
  have "uview (pmem s2) r va = Some ((bs @ cs) ! unat (va - a))" if "unat (va - a) < length (bs @ cs)" for va
  proof (cases "unat (va - a) < length bs")
    case True
    then have "\<not> unat (va - (a + of_nat (length bs))) < length cs" using off [of va] len by simp
    then show ?thesis using d2(3) d1(2) [OF True] True by (simp add: nth_append)
  next
    case False
    then show ?thesis using d2(2) [of va] off [of va] that by (simp add: nth_append)
  qed
  moreover have "uview (pmem s2) r va = Some b"
    if "\<not> unat (va - a) < length (bs @ cs)" "uview (pmem s) r va = Some b" for va b
    using d1(3) [OF _ that(2)] d2(3) [of va b] off [of va] that(1) by simp
  ultimately show ?thesis using d1(1) d2(1) by (simp add: written_def)
qed

lemma in_page_offset:
  assumes "PGROUNDDOWN a = p" and "unat (a - p) + n \<le> 4096" and "unat (x - a) < n"
  shows "PGROUNDDOWN x = p"
proof -
  have p: "pgaligned p" using assms(1) pgaligned_PGROUNDDOWN by blast
  have "x - p = (a - p) + (x - a)" by simp
  then have "unat (x - p) = unat (a - p) + unat (x - a)"
    using assms(2,3) unat_word_ariths(1) [of "a - p" "x - a"] by simp
  then have "unat (x - p) < 4096" using assms(2,3) by simp
  then show ?thesis using in_page_iff [OF p] by simp
qed

lemma store_user_vm2:
  assumes inv: "vm_inv s R X" and X: "\<And>x. 0 \<le> X x" and r: "r \<in> R"
    and um: "umap (pmem s) r (PGROUNDDOWN a) = Some e" "bit e 2" "bit e 4"
    and n: "unat (a - PGROUNDDOWN a) + length bs \<le> 4096"
    and s': "s' = s\<lparr>pmem := store_bytes (pmem s) (PTE2PA e + (a - PGROUNDDOWN a)) bs\<rparr>"
  shows "vm_inv s' R X" "written s R r a bs s'" "umap (pmem s') r = umap (pmem s) r"
proof -
  let ?p = "PTE2PA e" and ?va = "PGROUNDDOWN a"
  have m: "ram s ?p" "0 < rc s ?p" "?p \<notin> tables (pmem s) R" "rc s ?p = 1"
    using vm_invD(4) [OF inv r um(1)] um(2) by (simp_all add: mapped_ok_def pte_simps)
  have pg: "PGROUNDDOWN (?p + (a - ?va)) = ?p" by (rule PGROUNDDOWN_plus [OF pgaligned_PTE2PA page_offset])
  have ag: "agree (- {?p}) (pmem s) (pmem s')"
    unfolding agree_def
  proof (intro allI impI)
    fix x
    assume "PGROUNDDOWN x \<in> - {?p}"
    then have "\<not> unat (x - (?p + (a - ?va))) < length bs" using in_page_offset [OF pg, of "length bs" x] n by auto
    then show "pmem s' x = pmem s x" by (simp add: s' store_bytes_def)
  qed
  have eq: "s\<lparr>pmem := pmem s'\<rparr> = s'" by (simp add: s')
  note wv = write_vm [OF inv m(2,3) ag, unfolded eq]
  show "vm_inv s' R X" by (rule wv(1))
  have fr: "frame s R {?p} s'" by (rule frame_tables [OF wv(3) vm_invD(2) [OF inv] wv(2)])
  have umeq: "umap (pmem s') r' va = umap (pmem s) r' va" if "r' \<in> R" for r' va
    using forest_agree(3) [OF vm_invD(2) [OF inv] wv(3) that] by simp
  from this [OF r] show "umap (pmem s') r = umap (pmem s) r" by blast
  have other: "uview (pmem s') r' va = uview (pmem s) r' va" if "r' \<in> R" "\<not> (r' = r \<and> PGROUNDDOWN va = ?va)" for r' va
  proof (rule uview_frame [OF inv fr that(1) umeq [OF that(1)]])
    show "PTE2PA e' \<notin> {?p}" if "umap (pmem s) r' (PGROUNDDOWN va) = Some e'" for e'
      using single_mapping [OF inv X r \<open>r' \<in> R\<close> um(1) that _ m(4)] \<open>\<not> (r' = r \<and> PGROUNDDOWN va = ?va)\<close> by auto
  qed
  have here: "uview (pmem s') r va = (if unat (va - a) < length bs then Some (bs ! unat (va - a)) else uview (pmem s) r va)"
    if "PGROUNDDOWN va = ?va" for va
    using that umeq [OF r, of ?va] um(1,3) by (simp add: uview_def s' store_bytes_def)
  have "uview (pmem s') r' = uview (pmem s) r'" if "r' \<in> R" "r' \<noteq> r" for r'
    using other [OF that(1)] that(2) by (simp add: fun_eq_iff)
  moreover have "uview (pmem s') r va = Some (bs ! unat (va - a))" if "unat (va - a) < length bs" for va
    using here [OF in_page_offset [OF refl n that]] that by simp
  moreover have "uview (pmem s') r va = Some b" if "\<not> unat (va - a) < length bs" "uview (pmem s) r va = Some b" for va b
    using here [of va] other [OF r, of va] that by (cases "PGROUNDDOWN va = ?va") simp_all
  ultimately show "written s R r a bs s'" by (simp add: written_def)
qed

section \<open>copyout\<close>

definition uwritable :: "mem \<Rightarrow> uint64 \<Rightarrow> uint64 \<Rightarrow> bool" where
  "uwritable m r va \<longleftrightarrow> (\<exists>e. umap m r (PGROUNDDOWN va) = Some e \<and> bit e 2 \<and> bit e 4 \<and> \<not> bit e 8)"

lemma copyout_loop_Nil: "copyout_loop k psz ppt s r a [] = copyout_loop k psz ppt s r b []"
  by (cases k) simp_all

lemma page_rest:
  assumes "n = min (4096 - unat (a - PGROUNDDOWN a)) l" and "n < l"
  shows "PGROUNDDOWN a + 4096 = a + of_nat n"
proof -
  have lt: "unat (a - PGROUNDDOWN a) < 4096" by (simp add: in_page_iff)
  then have "n = 4096 - unat (a - PGROUNDDOWN a)" using assms by auto
  then have "(of_nat n :: uint64) = 4096 - (a - PGROUNDDOWN a)" using lt by (simp add: of_nat_diff)
  then show ?thesis by simp
qed

lemma copyout_step:
  assumes inv: "vm_inv s R X" and X: "\<And>x. 0 \<le> X x" and r: "r \<in> R" and psz: "psz \<le> TRAPFRAME"
    and src: "src \<noteq> []"
  obtains (fail) s' where "copyout_loop (Suc k) psz r s r a src = Ok (-1, s')" "vm_inv s' R X" "view_ext s R r s'"
      "\<not> uwritable (pmem s) r a"
  | (page) n s' where "0 < n" "n \<le> length src"
      "copyout_loop (Suc k) psz r s r a src = copyout_loop k psz r s' r (a + of_nat n) (drop n src)"
      "vm_inv s' R X" "written s R r a (take n src) s'" "uwritable (pmem s) r a \<Longrightarrow> umap (pmem s') r = umap (pmem s) r"
proof (cases "MAXVA \<le> PGROUNDDOWN a")
  case True
  then have "\<not> user_va (PGROUNDDOWN a)" using user_va_less [of "PGROUNDDOWN a"] by auto
  then show thesis using src inv True by (intro fail [of s]) (simp_all add: uwritable_def umap_def)
next
  case nva: False
  let ?va = "PGROUNDDOWN a" and ?n = "min (4096 - unat (a - PGROUNDDOWN a)) (length src)"
  have va: "pgaligned ?va" "?va < MAXVA" using nva by simp_all
  have n: "0 < ?n" "?n \<le> length src" "unat (a - ?va) + length (take ?n src) \<le> 4096"
    using src in_page_iff [of ?va a] by auto
  show thesis
  proof (cases rule: fault_in_vm [OF inv r psz va(1), case_names nofault fault])
    case (nofault s1)
    have "copyout_loop (Suc k) psz r s r a src = Ok (-1, s1)"
      using src nva nofault(1) by (auto simp: res_simps simp flip: bindR_assoc)
    then show thesis using nofault(2,4,5) by (intro fail [of s1]) (auto simp: uwritable_def)
  next
    case (fault e s1)
    have u: "user_va ?va" "e = pte 2 (pmem s1) r ?va" "bit e 0"
      using fault(5) by (auto simp: umap_def pte_simps split: if_splits)
    obtain w where w: "walk s1 r ?va False = Ok (w, s1)" "w \<noteq> 0" "slot 2 (pmem s1) r ?va = Some w" "load64 (pmem s1) w = e"
      by (rule walk_vm [OF fault(2) r va(2)]) (use u in auto)
    have same: "s1 = s \<and> bit e 2 \<and> \<not> bit e 8" if w: "uwritable (pmem s) r a"
    proof -
      have "s1 = s" using fault(8) w by (auto simp: uwritable_def)
      then show ?thesis using fault(5) w by (simp add: uwritable_def)
    qed
    note head = src nva fault(1,7) w(1,2,4) u(3) fault(6)
    show thesis
    proof (cases rule: make_writable_vm [OF fault(2) X r va(1) fault(5,6) w(3), case_names nocow cow])
      case (nocow p s2)
      have "copyout_loop (Suc k) psz r s r a src = Ok (-1, s2)"
        using head nocow(1) by (auto simp: pte_simps simp flip: bindR_assoc)
      moreover have "\<not> uwritable (pmem s) r a" using same nocow(4) by blast
      ultimately show thesis using nocow(2,3) view_ext_trans [OF fault(4)] by (intro fail [of s2])
    next
      case (cow e' p s2)
      have v2: "view_ext s R r s2" by (rule view_ext_trans [OF fault(4) cow(7)])
      have same2: "e' = e \<and> s2 = s \<and> bit e 2" if "uwritable (pmem s) r a"
        using same [OF that] cow(8) by simp
      show thesis
      proof (cases "bit e' 2")
        case False
        then have "copyout_loop (Suc k) psz r s r a src = Ok (-1, s2)"
          using head cow(1-3) by (auto simp: pte_simps simp flip: bindR_assoc)
        then show thesis using cow(6) v2 same2 False by (intro fail [of s2]) auto
      next
        case True
        define s3 where "s3 = s2\<lparr>pmem := store_bytes (pmem s2) (PTE2PA e' + (a - ?va)) (take ?n src)\<rparr>"
        note st = store_user_vm2 [OF cow(6) X r cow(4) True cow(5) n(3) s3_def]
        have "copyout_loop (Suc k) psz r s r a src = copyout_loop k psz r s3 r (?va + 4096) (drop ?n src)"
          using head cow(1-3) True by (auto simp: pte_simps s3_def Let_def simp flip: bindR_assoc)
        moreover have "copyout_loop k psz r s3 r (?va + 4096) (drop ?n src) = copyout_loop k psz r s3 r (a + of_nat ?n) (drop ?n src)"
          using page_rest [OF refl, of a "length src"] n(2) copyout_loop_Nil by (cases "?n < length src") auto
        moreover have "umap (pmem s3) r = umap (pmem s) r" if "uwritable (pmem s) r a"
          using st(3) same2 [OF that] by simp
        ultimately show thesis using n(1,2) st(1) written_ext [OF v2 st(2)] by (intro page [of ?n s3]) simp_all
      qed
    qed
  qed
qed

theorem copyout_vm:
  assumes "vm_inv s R X" and X: "\<And>x. 0 \<le> X x" and r: "r \<in> R" and psz: "psz \<le> TRAPFRAME"
    and "length src < k" and "length src < 2 ^ 64"
  shows "\<exists>ret n s'. copyout_loop k psz r s r a src = Ok (ret, s') \<and> vm_inv s' R X \<and> n \<le> length src \<and>
    written s R r a (take n src) s' \<and> (ret = 0 \<and> n = length src \<or> ret = -1) \<and>
    ((\<forall>i<length src. uwritable (pmem s) r (a + of_nat i)) \<longrightarrow> ret = 0)"
  using assms(1,5,6)
proof (induction k arbitrary: s a src)
  case (Suc k)
  show ?case
  proof (cases "src = []")
    case True
    then show ?thesis using Suc.prems(1) by (intro exI [of _ 0] exI [of _ s]) (simp add: written_def)
  next
    case False
    show ?thesis
    proof (cases rule: copyout_step [OF Suc.prems(1) X r psz False, of k a, case_names fail page])
      case (fail s')
      moreover have "\<exists>i<length src. \<not> uwritable (pmem s) r (a + of_nat i)"
        using fail(4) False by (intro exI [of _ 0]) simp
      ultimately show ?thesis by (intro exI [of _ "-1"] exI [of _ 0] exI [of _ s']) (auto simp: written_Nil)
    next
      case (page n s')
      have "length (drop n src) < k" "length (drop n src) < 2 ^ 64" using page(1,2) Suc.prems(2,3) by simp_all
      from Suc.IH [OF page(4) this, of "a + of_nat n"] obtain ret n' s2 where
        c: "copyout_loop k psz r s' r (a + of_nat n) (drop n src) = Ok (ret, s2)" "vm_inv s2 R X" "n' \<le> length (drop n src)"
          "written s' R r (a + of_nat n) (take n' (drop n src)) s2" "ret = 0 \<and> n' = length (drop n src) \<or> ret = -1"
          "(\<forall>i<length (drop n src). uwritable (pmem s') r (a + of_nat n + of_nat i)) \<longrightarrow> ret = 0" by blast
      have "written s R r a (take n src @ take n' (drop n src)) s2"
        by (rule written_append [OF page(5)]) (use c(3,4) page(2) Suc.prems(3) in simp_all)
      then have "written s R r a (take (n + n') src) s2" by (simp add: take_add)
      moreover have "ret = 0" if all: "\<forall>i<length src. uwritable (pmem s) r (a + of_nat i)"
      proof (rule c(6) [THEN mp], intro allI impI)
        fix i
        assume "i < length (drop n src)"
        then have "n + i < length src" by simp
        then have "uwritable (pmem s) r (a + of_nat (n + i))" using all by blast
        moreover have "uwritable (pmem s) r a" using spec [OF all, of 0] False by simp
        ultimately show "uwritable (pmem s') r (a + of_nat n + of_nat i)"
          using page(6) by (simp add: uwritable_def add.assoc)
      qed
      ultimately show ?thesis using c(1-5) page(2,3)
        by (intro exI [of _ ret] exI [of _ "n + n'"] exI [of _ s2]) auto
    qed
  qed
qed simp

section \<open>copyin\<close>

definition reads :: "phys \<Rightarrow> uint64 \<Rightarrow> uint64 \<Rightarrow> uchar list \<Rightarrow> bool" where
  "reads s r a bs \<longleftrightarrow> (\<forall>i<length bs. uview (pmem s) r (a + of_nat i) = Some (bs ! i))"

lemma reads_ext: "reads s r a bs \<Longrightarrow> view_ext s R r s' \<Longrightarrow> reads s' r a bs"
  by (simp add: reads_def view_ext_def)

lemma reads_append:
  assumes "reads s r a bs" and "reads s r (a + of_nat (length bs)) cs"
  shows "reads s r a (bs @ cs)"
  unfolding reads_def
proof (intro allI impI)
  fix i
  assume i: "i < length (bs @ cs)"
  show "uview (pmem s) r (a + of_nat i) = Some ((bs @ cs) ! i)"
  proof (cases "i < length bs")
    case True
    then show ?thesis using assms(1) by (simp add: reads_def nth_append)
  next
    case False
    then have eq: "a + of_nat i = a + of_nat (length bs) + of_nat (i - length bs)" by (simp add: of_nat_diff)
    have "i - length bs < length cs" using i False by simp
    then have "uview (pmem s) r (a + of_nat (length bs) + of_nat (i - length bs)) = Some (cs ! (i - length bs))"
      using assms(2) unfolding reads_def by blast
    then show ?thesis unfolding eq using False by (simp add: nth_append)
  qed
qed

lemma reads_page:
  assumes um: "umap (pmem s) r (PGROUNDDOWN a) = Some e" "bit e 4" and n: "unat (a - PGROUNDDOWN a) + n \<le> 4096"
  shows "reads s r a (load_bytes (pmem s) (PTE2PA e + (a - PGROUNDDOWN a)) n)"
  unfolding reads_def
proof (intro allI impI)
  fix i
  assume "i < length (load_bytes (pmem s) (PTE2PA e + (a - PGROUNDDOWN a)) n)"
  then have i: "i < n" by (simp add: load_bytes_def)
  then have "unat (a + of_nat i - a) < n" using n by (simp add: unat_of_nat)
  then have "PGROUNDDOWN (a + of_nat i) = PGROUNDDOWN a" using in_page_offset [OF refl n] by blast
  then show "uview (pmem s) r (a + of_nat i) = Some (load_bytes (pmem s) (PTE2PA e + (a - PGROUNDDOWN a)) n ! i)"
    using um i by (simp add: uview_def load_bytes_def algebra_simps)
qed

lemma copyin_loop_0: "copyin_loop k psz ppt s r a 0 = copyin_loop k psz ppt s r b 0"
  by (cases k) simp_all

lemma fault_in_seen:
  assumes "uview (pmem s) r a \<noteq> None" and "vm_inv s R X" and "r \<in> R"
  shows "bindR (walkaddr s r (PGROUNDDOWN a)) (\<lambda>pa0. if pa0 = 0 then vmfault psz r s r (PGROUNDDOWN a) else Ok (pa0, s)) \<noteq> Ok (0, s1)"
proof -
  obtain e where e: "umap (pmem s) r (PGROUNDDOWN a) = Some e" "bit e 4"
    using assms(1) by (auto simp: uview_def split: option.splits if_splits)
  then show ?thesis using walkaddr_vm [OF assms(2,3), of "PGROUNDDOWN a"] mapped_nonzero [OF assms(2,3) e(1)] by simp
qed

theorem copyin_vm:
  assumes "vm_inv s R X" and r: "r \<in> R" and psz: "psz \<le> TRAPFRAME" and "len < k"
  shows "\<exists>ret bs s'. copyin_loop k psz r s r a len = Ok (ret, bs, s') \<and> vm_inv s' R X \<and> view_ext s R r s' \<and>
    reads s' r a bs \<and> (ret = 0 \<and> length bs = len \<or> ret = -1) \<and>
    ((\<forall>i<len. uview (pmem s) r (a + of_nat i) \<noteq> None) \<longrightarrow> ret = 0)"
  using assms(1,4)
proof (induction k arbitrary: s a len)
  case (Suc k)
  show ?case
  proof (cases "len = 0")
    case True
    then show ?thesis using Suc.prems(1) by (simp add: reads_def)
  next
    case len: False
    let ?va = "PGROUNDDOWN a" and ?n = "min (4096 - unat (a - PGROUNDDOWN a)) len"
    have n: "0 < ?n" "?n \<le> len" "unat (a - ?va) + ?n \<le> 4096" using len in_page_iff [of ?va a] by auto
    show ?thesis
    proof (cases rule: fault_in_vm [OF Suc.prems(1) r psz pgaligned_PGROUNDDOWN [of a], case_names nofault fault])
      case (nofault s1)
      have "copyin_loop (Suc k) psz r s r a len = Ok (-1, [], s1)"
        using len nofault(1) by (simp add: Let_def flip: bindR_assoc)
      moreover have "\<exists>i<len. uview (pmem s) r (a + of_nat i) = None"
        using nofault(1) fault_in_seen [OF _ Suc.prems(1) r, of a psz s1] len
        by (intro exI [of _ 0]) (auto simp del: not_None_eq)
      ultimately show ?thesis using nofault(2,4) by (auto simp: reads_def)
    next
      case (fault e s1)
      let ?bs = "load_bytes (pmem s1) (PTE2PA e + (a - ?va)) ?n"
      have lb: "length ?bs = ?n" by (simp add: load_bytes_def)
      have step: "copyin_loop (Suc k) psz r s r a len =
          bindR (copyin_loop k psz r s1 r (a + of_nat ?n) (len - ?n)) (\<lambda>(r, rest, s). Ok (r, ?bs @ rest, s))"
      proof -
        have "copyin_loop k psz r s1 r (?va + 4096) (len - ?n) = copyin_loop k psz r s1 r (a + of_nat ?n) (len - ?n)"
          using page_rest [OF refl, of a len] n(2) copyin_loop_0 by (cases "?n < len") auto
        then show ?thesis using len fault(1,7) by (simp add: Let_def flip: bindR_assoc)
      qed
      have "len - ?n < k" using Suc.prems(2) n(1,2) by linarith
      from Suc.IH [OF fault(2) this, of "a + of_nat ?n"] obtain ret rest s2 where
        c: "copyin_loop k psz r s1 r (a + of_nat ?n) (len - ?n) = Ok (ret, rest, s2)" "vm_inv s2 R X" "view_ext s1 R r s2"
          "reads s2 r (a + of_nat ?n) rest" "ret = 0 \<and> length rest = len - ?n \<or> ret = -1"
          "(\<forall>i<len - ?n. uview (pmem s1) r (a + of_nat ?n + of_nat i) \<noteq> None) \<longrightarrow> ret = 0" by blast
      have "reads s2 r a ?bs" by (rule reads_ext [OF reads_page [OF fault(5,6) n(3)] c(3)])
      then have rd: "reads s2 r a (?bs @ rest)" using c(4) lb by (intro reads_append) simp_all
      have "ret = 0" if all: "\<forall>i<len. uview (pmem s) r (a + of_nat i) \<noteq> None"
      proof (rule c(6) [THEN mp], intro allI impI)
        fix i
        assume "i < len - ?n"
        then have "?n + i < len" using n(2) by linarith
        then have "uview (pmem s) r (a + of_nat (?n + i)) \<noteq> None" using all by blast
        then show "uview (pmem s1) r (a + of_nat ?n + of_nat i) \<noteq> None"
          using fault(4) by (auto simp: view_ext_def add.assoc)
      qed
      then show ?thesis using step c(1,2,5) rd view_ext_trans [OF fault(4) c(3)] lb n(2) by auto
    qed
  qed
qed simp

end
