(* ===== verification/Vm_Cow.thy ===== *)
theory Vm_Cow
  imports Vm_Copy
begin

text \<open>
  The properties of the address spaces of \<^verbatim>\<open>kernel/vm.c\<close> with the allocator of
  \<^verbatim>\<open>kernel/kalloc.c\<close>, stated for a machine with any set \<open>R\<close> of page tables that
  satisfies \<open>vm_inv\<close>, and a machine on which they are exercised: RAM from 0x87000000,
  initialised by \<^verbatim>\<open>kinit()\<close>, with two page tables, one of them mapping a page.
\<close>

section \<open>A machine\<close>

definition boot_phys :: phys where
  "boot_phys = \<lparr>pmem = (\<lambda>_. 0), freelist = 0, refcount = (\<lambda>_. 0), kend = 0x87000000\<rparr>"

lemma vm_inv_X: "vm_inv s R X \<Longrightarrow> (\<And>x. ram s x \<Longrightarrow> X x = Y x) \<Longrightarrow> vm_inv s R Y"
  by (simp add: vm_inv_def)

lemma boot_vm: "\<exists>s. kinit boot_phys = Ok s \<and> vm_inv s {} (\<lambda>_. 0) \<and> 20 \<le> nfree s"
proof -
  obtain s where s: "kinit boot_phys = Ok s" "kmem_inv s" "kend s = 0x87000000" "\<forall>q. ram s q \<longrightarrow> rc s q = 0"
    using kinit_Ok [of boot_phys] by (auto simp: boot_phys_def)
  have "vm_inv s {} (\<lambda>_. 0)" using vm_inv_boot [OF s(2)] s(4) by (auto elim: vm_inv_X)
  moreover have "(\<lambda>i. 0x87000000 + 0x1000 * of_nat i) ` {..<20} \<subseteq> {p. ram s p \<and> rc s p = 0}" (is "?A \<subseteq> ?B")
  proof -
    have "ram s (0x87000000 + 0x1000 * of_nat i)" if "i < 20" for i
    proof -
      have u: "unat (0x87000000 + 0x1000 * of_nat i :: uint64) = 0x87000000 + 0x1000 * i"
        using that by (simp add: unat_word_ariths unat_of_nat)
      then show ?thesis using that s(3)
        by (simp add: ram_def bad_page_def word_unat_eq_iff word_le_nat_alt word_less_nat_alt unat_mod mod_add_eq)
    qed
    then show ?thesis using s(4) by auto
  qed
  then have "card ?A \<le> card ?B" by (intro card_mono) auto
  moreover have "card ?A = 20"
  proof -
    have "inj_on (\<lambda>i. 0x87000000 + 0x1000 * of_nat i :: uint64) {..<20}"
      by (rule inj_onI) (auto simp: word_unat_eq_iff unat_word_ariths unat_of_nat)
    then show ?thesis by (simp add: card_image)
  qed
  ultimately show ?thesis using s(1) by (auto simp: nfree_def)
qed

lemma uvmcreate_free:
  assumes inv: "vm_inv s R X" and f: "0 < nfree s"
  obtains p s' where "uvmcreate s = (p, s')" "vm_inv s' (insert p R) X" "p \<notin> R"
      "\<And>r. r \<in> R \<Longrightarrow> umap (pmem s') r = umap (pmem s) r" "\<And>r. r \<in> R \<Longrightarrow> kpte (pmem s') r = kpte (pmem s) r"
      "\<And>va. umap (pmem s') p va = None" "\<And>va. kpte (pmem s') p va = 0" "nfree s = nfree s' + 1"
proof (cases rule: uvmcreate_vm [OF inv, case_names fail new])
  case fail
  then show thesis using f nfree_pos [OF vm_invD(1) [OF inv]] by simp
next
  case (new p s')
  then show thesis using that [of p s'] frame_kpte [OF new(5)] by simp
qed

lemma two_spaces:
  obtains s old new e where "vm_inv s {old, new} (\<lambda>_. 0)" "old \<noteq> new" "\<And>va. umap (pmem s) new va = None"
    "umap (pmem s) old 0 = Some e" "bit e 2" "bit e 4" "\<not> bit e 8" "\<And>va e. umap (pmem s) old va = Some e \<Longrightarrow> va < 4096"
    "\<And>va. kpte (pmem s) old va = 0" "10 \<le> nfree s"
proof -
  obtain s0 where s0: "vm_inv s0 {} (\<lambda>_. 0)" "20 \<le> nfree s0" using boot_vm by blast
  then have "0 < nfree s0" by simp
  from uvmcreate_free [OF s0(1) this] obtain old s1 where s1: "vm_inv s1 {old} (\<lambda>_. 0)"
    "\<And>va. umap (pmem s1) old va = None" "\<And>va. kpte (pmem s1) old va = 0" "nfree s0 = nfree s1 + 1" by metis
  then have "0 < nfree s1" using s0(2) by simp
  obtain new s2 where s2: "vm_inv s2 (insert new {old}) (\<lambda>_. 0)" "new \<notin> {old}"
      "\<And>r. r \<in> {old} \<Longrightarrow> umap (pmem s2) r = umap (pmem s1) r" "\<And>r. r \<in> {old} \<Longrightarrow> kpte (pmem s2) r = kpte (pmem s1) r"
      "\<And>va. umap (pmem s2) new va = None" "nfree s1 = nfree s2 + 1"
    by (rule uvmcreate_free [OF s1(1) \<open>0 < nfree s1\<close>]) (rule that)
  let ?R = "insert new {old}" and ?perm = "PTE_R OR PTE_U OR PTE_W"
  have free: "umap (pmem s2) old va = None" for va using s2(3) s1(2) by simp
  have "\<not> nfree s2 < 3 * (unat (4096 :: uint64) div 4096 + 1)" using s0(2) s1(4) s2(6) by simp
  then obtain s where s: "grown s2 ?R (\<lambda>_. 0) old (PGROUNDUP 0) 4096 ?perm s" "nfree s2 \<le> nfree s + 6"
    using uvmalloc_vm [OF s2(1), of old 0 4096 ?perm PTE_W] free by (auto simp: PGROUNDUP_def)
  note d = grownD [OF s(1)]
  have z: "PGROUNDUP 0 = (0 :: uint64)" by (simp add: PGROUNDUP_def)
  obtain p where p: "ram s p" "umap (pmem s) old 0 = Some (PA2PTE p OR ?perm OR PTE_V)"
    using d(4) [of 0] z by (auto simp: pgaligned_def)
  have "bit (PA2PTE p OR ?perm OR PTE_V) 2" "bit (PA2PTE p OR ?perm OR PTE_V) 4"
    "\<not> bit (PA2PTE p OR ?perm OR PTE_V) 8" using mask_low_10 [of p 8] by (auto simp: bit_simps)
  moreover have "va < 4096" if "umap (pmem s) old va = Some e" for va e
    using d(3) [of old va] free that by (cases "va < 4096") auto
  moreover have "umap (pmem s) new va = None" for va using d(3) [of new va] s2(2,5) by simp
  moreover have "kpte (pmem s) old va = 0" for va using frame_kpte [OF d(2), of old] s2(4) s1(3) by simp
  moreover have "vm_inv s {old, new} (\<lambda>_. 0)" using d(1) by (simp add: insert_commute)
  ultimately show thesis using that [of s old new] p(2) s2(2,6) s(2) s1(4) s0(2) by force
qed

section \<open>Copy-on-write fork\<close>

lemma copied_view:
  assumes inv: "vm_inv s R X" and r: "old \<in> R" "new \<in> R" "old \<noteq> new" and c: "copied s R X old new sz s'"
    and fresh: "\<And>va. umap (pmem s) new va = None"
  shows "r \<in> R \<Longrightarrow> r \<noteq> new \<Longrightarrow> uview (pmem s') r va = uview (pmem s) r va"
    "uview (pmem s') new va = (if PGROUNDDOWN va < sz then uview (pmem s) old va else None)"
proof -
  note d = copiedD [OF c]
  have sb: "map_option (\<lambda>e. (PTE2PA e, bit e 4)) (map_option f (umap (pmem s) old va)) =
      map_option (\<lambda>e. (PTE2PA e, bit e 4)) (umap (pmem s) old va)" if "f = share_parent \<or> f = share_child" for f va
  proof (cases "umap (pmem s) old va")
    case (Some e)
    have "ram s (PTE2PA e)" using vm_invD(4) [OF inv r(1) Some] by (simp add: mapped_ok_def)
    then show ?thesis using share_bits [of s e] Some that by auto
  qed simp
  show "uview (pmem s') r va = uview (pmem s) r va" if "r \<in> R" "r \<noteq> new"
    using uview_page [OF inv d(2) that(1), of r va] d(3) [OF that(1), of "PGROUNDDOWN va"] that(2) sb [of share_parent] by simp
  show "uview (pmem s') new va = (if PGROUNDDOWN va < sz then uview (pmem s) old va else None)"
  proof (cases "PGROUNDDOWN va < sz")
    case True
    then show ?thesis
      using uview_page [OF inv d(2) r(1), of new va] d(3) [OF r(2), of "PGROUNDDOWN va"] r(3) sb [of share_child] by simp
  next
    case False
    then show ?thesis using d(3) [OF r(2), of "PGROUNDDOWN va"] r(3) fresh by (simp add: uview_def)
  qed
qed

lemma copy_failed_view:
  assumes inv: "vm_inv s R X" and r: "r \<in> R" and c: "copy_failed s R X old s'"
  shows "uview (pmem s') r va = uview (pmem s) r va"
proof -
  have d: "frame s R {} s'" "umap (pmem s') r va = umap (pmem s) r va \<or>
      umap (pmem s') r va = map_option share_parent (umap (pmem s) r va)" for va
    using c r by (auto simp: copy_failed_def)
  show ?thesis
  proof (rule uview_page [OF inv d(1) r])
    show "map_option (\<lambda>e. (PTE2PA e, bit e 4)) (umap (pmem s') r (PGROUNDDOWN va)) =
      map_option (\<lambda>e. (PTE2PA e, bit e 4)) (umap (pmem s) r (PGROUNDDOWN va))"
    proof (cases "umap (pmem s) r (PGROUNDDOWN va)")
      case (Some e)
      have "ram s (PTE2PA e)" using vm_invD(4) [OF inv r Some] by (simp add: mapped_ok_def)
      then show ?thesis using share_bits [of s e] Some d(2) [of "PGROUNDDOWN va"] by auto
    qed (use d(2) [of "PGROUNDDOWN va"] in auto)
  qed simp
qed

text \<open>C1. \<^verbatim>\<open>uvmcopy()\<close> always returns and keeps the invariant. No process's view of its
  memory changes. On success the child sees exactly the bytes the parent sees below \<open>sz\<close>;
  it fails only when fewer than two free pages per page copied are left, and then the child
  sees nothing.\<close>

theorem uvmcopy_cow:
  assumes "vm_inv s R X" and "\<And>x. 0 \<le> X x" and "old \<in> R" and "new \<in> R" and "old \<noteq> new"
    and "sz \<le> TRAPFRAME" and "\<And>va. umap (pmem s) new va = None"
  shows "\<exists>ret s'. uvmcopy s old new sz = Ok (ret, s') \<and> vm_inv s' R X \<and>
    (\<forall>r. r \<in> R \<and> r \<noteq> new \<longrightarrow> uview (pmem s') r = uview (pmem s) r) \<and>
    (if ret = 0
     then \<forall>va. uview (pmem s') new va = (if PGROUNDDOWN va < sz then uview (pmem s) old va else None)
     else ret = -1 \<and> nfree s < 2 * (unat sz div 4096 + 1) \<and> (\<forall>va. uview (pmem s') new va = None))"
  using uvmcopy_vm [OF assms]
proof (elim disjE exE conjE)
  fix s'
  assume s': "uvmcopy s old new sz = Ok (0, s')" "copied s R X old new sz s'"
  note cv = copied_view [OF assms(1,3,4,5) s'(2) assms(7)]
  show ?thesis
    using s'(1) copiedD(1) [OF s'(2)] cv by (intro exI [of _ 0] exI [of _ s']) (simp add: fun_eq_iff)
next
  fix s'
  assume s': "uvmcopy s old new sz = Ok (-1, s')" "copy_failed s R X old s'" "nfree s < 2 * (unat sz div 4096 + 1)"
  note cv = copy_failed_view [OF assms(1) _ s'(2)]
  have "uview (pmem s) new va = None" for va using assms(7) by (simp add: uview_def)
  then show ?thesis
    using s' cv assms(4) by (intro exI [of _ "-1"] exI [of _ s']) (simp add: fun_eq_iff copy_failed_def)
qed

theorem uvmcopy_cow_witness:
  "\<exists>s old new s'. uvmcopy s old new 4096 = Ok (0, s') \<and> uview (pmem s) old 0 \<noteq> None \<and>
     uview (pmem s') new 0 = uview (pmem s) old 0"
proof (rule two_spaces)
  fix s old new e
  assume a: "vm_inv s {old, new} (\<lambda>_. 0)" "old \<noteq> new" "\<And>va. umap (pmem s) new va = None"
    "umap (pmem s) old 0 = Some e" "bit e 4" "10 \<le> nfree s"
  have "\<exists>ret s'. uvmcopy s old new 4096 = Ok (ret, s') \<and> vm_inv s' {old, new} (\<lambda>_. 0) \<and>
    (\<forall>r. r \<in> {old, new} \<and> r \<noteq> new \<longrightarrow> uview (pmem s') r = uview (pmem s) r) \<and>
    (if ret = 0
     then \<forall>va. uview (pmem s') new va = (if PGROUNDDOWN va < 4096 then uview (pmem s) old va else None)
     else ret = -1 \<and> nfree s < 2 * (unat (4096 :: uint64) div 4096 + 1) \<and> (\<forall>va. uview (pmem s') new va = None))"
    by (rule uvmcopy_cow [OF a(1)]) (use a in auto)
  then obtain s' where "uvmcopy s old new 4096 = Ok (0, s')" "uview (pmem s') new 0 = uview (pmem s) old 0"
    using a(6) by (auto simp: PGROUNDDOWN_def split: if_splits)
  moreover have "uview (pmem s) old 0 \<noteq> None" using a(4,5) by (simp add: uview_def PGROUNDDOWN_def)
  ultimately show ?thesis by blast
qed

text \<open>C3. \<^verbatim>\<open>cowfault()\<close> always returns, keeps the invariant and changes no process's view.
  When it returns a page, the faulting page is mapped to it, writable and no longer
  copy-on-write, and that mapping is the only reference to the page. It returns a page
  whenever a copy-on-write user page is mapped there and a free page is left.\<close>

theorem cowfault_cow:
  assumes inv: "vm_inv s R X" and X: "\<And>x. 0 \<le> X x" and r: "r \<in> R"
  shows "\<exists>pa s'. cowfault s r va = Ok (pa, s') \<and> vm_inv s' R X \<and>
    (\<forall>r'. r' \<in> R \<longrightarrow> uview (pmem s') r' = uview (pmem s) r') \<and>
    (pa \<noteq> 0 \<longrightarrow> (\<exists>e. umap (pmem s') r (PGROUNDDOWN va) = Some e \<and> PTE2PA e = pa \<and> bit e 2 \<and> \<not> bit e 8) \<and>
       mappings (pmem s') R pa = {(r, PGROUNDDOWN va)} \<and> rc s' pa = 1) \<and>
    (va < MAXVA \<and> 0 < nfree s \<and> (\<exists>e. umap (pmem s) r (PGROUNDDOWN va) = Some e \<and> bit e 4 \<and> bit e 8) \<longrightarrow> pa \<noteq> 0)"
  using inv X r
proof (cases rule: cowfault_vm [where va = va])
  case no
  then have "cowfault s r va = Ok (0, s)"
    "\<not> (va < MAXVA \<and> 0 < nfree s \<and> (\<exists>e. umap (pmem s) r (PGROUNDDOWN va) = Some e \<and> bit e 4 \<and> bit e 8))"
    using nfree_pos [OF vm_invD(1) [OF inv]] by auto
  then show ?thesis using inv by auto
next
  case (own e p s')
  let ?e = "PA2PTE p OR cow_flags e"
  have um: "umap (pmem s') r (PGROUNDDOWN va) = Some ?e" using own(12) [OF r] by simp
  have pa: "PTE2PA ?e = p" by (rule cow_mapping(1) [OF own(3)])
  have b: "bit ?e 2 \<and> \<not> bit ?e 8" using cow_entry_bits [OF own(3,6)] by blast
  have v: "view_ext s R r s'" "uview (pmem s') r = uview (pmem s) r"
    by (rule view_ext_cow [OF inv own(10) r own(3,5)]; use own(12,13) in simp)+
  have "x = (r, PGROUNDDOWN va)" if "x \<in> mappings (pmem s') R p" for x
    using that single_mapping [OF own(9) X r _ um, unfolded pa, OF _ _ _ own(11)] by (auto simp: mappings_def)
  moreover have "(r, PGROUNDDOWN va) \<in> mappings (pmem s') R p" using r um pa by (auto simp: mappings_def)
  ultimately have "mappings (pmem s') R p = {(r, PGROUNDDOWN va)}" by blast
  moreover have "uview (pmem s') r' = uview (pmem s) r'" if "r' \<in> R" for r'
    using v that by (cases "r' = r") (auto simp: view_ext_def)
  ultimately show ?thesis using own(1,2,9,11) um pa b by (intro exI [of _ p] exI [of _ s']) auto
qed

lemma shared_space:
  obtains s old new e where "vm_inv s {old, new} (\<lambda>_. 0)" "old \<noteq> new"
    "umap (pmem s) old 0 = Some e" "bit e 4" "bit e 8" "0 < nfree s"
proof (rule two_spaces)
  fix s old new e
  assume a: "vm_inv s {old, new} (\<lambda>_. 0)" "old \<noteq> new" "\<And>va. umap (pmem s) new va = None"
    "umap (pmem s) old 0 = Some e" "bit e 2" "bit e 4" "10 \<le> nfree s"
  obtain s' where s': "copied s {old, new} (\<lambda>_. 0) old new 4096 s'" "nfree s \<le> nfree s' + 4"
    using uvmcopy_vm [OF a(1), of old new 4096] a(2,3,7) by auto
  have e: "umap (pmem s') old 0 = Some (share_parent e)" using copiedD(3) [OF s'(1), of old 0] a(4) by simp
  have "ram s (PTE2PA e)" using vm_invD(4) [OF a(1) _ a(4)] by (simp add: mapped_ok_def)
  then have "bit (share_parent e) 4" using share_bits(7) [of s e] a(6) by simp
  moreover have "bit (share_parent e) 8" using a(5) by (simp add: share_parent_def pte_simps share_flags_bit)
  ultimately show thesis using that [OF copiedD(1) [OF s'(1)] a(2) e] s'(2) a(7) by simp
qed

theorem cowfault_cow_witness:
  "\<exists>s old new pa s'. cowfault s old 0 = Ok (pa, s') \<and> pa \<noteq> 0 \<and> uview (pmem s') new = uview (pmem s) new \<and>
     mappings (pmem s') {old, new} pa = {(old, 0)}"
proof (rule shared_space)
  fix s old new e
  assume a: "vm_inv s {old, new} (\<lambda>_. 0)" "old \<noteq> new" "umap (pmem s) old 0 = Some e" "bit e 4" "bit e 8" "0 < nfree s"
  have z: "PGROUNDDOWN 0 = (0 :: uint64)" by (simp add: PGROUNDDOWN_def)
  have "\<exists>pa s'. cowfault s old 0 = Ok (pa, s') \<and> vm_inv s' {old, new} (\<lambda>_. 0) \<and>
    (\<forall>r'. r' \<in> {old, new} \<longrightarrow> uview (pmem s') r' = uview (pmem s) r') \<and>
    (pa \<noteq> 0 \<longrightarrow> (\<exists>e. umap (pmem s') old (PGROUNDDOWN 0) = Some e \<and> PTE2PA e = pa \<and> bit e 2 \<and> \<not> bit e 8) \<and>
       mappings (pmem s') {old, new} pa = {(old, PGROUNDDOWN 0)} \<and> rc s' pa = 1) \<and>
    (0 < MAXVA \<and> 0 < nfree s \<and> (\<exists>e. umap (pmem s) old (PGROUNDDOWN 0) = Some e \<and> bit e 4 \<and> bit e 8) \<longrightarrow> pa \<noteq> 0)"
    by (rule cowfault_cow [OF a(1)]) simp_all
  then obtain pa s' where c: "cowfault s old 0 = Ok (pa, s')"
    "\<forall>r'. r' \<in> {old, new} \<longrightarrow> uview (pmem s') r' = uview (pmem s) r'"
    "pa \<noteq> 0 \<longrightarrow> mappings (pmem s') {old, new} pa = {(old, PGROUNDDOWN 0)}"
    "0 < MAXVA \<and> 0 < nfree s \<and> (\<exists>e. umap (pmem s) old (PGROUNDDOWN 0) = Some e \<and> bit e 4 \<and> bit e 8) \<longrightarrow> pa \<noteq> 0"
    by blast
  have "pa \<noteq> 0" using c(4) a(3-6) z by simp
  then show ?thesis using c(1-3) z by (intro exI [of _ s] exI [of _ old] exI [of _ new] exI [of _ pa] exI [of _ s']) simp
qed

section \<open>Copying to and from user memory\<close>

text \<open>C4. \<^verbatim>\<open>copyout()\<close> always returns and keeps the invariant, and no other process sees a
  change, although pages may be shared. On success the bytes of \<open>src\<close> are in view at
  \<open>dstva\<close>; on failure a prefix of them is. Every other byte the process saw it still sees.\<close>

theorem copyout_isolated:
  assumes "vm_inv s R X" and "\<And>x. 0 \<le> X x" and "r \<in> R" and "psz \<le> TRAPFRAME" and "length src < 2 ^ 64"
  shows "\<exists>ret n s'. copyout psz r s r dstva src = Ok (ret, s') \<and> vm_inv s' R X \<and> n \<le> length src \<and>
    (ret = 0 \<and> n = length src \<or> ret = -1) \<and>
    (\<forall>r'. r' \<in> R \<and> r' \<noteq> r \<longrightarrow> uview (pmem s') r' = uview (pmem s) r') \<and>
    (\<forall>i. i < n \<longrightarrow> uview (pmem s') r (dstva + of_nat i) = Some (src ! i)) \<and>
    (\<forall>va b. \<not> unat (va - dstva) < n \<and> uview (pmem s) r va = Some b \<longrightarrow> uview (pmem s') r va = Some b)"
proof -
  obtain ret n s' where s': "copyout_loop (length src + 1) psz r s r dstva src = Ok (ret, s')" "vm_inv s' R X" "n \<le> length src"
    "written s R r dstva (take n src) s'" "ret = 0 \<and> n = length src \<or> ret = -1"
    using copyout_vm [OF assms(1-4) _ assms(5), of "length src + 1" dstva] by auto
  note d = writtenD [OF s'(4)]
  have "uview (pmem s') r (dstva + of_nat i) = Some (src ! i)" if "i < n" for i
    using d(2) [of "dstva + of_nat i"] that s'(3) assms(5) by (simp add: unat_of_nat)
  then show ?thesis using s' d(1,3) by (intro exI [of _ ret] exI [of _ n] exI [of _ s']) (auto simp: copyout_def)
qed

theorem copyout_isolated_witness:
  "\<exists>s old new ret s'. copyout 4096 old s old 10 [1, 2, 3] = Ok (ret, s') \<and> (ret = 0 \<or> ret = -1) \<and>
     uview (pmem s') new = uview (pmem s) new \<and> uview (pmem s) new 0 \<noteq> None"
proof (rule two_spaces)
  fix s old new e
  assume a: "vm_inv s {old, new} (\<lambda>_. 0)" "old \<noteq> new" "\<And>va. umap (pmem s) new va = None"
    "umap (pmem s) old 0 = Some e" "bit e 4" "10 \<le> nfree s"
  obtain s1 where s1: "copied s {old, new} (\<lambda>_. 0) old new 4096 s1"
    using uvmcopy_vm [OF a(1), of old new 4096] a(2,3,6) by auto
  have "uview (pmem s1) new 0 \<noteq> None"
    using copied_view(2) [OF a(1) _ _ a(2) s1 a(3), of 0] a(4,5) by (simp add: uview_def PGROUNDDOWN_def)
  moreover have "\<exists>ret n s'. copyout 4096 old s1 old 10 [1, 2, 3] = Ok (ret, s') \<and> vm_inv s' {old, new} (\<lambda>_. 0) \<and> n \<le> length [1, 2, 3 :: uchar] \<and>
    (ret = 0 \<and> n = length [1, 2, 3 :: uchar] \<or> ret = -1) \<and>
    (\<forall>r'. r' \<in> {old, new} \<and> r' \<noteq> old \<longrightarrow> uview (pmem s') r' = uview (pmem s1) r') \<and>
    (\<forall>i. i < n \<longrightarrow> uview (pmem s') old (10 + of_nat i) = Some ([1, 2, 3] ! i)) \<and>
    (\<forall>va b. \<not> unat (va - 10) < n \<and> uview (pmem s1) old va = Some b \<longrightarrow> uview (pmem s') old va = Some b)"
    by (rule copyout_isolated [OF copiedD(1) [OF s1]]) simp_all
  then obtain ret s' where "copyout 4096 old s1 old 10 [1, 2, 3] = Ok (ret, s')" "ret = 0 \<or> ret = -1"
    "\<forall>r'. r' \<in> {old, new} \<and> r' \<noteq> old \<longrightarrow> uview (pmem s') r' = uview (pmem s1) r'" by blast
  ultimately show ?thesis using a(2) by blast
qed

text \<open>C5. Reading back what \<^verbatim>\<open>copyout()\<close> wrote: \<^verbatim>\<open>copyin()\<close> at the same address succeeds and
  returns the same bytes.\<close>

theorem copyout_copyin:
  assumes "vm_inv s R X" and "\<And>x. 0 \<le> X x" and "r \<in> R" and "psz \<le> TRAPFRAME" and "length src < 2 ^ 64"
    and out: "copyout psz r s r dstva src = Ok (0, s1)"
  shows "\<exists>s2. copyin psz r s1 r dstva (length src) = Ok (0, src, s2)"
proof -
  obtain n where s1: "vm_inv s1 R X" "written s R r dstva (take (length src) src) s1"
    using copyout_vm [OF assms(1-4) _ assms(5), of "length src + 1" dstva] out by (auto simp: copyout_def)
  have v: "uview (pmem s1) r (dstva + of_nat i) = Some (src ! i)" if "i < length src" for i
    using writtenD(2) [OF s1(2), of "dstva + of_nat i"] that assms(5) by (simp add: unat_of_nat)
  obtain ret bs s2 where c: "copyin_loop (length src + 1) psz r s1 r dstva (length src) = Ok (ret, bs, s2)"
    "view_ext s1 R r s2" "reads s2 r dstva bs" "ret = 0 \<and> length bs = length src \<or> ret = -1"
    "(\<forall>i<length src. uview (pmem s1) r (dstva + of_nat i) \<noteq> None) \<longrightarrow> ret = 0"
    using copyin_vm [OF s1(1) assms(3,4) less_add_one [of "length src"], of dstva] by blast
  have "ret = 0" using c(5) v by simp
  then have len: "length bs = length src" using c(4) by simp
  have "bs ! i = src ! i" if "i < length src" for i
    using c(2,3) v [OF that] that len by (auto simp: reads_def view_ext_def)
  then have "bs = src" using len by (intro nth_equalityI) auto
  then show ?thesis using c(1) \<open>ret = 0\<close> by (auto simp: copyin_def)
qed

theorem copyout_copyin_witness:
  "\<exists>s old s1 s2. copyout 4096 old s old 10 [1, 2, 3] = Ok (0, s1) \<and> copyin 4096 old s1 old 10 3 = Ok (0, [1, 2, 3], s2)"
proof (rule two_spaces)
  fix s old new e
  assume a: "vm_inv s {old, new} (\<lambda>_. 0)" "umap (pmem s) old 0 = Some e" "bit e 2" "bit e 4" "\<not> bit e 8"
  have "uwritable (pmem s) old (10 + of_nat i)" if "i < 3" for i
  proof -
    have "i \<in> {0, 1, 2}" using that by auto
    then have "PGROUNDDOWN (10 + of_nat i) = 0" by (auto simp: PGROUNDDOWN_def)
    then show ?thesis using a by (simp add: uwritable_def)
  qed
  then have w: "\<forall>i<length [1, 2, 3 :: uchar]. uwritable (pmem s) old (10 + of_nat i)" by simp
  obtain ret s1 where c: "copyout_loop (length [1, 2, 3 :: uchar] + 1) 4096 old s old 10 [1, 2, 3] = Ok (ret, s1)"
    "(\<forall>i<length [1, 2, 3 :: uchar]. uwritable (pmem s) old (10 + of_nat i)) \<longrightarrow> ret = 0"
    using copyout_vm [OF a(1), of old 4096 "[1, 2, 3]" "length [1, 2, 3 :: uchar] + 1" 10] by auto
  have s1: "copyout 4096 old s old 10 [1, 2, 3] = Ok (0, s1)"
    unfolding copyout_def c(1) using c(2) w by blast
  have "\<exists>s2. copyin 4096 old s1 old 10 (length [1, 2, 3 :: uchar]) = Ok (0, [1, 2, 3], s2)"
    by (rule copyout_copyin [OF a(1) _ _ _ _ s1]) simp_all
  moreover have "length [1, 2, 3 :: uchar] = 3" by simp
  ultimately show ?thesis using s1 by (simp only:) blast
qed

end
