(* ===== verification/Spinlock.thy ===== *)
theory Spinlock
  imports Riscv
begin

text \<open>
  Spin locks and interrupt nesting: \<^verbatim>\<open>kernel/spinlock.c\<close> with \<^verbatim>\<open>struct cpu\<close> of
  \<^verbatim>\<open>kernel/proc.h\<close>. A routine runs on one CPU, named by its hart number, and takes that
  CPU's record. The interrupt-enable bit of \<^verbatim>\<open>sstatus\<close> is the field \<open>sie\<close>. \<open>acquire\<close> is
  the whole routine when the lock can be had; it is \<open>Blocked\<close> while another CPU holds the
  lock. The last section models the routines at the grain of their shared-memory accesses,
  on any number of CPUs.
\<close>

section \<open>Interrupt nesting\<close>

record cpu =
  cproc :: "nat option"
  noff :: int
  intena :: bool
  sie :: bool

definition intr_on :: "cpu \<Rightarrow> cpu" where
  "intr_on c = c\<lparr>sie := True\<rparr>"

definition intr_off :: "cpu \<Rightarrow> cpu" where
  "intr_off c = c\<lparr>sie := False\<rparr>"

definition intr_get :: "cpu \<Rightarrow> bool" where
  "intr_get c = sie c"

definition push_off :: "cpu \<Rightarrow> cpu" where
  "push_off c =
     (let old = sie c; c = c\<lparr>sie := False\<rparr>;
          c = (if noff c = 0 then c\<lparr>intena := old\<rparr> else c)
      in c\<lparr>noff := noff c + 1\<rparr>)"

definition pop_off :: "cpu \<Rightarrow> cpu res" where
  "pop_off c =
     (if intr_get c then Panic ''pop_off - interruptible''
      else if noff c < 1 then Panic ''pop_off''
      else let c = c\<lparr>noff := noff c - 1\<rparr> in
        if noff c = 0 \<and> intena c then Ok (intr_on c) else Ok c)"

section \<open>Locks\<close>

record spinlock =
  locked :: bool
  lname :: string
  lcpu :: "nat option"

definition initlock :: "string \<Rightarrow> spinlock" where
  "initlock nm = \<lparr>locked = False, lname = nm, lcpu = None\<rparr>"

definition holding :: "nat \<Rightarrow> spinlock \<Rightarrow> bool" where
  "holding h lk \<longleftrightarrow> locked lk \<and> lcpu lk = Some h"

definition acquire :: "nat \<Rightarrow> cpu \<Rightarrow> spinlock \<Rightarrow> (cpu \<times> spinlock) res" where
  "acquire h c lk =
     (let c = push_off c in
      if holding h lk then Panic ''acquire''
      else if locked lk then Blocked ''acquire''
      else Ok (c, lk\<lparr>locked := True, lcpu := Some h\<rparr>))"

definition release :: "nat \<Rightarrow> cpu \<Rightarrow> spinlock \<Rightarrow> (cpu \<times> spinlock) res" where
  "release h c lk =
     (if \<not> holding h lk then Panic ''release''
      else bindR (pop_off c) (\<lambda>c. Ok (c, lk\<lparr>lcpu := None, locked := False\<rparr>)))"

section \<open>The routines step by step, on many CPUs\<close>

text \<open>
  Where a CPU is: outside, spinning on the exchange of \<^verbatim>\<open>acquire()\<close>, past it but before
  \<^verbatim>\<open>lk->cpu\<close> is recorded, in the critical section, and in \<^verbatim>\<open>release()\<close> between clearing
  \<^verbatim>\<open>lk->cpu\<close> and the store that frees the lock.
\<close>

datatype lockpc = Out | Spin | Got | In | Rel | Dead

record lockstate =
  the_lock :: spinlock
  lcpus :: "nat \<Rightarrow> cpu"
  lpc :: "nat \<Rightarrow> lockpc"

text \<open>\<open>Dead\<close> is a CPU that has called \<^verbatim>\<open>panic()\<close>.\<close>

inductive lock_step :: "lockstate \<Rightarrow> lockstate \<Rightarrow> bool" where
  enter: "lpc s h = Out \<Longrightarrow>
    lock_step s (s\<lparr>lcpus := (lcpus s)(h := push_off (lcpus s h)),
                   lpc := (lpc s)(h := if holding h (the_lock s) then Dead else Spin)\<rparr>)"
| swap: "lpc s h = Spin \<Longrightarrow> \<not> locked (the_lock s) \<Longrightarrow>
    lock_step s (s\<lparr>the_lock := (the_lock s)\<lparr>locked := True\<rparr>, lpc := (lpc s)(h := Got)\<rparr>)"
| spin: "lpc s h = Spin \<Longrightarrow> locked (the_lock s) \<Longrightarrow> lock_step s s"
| note_cpu: "lpc s h = Got \<Longrightarrow>
    lock_step s (s\<lparr>the_lock := (the_lock s)\<lparr>lcpu := Some h\<rparr>, lpc := (lpc s)(h := In)\<rparr>)"
| leave: "lpc s h = In \<Longrightarrow> holding h (the_lock s) \<Longrightarrow>
    lock_step s (s\<lparr>the_lock := (the_lock s)\<lparr>lcpu := None\<rparr>, lpc := (lpc s)(h := Rel)\<rparr>)"
| leave_panic: "lpc s h = In \<Longrightarrow> \<not> holding h (the_lock s) \<Longrightarrow>
    lock_step s (s\<lparr>lpc := (lpc s)(h := Dead)\<rparr>)"
| free: "lpc s h = Rel \<Longrightarrow> pop_off (lcpus s h) = Ok c \<Longrightarrow>
    lock_step s (s\<lparr>the_lock := (the_lock s)\<lparr>locked := False\<rparr>, lcpus := (lcpus s)(h := c), lpc := (lpc s)(h := Out)\<rparr>)"
| free_panic: "lpc s h = Rel \<Longrightarrow> pop_off (lcpus s h) = Panic e \<Longrightarrow>
    lock_step s (s\<lparr>the_lock := (the_lock s)\<lparr>locked := False\<rparr>, lpc := (lpc s)(h := Dead)\<rparr>)"

text \<open>
  The CPUs outside hold no lock and may have interrupts on or off.
\<close>

definition lock_start :: "lockstate \<Rightarrow> bool" where
  "lock_start s \<longleftrightarrow> \<not> locked (the_lock s) \<and> lcpu (the_lock s) = None \<and>
     (\<forall>h. lpc s h = Out \<and> noff (lcpus s h) = 0)"

inductive_cases lock_stepE: "lock_step s s'"

section \<open>Interrupt nesting is balanced\<close>

lemma push_off_simps [simp]:
  "sie (push_off c) = False" "noff (push_off c) = noff c + 1"
  "intena (push_off c) = (if noff c = 0 then sie c else intena c)" "cproc (push_off c) = cproc c"
  by (simp_all add: push_off_def Let_def)

lemma pop_push_off:
  assumes "0 \<le> noff c" and "0 < noff c \<longrightarrow> \<not> sie c"
  shows "\<exists>c'. pop_off (push_off c) = Ok c' \<and> noff c' = noff c \<and> sie c' = sie c \<and> cproc c' = cproc c \<and>
    (0 < noff c \<longrightarrow> intena c' = intena c)"
  using assms by (auto simp: pop_off_def intr_get_def intr_on_def Let_def)

primrec push_offs :: "nat \<Rightarrow> cpu \<Rightarrow> cpu" where
  "push_offs 0 c = c"
| "push_offs (Suc n) c = push_off (push_offs n c)"

primrec pop_offs :: "nat \<Rightarrow> cpu \<Rightarrow> cpu res" where
  "pop_offs 0 c = Ok c"
| "pop_offs (Suc n) c = bindR (pop_off c) (pop_offs n)"

lemma push_offs_sie: "noff (push_offs n c) = noff c + int n" "0 < n \<Longrightarrow> \<not> sie (push_offs n c)"
  by (induction n) auto

lemma pop_offs_Ok:
  assumes "\<not> sie c" and "0 < n" and "noff c = int n"
  shows "pop_offs n c = Ok (c\<lparr>noff := 0, sie := intena c\<rparr>)"
  using assms
proof (induction n arbitrary: c)
  case (Suc n)
  show ?case
  proof (cases n)
    case 0
    then show ?thesis using Suc.prems by (cases c) (simp add: pop_off_def intr_get_def intr_on_def Let_def)
  next
    case (Suc m)
    then have "pop_off c = Ok (c\<lparr>noff := noff c - 1\<rparr>)" using Suc.prems by (simp add: pop_off_def intr_get_def)
    then show ?thesis using Suc Suc.prems Suc.IH [of "c\<lparr>noff := noff c - 1\<rparr>"] by simp
  qed
qed simp

lemma push_offs_intena: "noff c = 0 \<Longrightarrow> 0 < n \<Longrightarrow> intena (push_offs n c) = sie c"
proof (induction n)
  case (Suc n)
  then show ?case by (cases n) (auto simp: push_offs_sie)
qed simp

lemma push_offs_cproc: "cproc (push_offs n c) = cproc c"
  by (induction n) auto

text \<open>C14. However deep \<^verbatim>\<open>push_off()\<close> is nested from the outermost level, interrupts are off inside, and the same
  number of \<^verbatim>\<open>pop_off()\<close> calls returns without a panic to the interrupt state the first call found.\<close>

theorem push_pop_balanced:
  assumes "noff c = 0" and "0 < n"
  shows "\<not> sie (push_offs n c) \<and>
    (\<exists>c'. pop_offs n (push_offs n c) = Ok c' \<and> sie c' = sie c \<and> noff c' = 0 \<and> cproc c' = cproc c)"
  using assms by (simp add: pop_offs_Ok push_offs_sie push_offs_intena push_offs_cproc)

theorem push_pop_balanced_witness:
  "\<exists>c'. pop_offs 3 (push_offs 3 \<lparr>cproc = None, noff = 0, intena = False, sie = True\<rparr>) = Ok c' \<and> sie c'"
  using push_pop_balanced [of "\<lparr>cproc = None, noff = 0, intena = False, sie = True\<rparr>" 3] by auto

section \<open>Mutual exclusion\<close>

definition in_lock :: "lockpc \<Rightarrow> bool" where
  "in_lock p \<longleftrightarrow> p \<in> {Got, In, Rel}"

text \<open>
  The lock's invariant: the lock word is set exactly when some CPU is past the exchange, one CPU at most is,
  \<^verbatim>\<open>lk->cpu\<close> names the CPU in the critical section and nobody else, no CPU has panicked, and a CPU
  between its \<^verbatim>\<open>push_off()\<close> and \<^verbatim>\<open>pop_off()\<close> has interrupts off.
\<close>

definition lock_inv :: "lockstate \<Rightarrow> bool" where
  "lock_inv s \<longleftrightarrow> (locked (the_lock s) \<longleftrightarrow> (\<exists>h. in_lock (lpc s h))) \<and>
     (\<forall>h h'. in_lock (lpc s h) \<longrightarrow> in_lock (lpc s h') \<longrightarrow> h = h') \<and>
     (\<forall>h. lcpu (the_lock s) = Some h \<longleftrightarrow> lpc s h = In) \<and>
     (\<forall>h. lpc s h \<noteq> Dead) \<and>
     (\<forall>h. lpc s h = Out \<longrightarrow> noff (lcpus s h) = 0) \<and>
     (\<forall>h. lpc s h \<noteq> Out \<longrightarrow> noff (lcpus s h) = 1 \<and> \<not> sie (lcpus s h))"

lemma lock_invD:
  assumes "lock_inv s"
  shows "locked (the_lock s) \<longleftrightarrow> (\<exists>h. in_lock (lpc s h))"
    "in_lock (lpc s h) \<Longrightarrow> in_lock (lpc s h') \<Longrightarrow> h = h'"
    "lcpu (the_lock s) = Some h \<longleftrightarrow> lpc s h = In" "lpc s h \<noteq> Dead"
    "lpc s h = Out \<Longrightarrow> noff (lcpus s h) = 0" "lpc s h \<noteq> Out \<Longrightarrow> noff (lcpus s h) = 1 \<and> \<not> sie (lcpus s h)"
  using assms unfolding lock_inv_def by - (elim conjE; simp; fail | elim conjE; blast)+

lemma lock_inv_start: "lock_start s \<Longrightarrow> lock_inv s"
  by (auto simp: lock_start_def lock_inv_def in_lock_def)

lemma lock_inv_step:
  assumes "lock_step s s'" and "lock_inv s"
  shows "lock_inv s'"
  using assms(1)
proof cases
  case (enter h)
  have "\<not> holding h (the_lock s)" using lock_invD(3) [OF assms(2), of h] enter by (simp add: holding_def)
  then show ?thesis using assms(2) enter unfolding lock_inv_def in_lock_def by auto
next
  case (swap h)
  have "\<not> in_lock (lpc s h')" for h' using lock_invD(1) [OF assms(2)] swap by blast
  moreover have "lcpu (the_lock s) = None" using lock_invD(3) [OF assms(2)] calculation unfolding in_lock_def by (cases "lcpu (the_lock s)") force+
  ultimately show ?thesis using assms(2) swap unfolding lock_inv_def in_lock_def by auto
next
  case (note_cpu h)
  have only: "in_lock (lpc s h') \<longleftrightarrow> h' = h" for h' using lock_invD(2) [OF assms(2), of h h'] note_cpu by (auto simp: in_lock_def)
  then show ?thesis using assms(2) note_cpu unfolding lock_inv_def in_lock_def by auto
next
  case (leave h)
  have only: "in_lock (lpc s h') \<longleftrightarrow> h' = h" for h' using lock_invD(2) [OF assms(2), of h h'] leave by (auto simp: in_lock_def)
  then show ?thesis using assms(2) leave unfolding lock_inv_def in_lock_def by auto
next
  case (leave_panic h)
  then show ?thesis using lock_invD(1,3) [OF assms(2)] by (auto simp: holding_def in_lock_def)
next
  case (free h c)
  have only: "in_lock (lpc s h') \<longleftrightarrow> h' = h" for h' using lock_invD(2) [OF assms(2), of h h'] free by (auto simp: in_lock_def)
  moreover have "noff c = 0" using free lock_invD(6) [OF assms(2), of h]
    by (auto simp: pop_off_def intr_get_def intr_on_def Let_def split: if_splits)
  moreover have "lcpu (the_lock s) = None" using lock_invD(3) [OF assms(2)] only free unfolding in_lock_def by (cases "lcpu (the_lock s)") force+
  ultimately show ?thesis using assms(2) free unfolding lock_inv_def in_lock_def by auto
next
  case (free_panic h e)
  then show ?thesis using lock_invD(6) [OF assms(2), of h]
    by (auto simp: pop_off_def intr_get_def Let_def split: if_splits)
qed (use assms(2) in simp)

lemma lock_inv_reach: "lock_step\<^sup>*\<^sup>* s s' \<Longrightarrow> lock_inv s \<Longrightarrow> lock_inv s'"
  by (induction rule: rtranclp_induct) (auto intro: lock_inv_step)

text \<open>C8. On any number of CPUs, however their exchanges and stores interleave, at most one CPU is past the exchange
  of \<^verbatim>\<open>acquire()\<close> at a time, the CPU in its critical section is the one \<^verbatim>\<open>holding()\<close> reports, its interrupts are off,
  and neither \<^verbatim>\<open>acquire()\<close> nor \<^verbatim>\<open>release()\<close> panics.\<close>

theorem spinlock_mutex:
  assumes "lock_start s" and "lock_step\<^sup>*\<^sup>* s s'"
  shows "(\<forall>h h'. in_lock (lpc s' h) \<and> in_lock (lpc s' h') \<longrightarrow> h = h') \<and>
    (\<forall>h. lpc s' h = In \<longrightarrow> (\<forall>h'. holding h' (the_lock s') \<longleftrightarrow> h' = h) \<and> \<not> sie (lcpus s' h)) \<and> (\<forall>h. lpc s' h \<noteq> Dead)"
proof -
  have inv: "lock_inv s'" using lock_inv_reach [OF assms(2)] lock_inv_start [OF assms(1)] by blast
  have "holding h' (the_lock s') \<longleftrightarrow> h' = h" "\<not> sie (lcpus s' h)" if "lpc s' h = In" for h h'
    using that lock_invD(1) [OF inv] lock_invD(3,6) [OF inv, of h] lock_invD(3) [OF inv, of h'] by (auto simp: holding_def in_lock_def)
  then show ?thesis using lock_invD(2,4) [OF inv] by blast
qed

text \<open>The atomic \<^verbatim>\<open>acquire()\<close> and \<^verbatim>\<open>release()\<close> are what the steps of one CPU compose to.\<close>

theorem acquire_steps:
  assumes "lpc s h = Out" and "acquire h (lcpus s h) (the_lock s) = Ok (c, l)"
  shows "lock_step\<^sup>*\<^sup>* s (s\<lparr>lcpus := (lcpus s)(h := c), the_lock := l, lpc := (lpc s)(h := In)\<rparr>)"
proof -
  have a: "\<not> holding h (the_lock s)" "\<not> locked (the_lock s)" "c = push_off (lcpus s h)" "l = (the_lock s)\<lparr>locked := True, lcpu := Some h\<rparr>"
    using assms(2) by (auto simp: acquire_def Let_def split: if_splits)
  let ?s1 = "s\<lparr>lcpus := (lcpus s)(h := c), lpc := (lpc s)(h := Spin)\<rparr>"
  let ?s2 = "?s1\<lparr>the_lock := (the_lock s)\<lparr>locked := True\<rparr>, lpc := (lpc s)(h := Got)\<rparr>"
  have "lock_step s ?s1" using enter [of s h] assms(1) a(1,3) by simp
  moreover have "lock_step ?s1 ?s2" using swap [of ?s1 h] a(2) by simp
  moreover have "lock_step ?s2 (s\<lparr>lcpus := (lcpus s)(h := c), the_lock := l, lpc := (lpc s)(h := In)\<rparr>)"
    using note_cpu [of ?s2 h] a(4) by simp
  ultimately show ?thesis by (meson converse_rtranclp_into_rtranclp rtranclp.rtrancl_refl)
qed

definition lock_boot :: lockstate where
  "lock_boot = \<lparr>the_lock = initlock ''kmem'', lcpus = (\<lambda>_. \<lparr>cproc = None, noff = 0, intena = False, sie = True\<rparr>), lpc = (\<lambda>_. Out)\<rparr>"

theorem spinlock_mutex_witness:
  "\<exists>s. lock_step\<^sup>*\<^sup>* lock_boot s \<and> lpc s 1 = In \<and> holding 1 (the_lock s) \<and> \<not> holding 0 (the_lock s)"
proof -
  have st: "lock_start lock_boot" by (simp add: lock_start_def lock_boot_def initlock_def)
  obtain c l where "acquire 1 (lcpus lock_boot 1) (the_lock lock_boot) = Ok (c, l)"
    by (simp add: lock_boot_def acquire_def holding_def initlock_def)
  then have r: "lock_step\<^sup>*\<^sup>* lock_boot (lock_boot\<lparr>lcpus := (lcpus lock_boot)(1 := c), the_lock := l, lpc := (lpc lock_boot)(1 := In)\<rparr>)"
    by (rule acquire_steps [rotated]) (simp add: lock_boot_def)
  have h: "holding h l \<longleftrightarrow> h = 1" for h
    using spinlock_mutex [OF st r, THEN conjunct2, THEN conjunct1, rule_format, of 1] by simp
  show ?thesis by (rule exI, rule conjI [OF r]) (simp add: h)
qed

end
