(* ===== verification/Proc.thy ===== *)
theory Proc
  imports Vm_Cow Spinlock
begin

text \<open>
  The process table of \<^verbatim>\<open>kernel/proc.c\<close> and \<^verbatim>\<open>kernel/proc.h\<close>. A \<^verbatim>\<open>struct proc *\<close> is the
  index of its slot, and the null pointer is \<open>None\<close>. A sleep channel, a bare address in C,
  is the kernel object whose address it is. Each routine holds the locks that
  make it atomic, so it is one transition of the state; the current process is an argument.
  \<open>trampoline\<close> and \<open>forkret_pc\<close> are addresses the linker chooses. The trapframe lives in
  its physical page and is read and written there, field by field, at the offsets that
  \<^verbatim>\<open>proc.h\<close> gives. Pids are C \<^verbatim>\<open>int\<close>s that never overflow here.
\<close>

section \<open>proc.h\<close>

datatype procstate = UNUSED | USED | SLEEPING | RUNNABLE | RUNNING | ZOMBIE

datatype chan = NoChan | ChanProc nat | ChanTicks | ChanNread uint64 | ChanNwrite uint64
  | ChanLog | ChanBuf nat | ChanInode nat | ChanDisk | ChanCons | ChanUart

record kcontext =
  ra :: uint64
  sp :: uint64
  s_regs :: "uint64 list"

record proc =
  state :: procstate
  chan :: chan
  pkilled :: int
  xstate :: int
  pid :: int
  priority :: int
  ready_since :: uint
  parent :: "nat option"
  kstack :: uint64
  sz :: uint64
  pagetable :: uint64
  trapframe :: uint64
  pcontext :: kcontext
  ofile :: "nat \<Rightarrow> nat option"
  cwd :: "nat option"
  pname :: "uchar list"

text \<open>Offsets of the fields of \<^verbatim>\<open>struct trapframe\<close> that the kernel names, and its size.\<close>

definition tf_kernel_satp :: uint64 where [simp]: "tf_kernel_satp = 0"
definition tf_kernel_sp :: uint64 where [simp]: "tf_kernel_sp = 8"
definition tf_kernel_trap :: uint64 where [simp]: "tf_kernel_trap = 16"
definition tf_epc :: uint64 where [simp]: "tf_epc = 24"
definition tf_kernel_hartid :: uint64 where [simp]: "tf_kernel_hartid = 32"
definition tf_sp :: uint64 where [simp]: "tf_sp = 48"
definition tf_a0 :: uint64 where [simp]: "tf_a0 = 112"
definition tf_a1 :: uint64 where [simp]: "tf_a1 = 120"
definition tf_a7 :: uint64 where [simp]: "tf_a7 = 168"
definition tf_size :: nat where [simp]: "tf_size = 288"

section \<open>The process table\<close>

record kstate =
  ph :: phys
  procs :: "nat \<Rightarrow> proc"
  nextpid :: int
  initproc :: "nat option"
  ticks :: uint
  trampoline :: uint64
  forkret_pc :: uint64

definition upd_proc :: "nat \<Rightarrow> (proc \<Rightarrow> proc) \<Rightarrow> 'a kstate_scheme \<Rightarrow> 'a kstate_scheme" where
  "upd_proc i f s = s\<lparr>procs := (procs s)(i := f (procs s i))\<rparr>"

text \<open>Running a routine of the memory components on the kernel's memory.\<close>

definition on_ph :: "(phys \<Rightarrow> phys res) \<Rightarrow> 'a kstate_scheme \<Rightarrow> 'a kstate_scheme res" where
  "on_ph f s = bindR (f (ph s)) (\<lambda>h. Ok (s\<lparr>ph := h\<rparr>))"

definition with_ph :: "(phys \<Rightarrow> ('b \<times> phys) res) \<Rightarrow> 'a kstate_scheme \<Rightarrow> ('b \<times> 'a kstate_scheme) res" where
  "with_ph f s = bindR (f (ph s)) (\<lambda>(r, h). Ok (r, s\<lparr>ph := h\<rparr>))"

definition load_tf :: "'a kstate_scheme \<Rightarrow> nat \<Rightarrow> uint64 \<Rightarrow> uint64" where
  "load_tf s p off = load64 (pmem (ph s)) (trapframe (procs s p) + off)"

definition store_tf :: "nat \<Rightarrow> uint64 \<Rightarrow> uint64 \<Rightarrow> 'a kstate_scheme \<Rightarrow> 'a kstate_scheme" where
  "store_tf p off v s =
     s\<lparr>ph := (ph s)\<lparr>pmem := store64 (pmem (ph s)) (trapframe (procs s p) + off) v\<rparr>\<rparr>"

text \<open>The zeroed process table and the initialised globals a kernel image starts with.\<close>

definition zero_proc :: proc where
  "zero_proc = \<lparr>state = UNUSED, chan = NoChan, pkilled = 0, xstate = 0, pid = 0, priority = 0, ready_since = 0,
     parent = None, kstack = 0, sz = 0, pagetable = 0, trapframe = 0,
     pcontext = \<lparr>ra = 0, sp = 0, s_regs = replicate 12 0\<rparr>, ofile = (\<lambda>_. None), cwd = None, pname = replicate 16 0\<rparr>"

definition start_kstate :: "phys \<Rightarrow> uint64 \<Rightarrow> uint64 \<Rightarrow> kstate" where
  "start_kstate h tramp fpc = \<lparr>ph = h, procs = (\<lambda>_. zero_proc), nextpid = 1, initproc = None, ticks = 0,
     trampoline = tramp, forkret_pc = fpc\<rparr>"

definition procinit :: "'a kstate_scheme \<Rightarrow> 'a kstate_scheme" where
  "procinit s = s\<lparr>procs := (\<lambda>i. if i < NPROC then (procs s i)\<lparr>state := UNUSED, kstack := KSTACK i\<rparr> else procs s i)\<rparr>"

definition allocpid :: "'a kstate_scheme \<Rightarrow> int \<times> 'a kstate_scheme" where
  "allocpid s = (nextpid s, s\<lparr>nextpid := nextpid s + 1\<rparr>)"

section \<open>Page tables of processes\<close>

definition proc_pagetable :: "uint64 \<Rightarrow> uint64 \<Rightarrow> phys \<Rightarrow> (uint64 \<times> phys) res" where
  "proc_pagetable tramp tf h =
     (let (pt, h) = uvmcreate h in
      if pt = 0 then Ok (0, h)
      else bindR (mappages h pt TRAMPOLINE PGSIZE tramp (PTE_R OR PTE_X)) (\<lambda>(r, h).
        if r < 0 then bindR (uvmfree h pt 0) (\<lambda>h. Ok (0, h))
        else bindR (mappages h pt TRAPFRAME PGSIZE tf (PTE_R OR PTE_W)) (\<lambda>(r, h).
          if r < 0
          then bindR (uvmunmap h pt TRAMPOLINE 1 False) (\<lambda>h. bindR (uvmfree h pt 0) (\<lambda>h. Ok (0, h)))
          else Ok (pt, h))))"

definition proc_freepagetable :: "uint64 \<Rightarrow> uint64 \<Rightarrow> phys \<Rightarrow> phys res" where
  "proc_freepagetable pt psz h =
     bindR (uvmunmap h pt TRAMPOLINE 1 False) (\<lambda>h.
     bindR (uvmunmap h pt TRAPFRAME 1 False) (\<lambda>h. uvmfree h pt psz))"

section \<open>Allocating and freeing slots\<close>

definition freeproc :: "nat \<Rightarrow> 'a kstate_scheme \<Rightarrow> 'a kstate_scheme res" where
  "freeproc p s =
     bindR (if trapframe (procs s p) \<noteq> 0 then on_ph (\<lambda>h. kfree h (trapframe (procs s p))) s else Ok s) (\<lambda>s.
     let s = upd_proc p (\<lambda>x. x\<lparr>trapframe := 0\<rparr>) s in
     bindR (if pagetable (procs s p) \<noteq> 0
            then on_ph (proc_freepagetable (pagetable (procs s p)) (sz (procs s p))) s else Ok s) (\<lambda>s.
     Ok (upd_proc p (\<lambda>x. x\<lparr>pagetable := 0, sz := 0, pid := 0, parent := None, pname := (pname x)[0 := 0],
           chan := NoChan, pkilled := 0, xstate := 0, priority := DEFAULT_PRIORITY, ready_since := 0,
           state := UNUSED\<rparr>) s)))"

definition allocproc :: "'a kstate_scheme \<Rightarrow> (nat option \<times> 'a kstate_scheme) res" where
  "allocproc s =
     (case find (\<lambda>i. state (procs s i) = UNUSED) [0..<NPROC] of
        None \<Rightarrow> Ok (None, s)
      | Some p \<Rightarrow>
        let (id, s) = allocpid s;
            s = upd_proc p (\<lambda>x. x\<lparr>pid := id, state := USED, priority := DEFAULT_PRIORITY, ready_since := 0\<rparr>) s;
            (tf, h) = kalloc (ph s);
            s = upd_proc p (\<lambda>x. x\<lparr>trapframe := tf\<rparr>) (s\<lparr>ph := h\<rparr>)
        in if tf = 0 then bindR (freeproc p s) (\<lambda>s. Ok (None, s))
           else bindR (with_ph (proc_pagetable (trampoline s) tf) s) (\<lambda>(pt, s).
             let s = upd_proc p (\<lambda>x. x\<lparr>pagetable := pt\<rparr>) s in
             if pt = 0 then bindR (freeproc p s) (\<lambda>s. Ok (None, s))
             else Ok (Some p, upd_proc p (\<lambda>x. x\<lparr>pcontext :=
               \<lparr>ra = forkret_pc s, sp = kstack x + PGSIZE, s_regs = replicate 12 0\<rparr>\<rparr>) s)))"

definition growproc :: "nat \<Rightarrow> int \<Rightarrow> 'a kstate_scheme \<Rightarrow> (int \<times> 'a kstate_scheme) res" where
  "growproc p n s =
     (let psz = sz (procs s p); pt = pagetable (procs s p) in
      if n > 0 then
        if psz + of_int n > TRAPFRAME then Ok (-1, s)
        else bindR (with_ph (\<lambda>h. uvmalloc h pt psz (psz + of_int n) PTE_W) s) (\<lambda>(z, s).
          if z = 0 then Ok (-1, s) else Ok (0, upd_proc p (\<lambda>x. x\<lparr>sz := z\<rparr>) s))
      else if n < 0 then
        bindR (with_ph (\<lambda>h. uvmdealloc h pt psz (psz + of_int n)) s) (\<lambda>(z, s).
          Ok (0, upd_proc p (\<lambda>x. x\<lparr>sz := z\<rparr>) s))
      else Ok (0, upd_proc p (\<lambda>x. x\<lparr>sz := psz\<rparr>) s))"

section \<open>Sleeping, waking and killing\<close>

definition make_runnable :: "proc \<Rightarrow> proc" where
  "make_runnable x = x\<lparr>ready_since := 0, state := RUNNABLE\<rparr>"

definition wakeup :: "nat option \<Rightarrow> chan \<Rightarrow> 'a kstate_scheme \<Rightarrow> 'a kstate_scheme" where
  "wakeup me ch s =
     fold (\<lambda>i s. if Some i \<noteq> me \<and> state (procs s i) = SLEEPING \<and> chan (procs s i) = ch
                then upd_proc i make_runnable s else s) [0..<NPROC] s"

definition kkill :: "int \<Rightarrow> 'a kstate_scheme \<Rightarrow> int \<times> 'a kstate_scheme" where
  "kkill n s =
     (case find (\<lambda>i. pid (procs s i) = n) [0..<NPROC] of
        None \<Rightarrow> (-1, s)
      | Some i \<Rightarrow>
        let s = upd_proc i (\<lambda>x. x\<lparr>pkilled := 1\<rparr>) s in
        (0, if state (procs s i) = SLEEPING then upd_proc i make_runnable s else s))"

definition setkilled :: "nat \<Rightarrow> 'a kstate_scheme \<Rightarrow> 'a kstate_scheme" where
  "setkilled p s = upd_proc p (\<lambda>x. x\<lparr>pkilled := 1\<rparr>) s"

definition killed :: "'a kstate_scheme \<Rightarrow> nat \<Rightarrow> int" where
  "killed s p = pkilled (procs s p)"

text \<open>Children of \<open>p\<close> are handed to \<^verbatim>\<open>init\<close>, which is woken for each.\<close>

definition reparent :: "nat \<Rightarrow> 'a kstate_scheme \<Rightarrow> 'a kstate_scheme" where
  "reparent p s =
     fold (\<lambda>i s. if parent (procs s i) = Some p
                then wakeup (Some p) (case initproc s of None \<Rightarrow> NoChan | Some ip \<Rightarrow> ChanProc ip)
                       (upd_proc i (\<lambda>x. x\<lparr>parent := initproc s\<rparr>) s)
                else s) [0..<NPROC] s"

section \<open>Copying to and from the current process\<close>

definition either_copyout :: "nat \<Rightarrow> bool \<Rightarrow> uint64 \<Rightarrow> uchar list \<Rightarrow> 'a kstate_scheme \<Rightarrow> (int \<times> 'a kstate_scheme) res" where
  "either_copyout p user_dst dst src s =
     (if user_dst
      then with_ph (\<lambda>h. copyout (sz (procs s p)) (pagetable (procs s p)) h (pagetable (procs s p)) dst src) s
      else Ok (0, s\<lparr>ph := (ph s)\<lparr>pmem := store_bytes (pmem (ph s)) dst src\<rparr>\<rparr>))"

definition either_copyin :: "nat \<Rightarrow> bool \<Rightarrow> uint64 \<Rightarrow> nat \<Rightarrow> 'a kstate_scheme \<Rightarrow> (int \<times> uchar list \<times> 'a kstate_scheme) res" where
  "either_copyin p user_src src len s =
     (if user_src
      then bindR (copyin (sz (procs s p)) (pagetable (procs s p)) (ph s) (pagetable (procs s p)) src len)
        (\<lambda>(r, bs, h). Ok (r, bs, s\<lparr>ph := h\<rparr>))
      else Ok (0, load_bytes (pmem (ph s)) src len, s))"

section \<open>Giving up the CPU\<close>

text \<open>
  \<^verbatim>\<open>sched()\<close> up to its \<^verbatim>\<open>swtch()\<close>: \<open>h\<close> is the CPU, \<open>plock\<close> the process's lock. What runs
  after the switch belongs to other threads; when the process is next chosen, \<^verbatim>\<open>sched()\<close>
  restores the interrupt state it saved.
\<close>

definition sched :: "nat \<Rightarrow> cpu \<Rightarrow> spinlock \<Rightarrow> procstate \<Rightarrow> bool res" where
  "sched h c plock st =
     (if \<not> holding h plock then Panic ''sched p->lock''
      else if noff c \<noteq> 1 then Panic ''sched locks''
      else if st = RUNNING then Panic ''sched RUNNING''
      else if intr_get c then Panic ''sched interruptible''
      else Ok (intena c))"

definition sched_resume :: "bool \<Rightarrow> cpu \<Rightarrow> cpu" where
  "sched_resume ie c = c\<lparr>intena := ie\<rparr>"

definition yield :: "nat \<Rightarrow> cpu \<Rightarrow> spinlock \<Rightarrow> nat \<Rightarrow> 'a kstate_scheme \<Rightarrow> (cpu \<times> spinlock \<times> bool \<times> 'a kstate_scheme) res" where
  "yield h c plock p s =
     bindR (acquire h c plock) (\<lambda>(c, plock).
       let s = upd_proc p (\<lambda>x. x\<lparr>ready_since := 0, state := RUNNABLE\<rparr>) s in
       bindR (sched h c plock (state (procs s p))) (\<lambda>ie. Ok (c, plock, ie, s)))"

text \<open>
  The end of \<^verbatim>\<open>yield()\<close> when the process is chosen again, on the CPU \<open>h\<close> whose scheduler handed it its own
  lock; \<open>ie\<close> is what \<^verbatim>\<open>sched()\<close> saved.
\<close>

definition yield_resume :: "nat \<Rightarrow> cpu \<Rightarrow> spinlock \<Rightarrow> bool \<Rightarrow> (cpu \<times> spinlock) res" where
  "yield_resume h c plock ie = release h (sched_resume ie c) plock"

text \<open>\<^verbatim>\<open>sleep()\<close> up to the switch: \<open>clk\<close> is the condition lock, released once the process's lock is held.\<close>

definition sleep :: "nat \<Rightarrow> cpu \<Rightarrow> spinlock \<Rightarrow> spinlock \<Rightarrow> nat \<Rightarrow> chan \<Rightarrow> 'a kstate_scheme \<Rightarrow>
    (cpu \<times> spinlock \<times> spinlock \<times> bool \<times> 'a kstate_scheme) res" where
  "sleep h c plock clk p ch s =
     bindR (acquire h c plock) (\<lambda>(c, plock).
     bindR (release h c clk) (\<lambda>(c, clk).
       let s = upd_proc p (\<lambda>x. x\<lparr>chan := ch, state := SLEEPING\<rparr>) s in
       bindR (sched h c plock (state (procs s p))) (\<lambda>ie. Ok (c, plock, clk, ie, s))))"

definition sleep_resume :: "nat \<Rightarrow> cpu \<Rightarrow> spinlock \<Rightarrow> spinlock \<Rightarrow> nat \<Rightarrow> bool \<Rightarrow> 'a kstate_scheme \<Rightarrow>
    (cpu \<times> spinlock \<times> spinlock \<times> 'a kstate_scheme) res" where
  "sleep_resume h c plock clk p ie s =
     (let s = upd_proc p (\<lambda>x. x\<lparr>chan := NoChan\<rparr>) s in
      bindR (release h (sched_resume ie c) plock) (\<lambda>(c, plock).
      bindR (acquire h c clk) (\<lambda>(c, clk). Ok (c, plock, clk, s))))"

section \<open>Updating slots\<close>

lemma upd_proc_simps [simp]:
  "procs (upd_proc i f s) j = (if j = i then f (procs s i) else procs s j)"
  "ticks (upd_proc i f s) = ticks s" "ph (upd_proc i f s) = ph s" "nextpid (upd_proc i f s) = nextpid s"
  "initproc (upd_proc i f s) = initproc s" "trampoline (upd_proc i f s) = trampoline s"
  "forkret_pc (upd_proc i f s) = forkret_pc s"
  by (simp_all add: upd_proc_def)

lemma upd_proc_same [simp]: "f (procs s i) = procs s i \<Longrightarrow> upd_proc i f s = s"
  by (simp add: upd_proc_def)

text \<open>A pass over the table that changes each slot by itself.\<close>

lemma fold_upd_proc:
  assumes "distinct xs"
  shows "fold (\<lambda>i s. if P i (procs s i) then upd_proc i f s else s) xs s =
    s\<lparr>procs := (\<lambda>j. if j \<in> set xs \<and> P j (procs s j) then f (procs s j) else procs s j)\<rparr>"
  using assms
proof (induction xs arbitrary: s)
  case (Cons x xs)
  then show ?case by (auto simp: upd_proc_def intro!: kstate.fold_congs)
qed simp

lemma wakeup_eq:
  "wakeup me ch s = s\<lparr>procs := (\<lambda>j. if j < NPROC \<and> Some j \<noteq> me \<and> state (procs s j) = SLEEPING \<and>
     chan (procs s j) = ch then make_runnable (procs s j) else procs s j)\<rparr>"
  unfolding wakeup_def
  using fold_upd_proc [of "[0..<NPROC]" "\<lambda>i x. Some i \<noteq> me \<and> state x = SLEEPING \<and> chan x = ch" make_runnable s]
  by simp

lemma find_upt_Some: "find P [0..<n] = Some i \<longleftrightarrow> i < n \<and> P i \<and> (\<forall>j<i. \<not> P j)"
  by (auto simp: find_Some_iff)

lemma find_upt_None: "find P [0..<n] = None \<longleftrightarrow> (\<forall>i<n. \<not> P i)"
  by (auto simp: find_None_iff)

section \<open>Giving up the CPU never panics\<close>

text \<open>C13. A process that holds no lock may call \<^verbatim>\<open>yield()\<close> with its own lock free: none of the checks of \<^verbatim>\<open>acquire()\<close>
  and \<^verbatim>\<open>sched()\<close> panics. It reaches the switch RUNNABLE, with a new waiting period, holding its own lock and no
  other, interrupts off. When a scheduler on any CPU hands it back its lock, \<^verbatim>\<open>yield()\<close> returns with that lock
  free and interrupts as they were at the call.\<close>

theorem yield_switches:
  assumes "noff c = 0" and "\<not> locked plock"
  shows "\<exists>c' plock'. yield h c plock p s = Ok (c', plock', sie c, upd_proc p make_runnable s) \<and>
    holding h plock' \<and> noff c' = 1 \<and> \<not> sie c' \<and>
    (\<forall>h2 c2 lk2. holding h2 lk2 \<and> noff c2 = 1 \<and> \<not> sie c2 \<longrightarrow>
       (\<exists>c3 lk3. yield_resume h2 c2 lk2 (sie c) = Ok (c3, lk3) \<and> sie c3 = sie c \<and> noff c3 = 0 \<and> \<not> locked lk3))"
  using assms by (simp add: yield_resume_def sched_resume_def release_def pop_off_def intr_on_def yield_def acquire_def sched_def holding_def intr_get_def Let_def make_runnable_def [abs_def])

theorem yield_switches_witness:
  "\<exists>c' plock'. yield 0 \<lparr>cproc = Some 3, noff = 0, intena = False, sie = True\<rparr> (initlock ''proc'') 3 (start_kstate boot_phys 0 0) =
     Ok (c', plock', True, upd_proc 3 make_runnable (start_kstate boot_phys 0 0))"
  using yield_switches [of "\<lparr>cproc = Some 3, noff = 0, intena = False, sie = True\<rparr>" "initlock ''proc''" 0 3 "start_kstate boot_phys 0 0"]
  by (auto simp: initlock_def)

text \<open>C12. \<^verbatim>\<open>sleep()\<close> reaches the switch exactly when the caller holds the condition lock and no other lock: it is then
  asleep on its channel, the condition lock is free, and it holds only its own lock. With any further lock held
  it panics before the switch.\<close>

theorem sleep_switches:
  assumes "holding h clk" and "\<not> locked plock" and "1 \<le> noff c" and "\<not> sie c"
  shows "if noff c = 1
     then \<exists>c' plock' clk'. sleep h c plock clk p ch s =
         Ok (c', plock', clk', intena c, upd_proc p (\<lambda>x. x\<lparr>chan := ch, state := SLEEPING\<rparr>) s) \<and>
       holding h plock' \<and> \<not> locked clk' \<and> noff c' = 1
     else sleep h c plock clk p ch s = Panic ''sched locks''"
  using assms
  by (simp add: sleep_def acquire_def release_def pop_off_def sched_def holding_def intr_get_def Let_def)

theorem sleep_switches_witness:
  "sleep 0 \<lparr>cproc = Some 3, noff = 2, intena = True, sie = False\<rparr> (initlock ''proc'')
     \<lparr>locked = True, lname = ''pipe'', lcpu = Some 0\<rparr> 3 ChanTicks (start_kstate boot_phys 0 0) = Panic ''sched locks''"
  using sleep_switches [of 0 "\<lparr>locked = True, lname = ''pipe'', lcpu = Some 0\<rparr>" "initlock ''proc''"
      "\<lparr>cproc = Some 3, noff = 2, intena = True, sie = False\<rparr>" 3 ChanTicks "start_kstate boot_phys 0 0"]
  by (simp add: holding_def initlock_def)

section \<open>Waking and killing\<close>


lemma kkill_Some:
  assumes "i < NPROC" and "pid (procs s i) = n" and "\<And>j. j < i \<Longrightarrow> pid (procs s j) \<noteq> n"
  shows "kkill n s = (0, upd_proc i (\<lambda>x. (if state x = SLEEPING then make_runnable else id) (x\<lparr>pkilled := 1\<rparr>)) s)"
proof -
  have "find (\<lambda>i. pid (procs s i) = n) [0..<NPROC] = Some i" using assms unfolding find_upt_Some by blast
  then show ?thesis by (simp add: kkill_def make_runnable_def upd_proc_def)
qed

text \<open>
  Process numbers: the slots in use have distinct positive numbers below \<^verbatim>\<open>nextpid\<close>, the
  free slots have number 0.
\<close>

definition pids_ok :: "'a kstate_scheme \<Rightarrow> bool" where
  "pids_ok s \<longleftrightarrow>
     (\<forall>i<NPROC. if state (procs s i) = UNUSED then pid (procs s i) = 0 else 0 < pid (procs s i) \<and> pid (procs s i) < nextpid s) \<and>
     (\<forall>i<NPROC. \<forall>j<NPROC. state (procs s i) \<noteq> UNUSED \<longrightarrow> pid (procs s i) = pid (procs s j) \<longrightarrow> i = j)"

lemma pids_okD:
  assumes "pids_ok s"
  shows "i < NPROC \<Longrightarrow> state (procs s i) = UNUSED \<longleftrightarrow> pid (procs s i) = 0"
    "i < NPROC \<Longrightarrow> state (procs s i) \<noteq> UNUSED \<Longrightarrow> 0 < pid (procs s i) \<and> pid (procs s i) < nextpid s"
    "i < NPROC \<Longrightarrow> j < NPROC \<Longrightarrow> state (procs s i) \<noteq> UNUSED \<Longrightarrow> pid (procs s i) = pid (procs s j) \<Longrightarrow> i = j"
proof -
  have a: "if state (procs s i) = UNUSED then pid (procs s i) = 0 else 0 < pid (procs s i) \<and> pid (procs s i) < nextpid s"
    if "i < NPROC" for i
    using assms that unfolding pids_ok_def by blast
  show "i < NPROC \<Longrightarrow> state (procs s i) = UNUSED \<longleftrightarrow> pid (procs s i) = 0"
    "i < NPROC \<Longrightarrow> state (procs s i) \<noteq> UNUSED \<Longrightarrow> 0 < pid (procs s i) \<and> pid (procs s i) < nextpid s"
    using a [of i] by (auto split: if_splits)
  show "i < NPROC \<Longrightarrow> j < NPROC \<Longrightarrow> state (procs s i) \<noteq> UNUSED \<Longrightarrow> pid (procs s i) = pid (procs s j) \<Longrightarrow> i = j"
    using assms unfolding pids_ok_def by blast
qed

text \<open>C17. \<^verbatim>\<open>kill(n)\<close> for the number of a process in use marks that process, wakes it if it sleeps, and touches no other;
  it fails, changing nothing, when no process has that number.\<close>

theorem kkill_kills:
  assumes "pids_ok s" and "0 < n"
  shows "(\<forall>i<NPROC. pid (procs s i) = n \<longrightarrow>
       kkill n s = (0, upd_proc i (\<lambda>x. (if state x = SLEEPING then make_runnable else id) (x\<lparr>pkilled := 1\<rparr>)) s)) \<and>
    ((\<forall>i<NPROC. pid (procs s i) \<noteq> n) \<longrightarrow> kkill n s = (-1, s))"
proof (intro conjI allI impI)
  fix i
  assume i: "i < NPROC" "pid (procs s i) = n"
  have "state (procs s i) \<noteq> UNUSED" using pids_okD(1) [OF assms(1) i(1)] assms(2) i(2) by simp
  then have "pid (procs s j) \<noteq> n" if "j < i" for j
    using pids_okD(3) [OF assms(1) i(1), of j] i that by auto
  then show "kkill n s = (0, upd_proc i (\<lambda>x. (if state x = SLEEPING then make_runnable else id) (x\<lparr>pkilled := 1\<rparr>)) s)"
    using kkill_Some [of i s n] i by blast
next
  assume "\<forall>i<NPROC. pid (procs s i) \<noteq> n"
  then have "find (\<lambda>i. pid (procs s i) = n) [0..<NPROC] = None" unfolding find_upt_None by blast
  then show "kkill n s = (-1, s)" by (simp add: kkill_def)
qed

theorem kkill_kills_witness:
  "kkill 1 (upd_proc 5 (\<lambda>x. x\<lparr>state := SLEEPING, pid := 1\<rparr>) ((start_kstate boot_phys 0 0)\<lparr>nextpid := 2\<rparr>)) =
     (0, upd_proc 5 (\<lambda>x. (if state x = SLEEPING then make_runnable else id) (x\<lparr>pkilled := 1\<rparr>))
       (upd_proc 5 (\<lambda>x. x\<lparr>state := SLEEPING, pid := 1\<rparr>) ((start_kstate boot_phys 0 0)\<lparr>nextpid := 2\<rparr>)))"
proof -
  let ?s = "upd_proc 5 (\<lambda>x. x\<lparr>state := SLEEPING, pid := 1\<rparr>) ((start_kstate boot_phys 0 0)\<lparr>nextpid := 2\<rparr>)"
  have "pids_ok ?s" by (simp add: pids_ok_def start_kstate_def zero_proc_def)
  from conjunct1 [OF kkill_kills [OF this, of 1]] show ?thesis by simp
qed

text \<open>The slot that \<^verbatim>\<open>allocproc()\<close> hands out and what is in it.\<close>

lemma allocproc_Some:
  assumes "allocproc s = Ok (Some p, s')"
  obtains tf pt h where "find (\<lambda>i. state (procs s i) = UNUSED) [0..<NPROC] = Some p"
    "s' = (upd_proc p (\<lambda>x. x\<lparr>pid := nextpid s, state := USED, priority := DEFAULT_PRIORITY, ready_since := 0,
        trapframe := tf, pagetable := pt,
        pcontext := \<lparr>ra = forkret_pc s, sp = kstack x + PGSIZE, s_regs = replicate 12 0\<rparr>\<rparr>) s)\<lparr>nextpid := nextpid s + 1, ph := h\<rparr>"
proof (cases "find (\<lambda>i. state (procs s i) = UNUSED) [0..<NPROC]")
  case (Some q)
  obtain tf h where k: "kalloc (ph s) = (tf, h)" by force
  show ?thesis
  proof (cases "tf = 0")
    case True
    then show ?thesis using assms Some k
      by (simp add: allocproc_def allocpid_def Let_def bindR_eq_Ok)
  next
    case False
    then obtain pt h' where "pt \<noteq> 0" and e: "s' = upd_proc q (\<lambda>x. x\<lparr>pcontext := \<lparr>ra = forkret_pc s, sp = kstack x + PGSIZE,
          s_regs = replicate 12 0\<rparr>\<rparr>) (upd_proc q (\<lambda>x. x\<lparr>pagetable := pt\<rparr>) (upd_proc q (\<lambda>x. x\<lparr>trapframe := tf\<rparr>)
            ((upd_proc q (\<lambda>x. x\<lparr>pid := nextpid s, state := USED, priority := DEFAULT_PRIORITY, ready_since := 0\<rparr>)
              (s\<lparr>nextpid := nextpid s + 1\<rparr>)) \<lparr>ph := h'\<rparr>)))" "p = q"
      using assms Some k
      by (auto simp: allocproc_def allocpid_def with_ph_def upd_proc_def Let_def bindR_eq_Ok split: if_splits)
    then show ?thesis using that [where tf = tf and pt = pt and h = h'] Some by (simp add: upd_proc_def)
  qed
qed (use assms in \<open>simp add: allocproc_def\<close>)

text \<open>C16. \<^verbatim>\<open>kill(0)\<close> succeeds and marks a free slot; \<^verbatim>\<open>allocproc()\<close> hands out that very slot next and leaves the mark, so the
  next process created is born killed.\<close>

theorem kill_zero_marks_next_process:
  assumes "pids_ok s" and "kkill 0 s = (r, s1)" and "allocproc s1 = Ok (Some p, s2)"
  shows "r = 0 \<and> state (procs s2 p) = USED \<and> pkilled (procs s2 p) = 1"
proof -
  note free = pids_okD(1) [OF assms(1)]
  obtain tf pt h where f: "find (\<lambda>i. state (procs s1 i) = UNUSED) [0..<NPROC] = Some p"
    and s2: "s2 = (upd_proc p (\<lambda>x. x\<lparr>pid := nextpid s1, state := USED, priority := DEFAULT_PRIORITY, ready_since := 0,
        trapframe := tf, pagetable := pt,
        pcontext := \<lparr>ra = forkret_pc s1, sp = kstack x + PGSIZE, s_regs = replicate 12 0\<rparr>\<rparr>) s1)\<lparr>nextpid := nextpid s1 + 1, ph := h\<rparr>"
    by (rule allocproc_Some [OF assms(3)])
  from f have p1: "p < NPROC" "state (procs s1 p) = UNUSED" "\<forall>j<p. state (procs s1 j) \<noteq> UNUSED" unfolding find_upt_Some by auto
  show ?thesis
  proof (cases "find (\<lambda>i. pid (procs s i) = 0) [0..<NPROC]")
    case None
    then have "s1 = s" using assms(2) by (simp add: kkill_def)
    then show ?thesis using None p1(1,2) free [OF p1(1)] unfolding find_upt_None by blast
  next
    case (Some i)
    then have i: "i < NPROC" "pid (procs s i) = 0" "\<forall>j<i. pid (procs s j) \<noteq> 0" unfolding find_upt_Some by auto
    have un: "state (procs s i) = UNUSED" using free [OF i(1)] i(2) by simp
    have "kkill 0 s = (0, upd_proc i (\<lambda>x. (if state x = SLEEPING then make_runnable else id) (x\<lparr>pkilled := 1\<rparr>)) s)"
      by (rule kkill_Some [OF i(1,2)]) (use i(3) in blast)
    also have "\<dots> = (0, upd_proc i (\<lambda>x. x\<lparr>pkilled := 1\<rparr>) s)" using un by (simp add: upd_proc_def)
    finally have s1: "r = 0" "s1 = upd_proc i (\<lambda>x. x\<lparr>pkilled := 1\<rparr>) s" using assms(2) by simp_all
    have st: "state (procs s1 j) = state (procs s j)" for j by (simp add: s1(2))
    have "\<not> i < p" using p1(3) un st by auto
    moreover have "\<not> p < i" using i(3) p1(1,2) st free [OF p1(1)] by auto
    ultimately have "p = i" by simp
    then have "pkilled (procs s1 p) = 1" using s1(2) by simp
    then show ?thesis using s1(1) s2 by simp
  qed
qed

end
