(* ===== verification/Scheduler.thy ===== *)
theory Scheduler
  imports Proc
begin

text \<open>
  The priority scheduler with aging: one iteration of the endless loop of
  \<^verbatim>\<open>scheduler()\<close> in \<^verbatim>\<open>kernel/proc.c\<close>, on one CPU. What happens between the \<^verbatim>\<open>swtch()\<close> to
  process \<open>i\<close> and the \<^verbatim>\<open>swtch()\<close> back is the parameter \<open>run i\<close>, a transition of the whole
  kernel state; \<^verbatim>\<open>c->proc\<close> is \<open>i\<close> during it and null outside. A round returns the
  processes it has run, in order; the flag \<^verbatim>\<open>found\<close> is that this list is not empty.
\<close>

section \<open>The scheduling round\<close>

definition effective_priority :: "uint \<Rightarrow> proc \<Rightarrow> int" where
  "effective_priority now p =
     (let waited = now - ready_since p;
          aging_steps = sint (waited div AGING_INTERVAL);
          e = priority p - aging_steps
      in if e < PRIORITY_MIN then PRIORITY_MIN else e)"

definition stamp :: "uint \<Rightarrow> proc \<Rightarrow> proc" where
  "stamp now x = (if ready_since x = 0 then x\<lparr>ready_since := now\<rparr> else x)"

definition sched_visit :: "(nat \<Rightarrow> 'a kstate_scheme \<Rightarrow> 'a kstate_scheme) \<Rightarrow> uint \<Rightarrow> int \<Rightarrow> nat \<Rightarrow>
    nat list \<times> 'a kstate_scheme \<Rightarrow> nat list \<times> 'a kstate_scheme" where
  "sched_visit run now level i = (\<lambda>(rn, s).
     if state (procs s i) = RUNNABLE
     then let s = upd_proc i (stamp now) s in
       if effective_priority now (procs s i) = level
       then (rn @ [i], run i (upd_proc i (\<lambda>x. x\<lparr>state := RUNNING\<rparr>) s))
       else (rn, s)
     else (rn, s))"

definition sched_level :: "(nat \<Rightarrow> 'a kstate_scheme \<Rightarrow> 'a kstate_scheme) \<Rightarrow> uint \<Rightarrow> int \<Rightarrow>
    'a kstate_scheme \<Rightarrow> nat list \<times> 'a kstate_scheme" where
  "sched_level run now level s = fold (sched_visit run now level) [0..<NPROC] ([], s)"

primrec sched_levels :: "(nat \<Rightarrow> 'a kstate_scheme \<Rightarrow> 'a kstate_scheme) \<Rightarrow> uint \<Rightarrow> int list \<Rightarrow>
    'a kstate_scheme \<Rightarrow> nat list \<times> 'a kstate_scheme" where
  "sched_levels run now [] s = ([], s)"
| "sched_levels run now (l # ls) s =
     (let (rn, s) = sched_level run now l s in
      if rn \<noteq> [] then (rn, s) else sched_levels run now ls s)"

definition scheduler_round :: "(nat \<Rightarrow> 'a kstate_scheme \<Rightarrow> 'a kstate_scheme) \<Rightarrow> 'a kstate_scheme \<Rightarrow>
    nat list \<times> 'a kstate_scheme" where
  "scheduler_round run s = sched_levels run (ticks s) [PRIORITY_MIN..PRIORITY_MAX] s"

text \<open>
  Several rounds. Before each round the interrupt handlers and the other CPUs run, which
  \<open>env\<close> stands for; each round has its own. Returned with the processes a round has run is
  the value of \<^verbatim>\<open>ticks\<close> it worked with.
\<close>

primrec scheduler_rounds :: "(nat \<Rightarrow> 'a kstate_scheme \<Rightarrow> 'a kstate_scheme) \<Rightarrow>
    ('a kstate_scheme \<Rightarrow> 'a kstate_scheme) list \<Rightarrow> 'a kstate_scheme \<Rightarrow> (uint \<times> nat list) list \<times> 'a kstate_scheme" where
  "scheduler_rounds run [] s = ([], s)"
| "scheduler_rounds run (env # es) s =
     (let s = env s; now = ticks s; (rn, s) = scheduler_round run s;
          (rs, s) = scheduler_rounds run es s
      in ((now, rn) # rs, s))"

section \<open>Effective priority\<close>

lemma aging_steps_sint: "sint (w div AGING_INTERVAL) = int (unat w div 20)"
proof -
  have "unat w < 4294967296" using unsigned_less [of w, where ?'a = nat] by simp
  then have "unat (w div 20) < 2147483648" by (simp add: unat_div)
  then show ?thesis by (simp add: sint_small unat_div)
qed

lemma effective_priority_eq:
  "effective_priority now p = max 0 (priority p - int (unat (now - ready_since p) div 20))"
  unfolding effective_priority_def Let_def aging_steps_sint by simp

text \<open>What the scheduler reads of a process.\<close>

definition sview :: "proc \<Rightarrow> procstate \<times> int \<times> uint" where
  "sview x = (state x, priority x, ready_since x)"

lemma sview_eqD: "sview x = sview y \<Longrightarrow> state x = state y \<and> priority x = priority y \<and> ready_since x = ready_since y"
  by (simp add: sview_def)

lemma stamp_simps [simp]:
  "state (stamp now x) = state x" "priority (stamp now x) = priority x" "stamp now (stamp now x) = stamp now x"
  "ready_since x \<noteq> 0 \<Longrightarrow> stamp now x = x"
  by (simp_all add: stamp_def)

lemma aged_max: "20 * k \<le> int n \<Longrightarrow> max 0 (k - int (n div 20)) = 0"
  by (simp add: max_def zdiv_int) linarith

lemma effective_aged:
  "20 * priority x \<le> int (unat (now - ready_since x)) \<Longrightarrow> effective_priority now x = 0"
  unfolding effective_priority_eq by (rule aged_max)

lemma upt_split: "p < n \<Longrightarrow> [0..<n] = [0..<p] @ p # [Suc p..<n]"
  using upt_add_eq_append [of 0 p "n - p"] by (simp add: upt_conv_Cons)

lemma visit_ran: "set (fst a) \<subseteq> set (fst (fold (sched_visit run now l) xs a))"
proof (induction xs arbitrary: a)
  case (Cons x xs)
  have "set (fst a) \<subseteq> set (fst (sched_visit run now l x a))"
    by (cases a) (auto simp: sched_visit_def Let_def)
  then show ?case using Cons [of "sched_visit run now l x a"] by auto
qed simp

section \<open>A process that is not disturbed while it waits\<close>

text \<open>
  While \<open>p\<close> waits for a CPU, nothing another process does changes what the scheduler reads
  of \<open>p\<close>: only \<^verbatim>\<open>sleep()\<close>, \<^verbatim>\<open>yield()\<close>, \<^verbatim>\<open>kexit()\<close> and \<^verbatim>\<open>sys_setpriority()\<close> change it, and
  each acts on the process that calls it.
\<close>

locale undisturbed =
  fixes run :: "nat \<Rightarrow> 'a kstate_scheme \<Rightarrow> 'a kstate_scheme" and p :: nat
  assumes keep: "i \<noteq> p \<Longrightarrow> state (procs s p) = RUNNABLE \<Longrightarrow> sview (procs (run i s) p) = sview (procs s p)"
begin

lemma visit_keep:
  assumes "i \<noteq> p" and "state (procs s p) = RUNNABLE"
  shows "sview (procs (snd (sched_visit run now l i (rn, s))) p) = sview (procs s p)"
  using assms by (auto simp: sched_visit_def Let_def keep)

lemma fold_keep:
  assumes "p \<notin> set xs" and "state (procs s p) = RUNNABLE"
  shows "sview (procs (snd (fold (sched_visit run now l) xs (rn, s))) p) = sview (procs s p)"
  using assms
proof (induction xs arbitrary: rn s)
  case (Cons i xs)
  obtain ran1 s1 where v: "sched_visit run now l i (rn, s) = (ran1, s1)" by force
  have sv: "sview (procs s1 p) = sview (procs s p)" using visit_keep [of i s now l rn] Cons.prems v by simp
  then show ?case using Cons.IH [of s1 ran1] Cons.prems v sview_eqD [OF sv] by simp
qed simp

text \<open>Scanning a level: a waiting process is run exactly when its effective priority is the level.\<close>

lemma level_runs:
  assumes p: "p < NPROC" "state (procs s p) = RUNNABLE" and l: "effective_priority now (stamp now (procs s p)) = l"
  shows "p \<in> set (fst (sched_level run now l s))"
proof -
  obtain ran1 s1 where f: "fold (sched_visit run now l) [0..<p] ([], s) = (ran1, s1)" by force
  have v: "sview (procs s1 p) = sview (procs s p)" using fold_keep [of "[0..<p]" s now l "[]"] p(2) f by simp
  then have "effective_priority now (stamp now (procs s1 p)) = l" "state (procs s1 p) = RUNNABLE"
    using l p(2) sview_eqD [OF v] by (auto simp: effective_priority_eq stamp_def)
  then have "p \<in> set (fst (sched_visit run now l p (ran1, s1)))" by (simp add: sched_visit_def)
  then show ?thesis
    using visit_ran [of "sched_visit run now l p (ran1, s1)" run now l "[Suc p..<NPROC]"] p(1) f
    unfolding sched_level_def upt_split [OF p(1)] by auto
qed

lemma level_passes:
  assumes p: "p < NPROC" "state (procs s p) = RUNNABLE" and l: "p \<notin> set (fst (sched_level run now l s))"
  shows "sview (procs (snd (sched_level run now l s)) p) = sview (stamp now (procs s p))"
proof -
  obtain ran1 s1 where f: "fold (sched_visit run now l) [0..<p] ([], s) = (ran1, s1)" by force
  have v: "sview (procs s1 p) = sview (procs s p)" using fold_keep [of "[0..<p]" s now l "[]"] p(2) f by simp
  obtain ran2 s2 where f2: "sched_visit run now l p (ran1, s1) = (ran2, s2)" by force
  have "p \<notin> set ran2"
    using l visit_ran [of "(ran2, s2)" run now l "[Suc p..<NPROC]"] f f2
    unfolding sched_level_def upt_split [OF p(1)] by auto
  then have "sview (procs s2 p) = sview (stamp now (procs s p))"
    using f2 sview_eqD [OF v] p(2) by (auto simp: sched_visit_def Let_def sview_def stamp_def split: if_splits)
  moreover have "state (procs s2 p) = RUNNABLE" using calculation p(2) by (simp add: sview_def)
  ultimately show ?thesis
    using fold_keep [of "[Suc p..<NPROC]" s2 now l ran2] f f2 unfolding sched_level_def upt_split [OF p(1)] by simp
qed

lemma round_passes:
  assumes p: "p < NPROC" "state (procs s p) = RUNNABLE" and "ls \<noteq> []" and "p \<notin> set (fst (sched_levels run now ls s))"
  shows "sview (procs (snd (sched_levels run now ls s)) p) = sview (stamp now (procs s p))"
  using assms
proof (induction ls arbitrary: s)
  case (Cons l ls)
  obtain ran1 s1 where f: "sched_level run now l s = (ran1, s1)" by force
  have "p \<notin> set ran1" using Cons.prems f by (auto split: if_splits)
  then have v: "sview (procs s1 p) = sview (stamp now (procs s p))" using level_passes [OF Cons.prems(1,2), of now l] f by simp
  have st: "state (procs s1 p) = RUNNABLE" "sview (stamp now (procs s1 p)) = sview (stamp now (procs s p))"
    using v Cons.prems(2) by (auto simp: sview_def stamp_def split: if_splits)
  show ?case
  proof (cases "ran1 = [] \<and> ls \<noteq> []")
    case True
    then show ?thesis using Cons.IH [OF Cons.prems(1) st(1)] Cons.prems(4) f st(2) by simp
  qed (use v f in auto)
qed simp

text \<open>A round that finds the process aged to level 0 runs it.\<close>

lemma round_aged:
  assumes p: "p < NPROC" "state (procs s p) = RUNNABLE"
    and e: "effective_priority (ticks s) (stamp (ticks s) (procs s p)) = 0"
  shows "p \<in> set (fst (scheduler_round run s))"
proof -
  obtain ran1 s1 where f: "sched_level run (ticks s) 0 s = (ran1, s1)" by force
  have "p \<in> set ran1" using level_runs [OF p e] f by simp
  moreover have "[0..4 :: int] = 0 # [1..4]" by (simp add: upto_rec1)
  ultimately show ?thesis using f by (auto simp: scheduler_round_def)
qed

lemma rounds_wait:
  assumes "p < NPROC" and "\<And>env s. env \<in> set es \<Longrightarrow> state (procs s p) = RUNNABLE \<Longrightarrow> sview (procs (env s) p) = sview (procs s p)"
    and "state (procs s p) = RUNNABLE" and "ready_since (procs s p) \<noteq> 0"
    and "\<And>now rn. (now, rn) \<in> set (fst (scheduler_rounds run es s)) \<Longrightarrow> p \<notin> set rn"
    and "(now, rn) \<in> set (fst (scheduler_rounds run es s))"
  shows "int (unat (now - ready_since (procs s p))) < 20 * priority (procs s p)"
  using assms(2-)
proof (induction es arbitrary: s)
  case (Cons env es)
  define s1 where "s1 = env s"
  have v1: "sview (procs s1 p) = sview (procs s p)" using Cons.prems(1) [of env s] Cons.prems(2) by (simp add: s1_def)
  note e1 = sview_eqD [OF v1]
  obtain ran2 s2 where f: "scheduler_round run s1 = (ran2, s2)" by force
  obtain rs s3 where f3: "scheduler_rounds run es s2 = (rs, s3)" by force
  have r: "fst (scheduler_rounds run (env # es) s) = (ticks s1, ran2) # rs" using f f3 by (simp add: s1_def Let_def)
  have no: "p \<notin> set ran2" using Cons.prems(4) [of "ticks s1" ran2] r by simp
  have here: "int (unat (ticks s1 - ready_since (procs s p))) < 20 * priority (procs s p)"
  proof (rule ccontr)
    assume "\<not> ?thesis"
    then have "effective_priority (ticks s1) (stamp (ticks s1) (procs s1 p)) = 0"
      using e1 Cons.prems(3) effective_aged [of "procs s1 p" "ticks s1"] by simp
    then show False using round_aged [OF assms(1), of s1] e1 Cons.prems(2) f no by simp
  qed
  have v2: "sview (procs s2 p) = sview (procs s p)"
    using round_passes [OF assms(1), of s1 "[PRIORITY_MIN..PRIORITY_MAX]" "ticks s1"] e1 Cons.prems(2,3) f no v1
    by (simp add: scheduler_round_def)
  note e2 = sview_eqD [OF v2]
  show ?case
  proof (cases "(now, rn) \<in> set rs")
    case True
    have "int (unat (now - ready_since (procs s2 p))) < 20 * priority (procs s2 p)"
      by (rule Cons.IH) (use Cons.prems e2 r f3 True in auto)
    then show ?thesis using e2 by simp
  next
    case False
    then show ?thesis using Cons.prems(5) r here by auto
  qed
qed simp

end

section \<open>What a running process does to the table\<close>

text \<open>
  The timer interrupt of \<^verbatim>\<open>kernel/trap.c\<close> on CPU \<open>h\<close> (the next deadline it programs into the hart is not part
  of the state).
\<close>

definition clockintr :: "nat \<Rightarrow> nat option \<Rightarrow> 'a kstate_scheme \<Rightarrow> 'a kstate_scheme" where
  "clockintr h me s = (if h = 0 then wakeup me ChanTicks (s\<lparr>ticks := ticks s + 1\<rparr>) else s)"

text \<open>
  A run of a process as the scheduler sees it: the routines of the process table that it
  calls, in any order, and the way it gives up the CPU.
\<close>

datatype pact = Wake chan | Kill int | Mark | Tick | Orphan | SetPriority int
datatype pend = Yielded | Slept chan | Exited int

fun do_act :: "nat \<Rightarrow> pact \<Rightarrow> 'a kstate_scheme \<Rightarrow> 'a kstate_scheme" where
  "do_act i (Wake ch) s = wakeup (Some i) ch s"
| "do_act i (Kill n) s = snd (kkill n s)"
| "do_act i Mark s = setkilled i s"
| "do_act i Tick s = clockintr 0 (Some i) s"
| "do_act i Orphan s = reparent i s"
| "do_act i (SetPriority q) s = (if PRIORITY_MIN \<le> q \<and> q \<le> PRIORITY_MAX then upd_proc i (\<lambda>x. x\<lparr>priority := q\<rparr>) s else s)"

fun do_end :: "nat \<Rightarrow> pend \<Rightarrow> 'a kstate_scheme \<Rightarrow> 'a kstate_scheme" where
  "do_end i Yielded s = upd_proc i make_runnable s"
| "do_end i (Slept ch) s = upd_proc i (\<lambda>x. x\<lparr>chan := ch, state := SLEEPING\<rparr>) s"
| "do_end i (Exited st) s = upd_proc i (\<lambda>x. x\<lparr>xstate := st, state := ZOMBIE\<rparr>) s"

definition run_script :: "(nat \<Rightarrow> pact list \<times> pend) \<Rightarrow> nat \<Rightarrow> 'a kstate_scheme \<Rightarrow> 'a kstate_scheme" where
  "run_script script i s = do_end i (snd (script i)) (fold (do_act i) (fst (script i)) s)"

lemma fold_sview:
  assumes "\<And>x s. state (procs s p) = RUNNABLE \<Longrightarrow> sview (procs (f x s) p) = sview (procs s p)"
    and "state (procs s p) = RUNNABLE"
  shows "sview (procs (fold f xs s) p) = sview (procs s p)"
  using assms(2)
proof (induction xs arbitrary: s)
  case (Cons x xs)
  then show ?case using Cons.IH [of "f x s"] assms(1) [of s x] sview_eqD [OF assms(1) [of s x]] by simp
qed simp

lemma wakeup_sview: "state (procs s p) = RUNNABLE \<Longrightarrow> sview (procs (wakeup me ch s) p) = sview (procs s p)"
  by (simp add: wakeup_eq)

lemma reparent_sview: "state (procs s p) = RUNNABLE \<Longrightarrow> sview (procs (reparent q s) p) = sview (procs s p)"
  unfolding reparent_def by (rule fold_sview) (auto simp: wakeup_eq sview_def)

lemma kkill_sview: "state (procs s p) = RUNNABLE \<Longrightarrow> sview (procs (snd (kkill n s)) p) = sview (procs s p)"
  by (auto simp: kkill_def Let_def sview_def split: option.splits)

lemma do_act_sview: "i \<noteq> p \<Longrightarrow> state (procs s p) = RUNNABLE \<Longrightarrow> sview (procs (do_act i a s) p) = sview (procs s p)"
  by (cases a) (auto simp: kkill_sview reparent_sview setkilled_def clockintr_def wakeup_eq)

interpretation script: undisturbed "run_script script" p for script p
proof
  fix i :: nat and s :: "'a kstate_scheme"
  assume i: "i \<noteq> p" "state (procs s p) = RUNNABLE"
  have "sview (procs (fold (do_act i) (fst (script i)) s) p) = sview (procs s p)"
    by (rule fold_sview) (use i do_act_sview in blast)+
  then show "sview (procs (run_script script i s) p) = sview (procs s p)"
    using i by (cases "snd (script i)") (simp_all add: run_script_def)
qed

section \<open>No process starves\<close>

text \<open>C7. No starvation. A process whose waiting period began at tick \<open>r\<close> is run by some round before or at the first
  round that starts at least \<^verbatim>\<open>AGING_INTERVAL\<close> ticks per priority level after \<open>r\<close> (at most 80 ticks), whatever the
  other processes do on their turns and whatever happens between rounds, as long as nothing else changes
  what the scheduler reads of it.\<close>

theorem scheduler_no_starvation:
  assumes "p < NPROC" and "state (procs s p) = RUNNABLE" and "ready_since (procs s p) = r" and "r \<noteq> 0"
    and env: "\<And>env s. env \<in> set es \<Longrightarrow> state (procs s p) = RUNNABLE \<Longrightarrow> sview (procs (env s) p) = sview (procs s p)"
    and late: "(now, rn) \<in> set (fst (scheduler_rounds (run_script script) es s))"
      "20 * priority (procs s p) \<le> int (unat (now - r))"
  shows "\<exists>(now, rn) \<in> set (fst (scheduler_rounds (run_script script) es s)). p \<in> set rn"
proof (rule ccontr)
  assume n: "\<not> ?thesis"
  have "int (unat (now - ready_since (procs s p))) < 20 * priority (procs s p)"
  proof (rule script.rounds_wait [where es = es and script = script and rn = rn])
    show "sview (procs (env s) p) = sview (procs s p)" if "env \<in> set es" "state (procs s p) = RUNNABLE" for env s
      by (rule env [OF that])
    show "p \<notin> set rn" if "(now, rn) \<in> set (fst (scheduler_rounds (run_script script) es s))" for now rn
      using n that by blast
  qed (use assms in auto)
  then show False using late(2) assms(3) by simp
qed

theorem scheduler_no_starvation_witness:
  "let s = upd_proc 7 (\<lambda>x. x\<lparr>state := RUNNABLE, priority := 4, ready_since := 1\<rparr>)
       (upd_proc 3 (\<lambda>x. x\<lparr>state := RUNNABLE, ready_since := 1\<rparr>) (start_kstate boot_phys 0 0))
   in \<exists>(now, rn) \<in> set (fst (scheduler_rounds (run_script (\<lambda>_. ([Tick], Yielded))) [\<lambda>s. s\<lparr>ticks := 2\<rparr>, \<lambda>s. s\<lparr>ticks := 81\<rparr>] s)). 7 \<in> set rn"
proof -
  let ?s = "upd_proc 7 (\<lambda>x. x\<lparr>state := RUNNABLE, priority := 4, ready_since := 1\<rparr>)
       (upd_proc 3 (\<lambda>x. x\<lparr>state := RUNNABLE, ready_since := 1\<rparr>) (start_kstate boot_phys 0 0))"
  let ?run = "run_script (\<lambda>_. ([Tick], Yielded)) :: nat \<Rightarrow> kstate \<Rightarrow> kstate"
  let ?es = "[\<lambda>s. s\<lparr>ticks := 2\<rparr>, \<lambda>s. s\<lparr>ticks := 81\<rparr>] :: (kstate \<Rightarrow> kstate) list"
  obtain rn where "(81, rn) \<in> set (fst (scheduler_rounds ?run ?es ?s))"
    by (auto simp: Let_def split_beta)
  then have "\<exists>(now, rn) \<in> set (fst (scheduler_rounds ?run ?es ?s)). 7 \<in> set rn"
    by (rule scheduler_no_starvation [where r = 1, rotated 5]) auto
  then show ?thesis by (simp only: Let_def)
qed

section \<open>The highest effective priority runs first\<close>

definition ready_at :: "'a kstate_scheme \<Rightarrow> uint \<Rightarrow> int \<Rightarrow> nat \<Rightarrow> bool" where
  "ready_at s now l i \<longleftrightarrow> state (procs s i) = RUNNABLE \<and> effective_priority now (stamp now (procs s i)) = l"

definition stamped :: "uint \<Rightarrow> nat list \<Rightarrow> 'a kstate_scheme \<Rightarrow> 'a kstate_scheme" where
  "stamped now xs s = s\<lparr>procs := (\<lambda>j. if j \<in> set xs \<and> state (procs s j) = RUNNABLE then stamp now (procs s j) else procs s j)\<rparr>"

lemma ready_stamped [simp]: "ready_at (stamped now xs s) now l i \<longleftrightarrow> ready_at s now l i"
  by (simp add: ready_at_def stamped_def)

lemma visit_none:
  assumes "distinct xs" and "\<And>i. i \<in> set xs \<Longrightarrow> \<not> ready_at s now l i"
  shows "fold (sched_visit run now l) xs (rn, s) = (rn, stamped now xs s)"
  using assms
proof (induction xs arbitrary: s)
  case (Cons x xs)
  let ?s = "if state (procs s x) = RUNNABLE then upd_proc x (stamp now) s else s"
  have "sched_visit run now l x (rn, s) = (rn, ?s)" using Cons.prems(2) [of x] by (simp add: sched_visit_def ready_at_def)
  moreover have "\<not> ready_at ?s now l i" if "i \<in> set xs" for i using Cons.prems that by (auto simp: ready_at_def)
  moreover have "stamped now xs ?s = stamped now (x # xs) s"
    using Cons.prems(1) by (auto simp: stamped_def upd_proc_def intro!: kstate.fold_congs)
  ultimately show ?case using Cons.IH [of ?s] Cons.prems(1) by simp
qed (simp add: stamped_def)

lemma visit_prefix: "\<exists>ys. fst (fold (sched_visit run now l) xs a) = fst a @ ys"
proof (induction xs arbitrary: a)
  case (Cons x xs)
  have "\<exists>ys. fst (sched_visit run now l x a) = fst a @ ys" by (cases a) (auto simp: sched_visit_def Let_def)
  then show ?case using Cons [of "sched_visit run now l x a"] by force
qed simp

lemma level_none:
  "(\<And>i. i < NPROC \<Longrightarrow> \<not> ready_at s now l i) \<Longrightarrow> sched_level run now l s = ([], stamped now [0..<NPROC] s)"
  unfolding sched_level_def by (rule visit_none) auto

lemma level_first:
  assumes j: "j < NPROC" "ready_at s now l j" and first: "\<And>i. i < j \<Longrightarrow> \<not> ready_at s now l i"
  shows "\<exists>rest. fst (sched_level run now l s) = j # rest"
proof -
  have "fold (sched_visit run now l) [0..<j] ([], s) = ([], stamped now [0..<j] s)" by (rule visit_none) (use first in auto)
  moreover have "fst (sched_visit run now l j ([], stamped now [0..<j] s)) = [j]"
    using j(2) by (simp add: sched_visit_def ready_at_def stamped_def)
  ultimately show ?thesis
    using visit_prefix [of run now l "[Suc j..<NPROC]" "sched_visit run now l j ([], stamped now [0..<j] s)"]
    unfolding sched_level_def upt_split [OF j(1)] by auto
qed

lemma levels_first:
  assumes j: "j < NPROC" "ready_at s now m j" and first: "\<And>i. i < j \<Longrightarrow> \<not> ready_at s now m i"
    and least: "\<And>i l. i < NPROC \<Longrightarrow> l < m \<Longrightarrow> \<not> ready_at s now l i" and "m \<in> set ls" and "sorted ls" and "distinct ls"
  shows "\<exists>rest. fst (sched_levels run now ls s) = j # rest"
  using assms
proof (induction ls arbitrary: s)
  case (Cons l ls)
  show ?case
  proof (cases "l = m")
    case True
    then show ?thesis using level_first [of j s now m run] Cons.prems(1-3) by (auto simp: split_beta)
  next
    case False
    then have "l < m" "m \<in> set ls" using Cons.prems(5,6) by auto
    then have "sched_level run now l s = ([], stamped now [0..<NPROC] s)" using level_none [of s now l run] Cons.prems(4) by blast
    moreover have "\<exists>rest. fst (sched_levels run now ls (stamped now [0..<NPROC] s)) = j # rest"
      by (rule Cons.IH) (use Cons.prems \<open>m \<in> set ls\<close> in auto)
    ultimately show ?thesis by simp
  qed
qed simp

lemma levels_none:
  assumes "\<And>i. i < NPROC \<Longrightarrow> state (procs s i) \<noteq> RUNNABLE"
  shows "sched_levels run now ls s = ([], s)"
proof (induction ls)
  case (Cons l ls)
  have "(\<lambda>j. if j \<in> set [0..<NPROC] \<and> state (procs s j) = RUNNABLE then stamp now (procs s j) else procs s j) = procs s"
    using assms by (auto simp: fun_eq_iff)
  then have "stamped now [0..<NPROC] s = s" unfolding stamped_def by simp
  then show ?case using Cons level_none [of s now l run] assms by (simp add: ready_at_def)
qed simp

lemma effective_range:
  "0 \<le> priority x \<Longrightarrow> 0 \<le> effective_priority now x \<and> effective_priority now x \<le> priority x"
  by (auto simp: effective_priority_eq)


text \<open>C18. The effective priority is between the highest level and the process's own priority, and reaches the highest level
  after \<^verbatim>\<open>AGING_INTERVAL\<close> ticks per level; the count of ticks may wrap around.\<close>

theorem effective_priority_bounds:
  assumes "PRIORITY_MIN \<le> priority x"
  shows "PRIORITY_MIN \<le> effective_priority now x \<and> effective_priority now x \<le> priority x \<and>
    (int (unat AGING_INTERVAL) * priority x \<le> int (unat (now - ready_since x)) \<longrightarrow> effective_priority now x = PRIORITY_MIN)"
  using assms effective_range [of x now] effective_aged [of x now] by simp


theorem effective_priority_bounds_witness:
  "effective_priority 81 (zero_proc\<lparr>priority := 4, ready_since := 1\<rparr>) = 0"
  using effective_priority_bounds [of "zero_proc\<lparr>priority := 4, ready_since := 1\<rparr>" 81] by simp



end
