(* ===== verification/Bio.thy ===== *)
theory Bio
  imports Proc
begin

text \<open>
  The buffer cache of \<^verbatim>\<open>kernel/bio.c\<close> and the sleep locks of \<^verbatim>\<open>kernel/sleeplock.c\<close> it
  uses. A \<^verbatim>\<open>struct buf *\<close> is an index into \<^verbatim>\<open>bcache.buf\<close>, and the linked list through
  \<^verbatim>\<open>bcache.head\<close> is the list \<open>lru\<close> of indices, most recently used first. The disk is one
  device that holds a block for every block number. A transfer is one
  atomic step; \<open>dtrace\<close> records the writes in the order they reach the disk. A routine
  that would sleep for a lock another process holds is \<open>Blocked\<close>. The process that runs is
  the argument \<open>p\<close>.
\<close>

section \<open>Blocks\<close>

definition BSIZE :: nat where [simp]: "BSIZE = 1024"

type_synonym block = "uchar list"

section \<open>Sleep locks\<close>

record sleeplock =
  slocked :: bool
  spid :: int

definition initsleeplock :: sleeplock where
  "initsleeplock = \<lparr>slocked = False, spid = 0\<rparr>"

definition acquiresleep :: "int \<Rightarrow> sleeplock \<Rightarrow> sleeplock res" where
  "acquiresleep me lk = (if slocked lk then Blocked ''acquiresleep'' else Ok (lk\<lparr>slocked := True, spid := me\<rparr>))"

definition releasesleep :: "nat option \<Rightarrow> chan \<Rightarrow> sleeplock \<Rightarrow> 'a kstate_scheme \<Rightarrow> sleeplock \<times> 'a kstate_scheme" where
  "releasesleep p ch lk s = (lk\<lparr>slocked := False, spid := 0\<rparr>, wakeup p ch s)"

definition holdingsleep :: "int \<Rightarrow> sleeplock \<Rightarrow> bool" where
  "holdingsleep me lk \<longleftrightarrow> slocked lk \<and> spid lk = me"

section \<open>Buffers\<close>

record buf =
  valid :: bool
  bdev :: uint
  blockno :: uint
  block :: sleeplock
  refcnt :: int
  bdata :: block

record bstate = kstate +
  bufs :: "nat \<Rightarrow> buf"
  lru :: "nat list"
  disk :: "uint \<Rightarrow> block"
  dtrace :: "(uint \<times> block) list"

definition upd_buf :: "nat \<Rightarrow> (buf \<Rightarrow> buf) \<Rightarrow> 'a bstate_scheme \<Rightarrow> 'a bstate_scheme" where
  "upd_buf i f s = s\<lparr>bufs := (bufs s)(i := f (bufs s i))\<rparr>"

definition mypid :: "'a kstate_scheme \<Rightarrow> nat \<Rightarrow> int" where
  "mypid s p = pid (procs s p)"

definition virtio_disk_rw :: "nat \<Rightarrow> bool \<Rightarrow> 'a bstate_scheme \<Rightarrow> 'a bstate_scheme" where
  "virtio_disk_rw i write s =
     (let b = bufs s i in
      if write then s\<lparr>disk := (disk s)(blockno b := bdata b), dtrace := dtrace s @ [(blockno b, bdata b)]\<rparr>
      else upd_buf i (\<lambda>b. b\<lparr>bdata := disk s (blockno b)\<rparr>) s)"

definition binit :: "'a bstate_scheme \<Rightarrow> 'a bstate_scheme" where
  "binit s =
     fold (\<lambda>i s. upd_buf i (\<lambda>b. b\<lparr>block := initsleeplock\<rparr>) (s\<lparr>lru := i # lru s\<rparr>)) [0..<NBUF] (s\<lparr>lru := []\<rparr>)"

text \<open>The end of both loops of \<^verbatim>\<open>bget()\<close>: take the buffer's sleep lock.\<close>

definition lock_buf :: "nat \<Rightarrow> nat \<Rightarrow> 'a bstate_scheme \<Rightarrow> (nat \<times> 'a bstate_scheme) res" where
  "lock_buf p i s =
     bindR (acquiresleep (mypid s p) (block (bufs s i))) (\<lambda>lk. Ok (i, upd_buf i (\<lambda>b. b\<lparr>block := lk\<rparr>) s))"

definition bget :: "nat \<Rightarrow> uint \<Rightarrow> uint \<Rightarrow> 'a bstate_scheme \<Rightarrow> (nat \<times> 'a bstate_scheme) res" where
  "bget p dev bno s =
     (case find (\<lambda>i. bdev (bufs s i) = dev \<and> blockno (bufs s i) = bno) (lru s) of
        Some i \<Rightarrow> lock_buf p i (upd_buf i (\<lambda>b. b\<lparr>refcnt := refcnt b + 1\<rparr>) s)
      | None \<Rightarrow>
        (case find (\<lambda>i. refcnt (bufs s i) = 0) (rev (lru s)) of
           Some i \<Rightarrow> lock_buf p i (upd_buf i (\<lambda>b. b\<lparr>bdev := dev, blockno := bno, valid := False, refcnt := 1\<rparr>) s)
         | None \<Rightarrow> Panic ''bget: no buffers''))"

definition bread :: "nat \<Rightarrow> uint \<Rightarrow> uint \<Rightarrow> 'a bstate_scheme \<Rightarrow> (nat \<times> 'a bstate_scheme) res" where
  "bread p dev bno s =
     bindR (bget p dev bno s) (\<lambda>(i, s).
       if \<not> valid (bufs s i) then Ok (i, upd_buf i (\<lambda>b. b\<lparr>valid := True\<rparr>) (virtio_disk_rw i False s))
       else Ok (i, s))"

definition bwrite :: "nat \<Rightarrow> nat \<Rightarrow> 'a bstate_scheme \<Rightarrow> 'a bstate_scheme res" where
  "bwrite p i s =
     (if \<not> holdingsleep (mypid s p) (block (bufs s i)) then Panic ''bwrite'' else Ok (virtio_disk_rw i True s))"

definition brelse :: "nat \<Rightarrow> nat \<Rightarrow> 'a bstate_scheme \<Rightarrow> 'a bstate_scheme res" where
  "brelse p i s =
     (if \<not> holdingsleep (mypid s p) (block (bufs s i)) then Panic ''brelse''
      else let (lk, s) = releasesleep (Some p) (ChanBuf i) (block (bufs s i)) s;
               s = upd_buf i (\<lambda>b. b\<lparr>block := lk, refcnt := refcnt b - 1\<rparr>) s
           in if refcnt (bufs s i) = 0 then Ok (s\<lparr>lru := i # removeAll i (lru s)\<rparr>) else Ok s)"

definition bpin :: "nat \<Rightarrow> 'a bstate_scheme \<Rightarrow> 'a bstate_scheme" where
  "bpin i s = upd_buf i (\<lambda>b. b\<lparr>refcnt := refcnt b + 1\<rparr>) s"

definition bunpin :: "nat \<Rightarrow> 'a bstate_scheme \<Rightarrow> 'a bstate_scheme" where
  "bunpin i s = upd_buf i (\<lambda>b. b\<lparr>refcnt := refcnt b - 1\<rparr>) s"

text \<open>The caller of \<^verbatim>\<open>bread()\<close> changes the data of the buffer it holds.\<close>

definition set_bdata :: "nat \<Rightarrow> block \<Rightarrow> 'a bstate_scheme \<Rightarrow> 'a bstate_scheme" where
  "set_bdata i d s = upd_buf i (\<lambda>b. b\<lparr>bdata := d\<rparr>) s"

section \<open>The cache's invariant\<close>

text \<open>
  \<open>cached s b i\<close>: buffer \<open>i\<close> is the one for block \<open>b\<close> of the file system's device. A buffer
  that never held a block has device 0.
\<close>

definition cached :: "'a bstate_scheme \<Rightarrow> uint \<Rightarrow> nat \<Rightarrow> bool" where
  "cached s b i \<longleftrightarrow> i < NBUF \<and> bdev (bufs s i) = ROOTDEV \<and> blockno (bufs s i) = b"

text \<open>
  Every buffer is on the list once, no block is cached twice, a locked buffer is
  referenced, and a valid buffer that nobody references holds what is on the disk.
\<close>

definition bio_inv :: "'a bstate_scheme \<Rightarrow> bool" where
  "bio_inv s \<longleftrightarrow> distinct (lru s) \<and> set (lru s) = {..<NBUF} \<and>
     (\<forall>b i j. cached s b i \<longrightarrow> cached s b j \<longrightarrow> i = j) \<and>
     (\<forall>i<NBUF. 0 \<le> refcnt (bufs s i)) \<and> (\<forall>i<NBUF. slocked (block (bufs s i)) \<longrightarrow> 1 \<le> refcnt (bufs s i)) \<and>
     (\<forall>b i. cached s b i \<longrightarrow> refcnt (bufs s i) = 0 \<longrightarrow> valid (bufs s i) \<longrightarrow> bdata (bufs s i) = disk s b)"

text \<open>What a reader of a block sees.\<close>

definition lblk :: "'a bstate_scheme \<Rightarrow> uint \<Rightarrow> block" where
  "lblk s b =
     (case find (\<lambda>i. bdev (bufs s i) = ROOTDEV \<and> blockno (bufs s i) = b) (lru s) of
        Some i \<Rightarrow> if valid (bufs s i) then bdata (bufs s i) else disk s b
      | None \<Rightarrow> disk s b)"

definition unused :: "'a bstate_scheme \<Rightarrow> nat set" where
  "unused s = {i. i < NBUF \<and> refcnt (bufs s i) = 0}"

section \<open>Looking up a block\<close>

lemma bio_invD:
  assumes "bio_inv s"
  shows "distinct (lru s)" "set (lru s) = {..<NBUF}" "cached s b i \<Longrightarrow> cached s b j \<Longrightarrow> i = j"
    "i < NBUF \<Longrightarrow> 0 \<le> refcnt (bufs s i)" "i < NBUF \<Longrightarrow> slocked (block (bufs s i)) \<Longrightarrow> 1 \<le> refcnt (bufs s i)"
    "cached s b i \<Longrightarrow> refcnt (bufs s i) = 0 \<Longrightarrow> valid (bufs s i) \<Longrightarrow> bdata (bufs s i) = disk s b"
  using assms unfolding bio_inv_def by - (elim conjE, (simp; fail | blast))+

lemma bio_invI:
  assumes "distinct (lru s)" and "set (lru s) = {..<NBUF}" and "\<And>b i j. cached s b i \<Longrightarrow> cached s b j \<Longrightarrow> i = j"
    and "\<And>i. i < NBUF \<Longrightarrow> 0 \<le> refcnt (bufs s i)"
    and "\<And>i. i < NBUF \<Longrightarrow> slocked (block (bufs s i)) \<Longrightarrow> 1 \<le> refcnt (bufs s i)"
    and "\<And>b i. cached s b i \<Longrightarrow> refcnt (bufs s i) = 0 \<Longrightarrow> valid (bufs s i) \<Longrightarrow> bdata (bufs s i) = disk s b"
  shows "bio_inv s"
  using assms unfolding bio_inv_def by blast

lemma cached_bound: "cached s b i \<Longrightarrow> i < NBUF"
  by (simp add: cached_def)

lemma find_cached:
  assumes "bio_inv s" and "cached s b i"
  shows "find (\<lambda>i. bdev (bufs s i) = ROOTDEV \<and> blockno (bufs s i) = b) (lru s) = Some i"
proof (cases "find (\<lambda>i. bdev (bufs s i) = ROOTDEV \<and> blockno (bufs s i) = b) (lru s)")
  case None
  then show ?thesis using assms bio_invD(2) [OF assms(1)] by (auto simp: find_None_iff cached_def)
next
  case (Some j)
  then obtain n where n: "n < length (lru s)" "j = lru s ! n" "bdev (bufs s j) = ROOTDEV" "blockno (bufs s j) = b"
    by (auto simp: find_Some_iff)
  have "j \<in> set (lru s)" unfolding n(2) by (rule nth_mem [OF n(1)])
  then have "cached s b j" using n(3,4) bio_invD(2) [OF assms(1)] by (auto simp: cached_def)
  then show ?thesis using Some bio_invD(3) [OF assms(1) assms(2)] by blast
qed

lemma find_uncached:
  assumes "bio_inv s" and "\<And>i. \<not> cached s b i"
  shows "find (\<lambda>i. bdev (bufs s i) = ROOTDEV \<and> blockno (bufs s i) = b) (lru s) = None"
  using assms bio_invD(2) [OF assms(1)] by (auto simp: find_None_iff cached_def)

lemma lblk_hit:
  "bio_inv s \<Longrightarrow> cached s b i \<Longrightarrow> lblk s b = (if valid (bufs s i) then bdata (bufs s i) else disk s b)"
  by (simp add: lblk_def find_cached [unfolded ROOTDEV_def])

lemma lblk_miss: "bio_inv s \<Longrightarrow> (\<And>i. \<not> cached s b i) \<Longrightarrow> lblk s b = disk s b"
  by (simp add: lblk_def find_uncached [unfolded ROOTDEV_def])

text \<open>What a reader sees depends on the buffers and the disk, not on the order of the list.\<close>

lemma lblk_cong:
  assumes "bio_inv s" and "bio_inv s'" and "disk s' b = disk s b"
    and "\<And>i. cached s b i \<longleftrightarrow> cached s' b i"
    and "\<And>i. cached s b i \<Longrightarrow> valid (bufs s' i) = valid (bufs s i) \<and> bdata (bufs s' i) = bdata (bufs s i)"
  shows "lblk s' b = lblk s b"
proof (cases "\<exists>i. cached s b i")
  case True
  then obtain i where "cached s b i" by blast
  then show ?thesis using assms lblk_hit [of s b i] lblk_hit [of s' b i] by simp
next
  case False
  then show ?thesis using assms lblk_miss [of s b] lblk_miss [of s' b] by simp
qed

section \<open>Reading a block\<close>

text \<open>
  The buffer \<open>i\<close> that a read of block \<open>b\<close> takes: the one that caches it, or else one that
  nobody references; and its contents afterwards.
\<close>

definition bread_buf :: "'a bstate_scheme \<Rightarrow> nat \<Rightarrow> uint \<Rightarrow> nat \<Rightarrow> buf" where
  "bread_buf s p b i =
     \<lparr>valid = True, bdev = ROOTDEV, blockno = b, block = \<lparr>slocked = True, spid = mypid s p\<rparr>,
      refcnt = refcnt (bufs s i) + 1, bdata = lblk s b\<rparr>"

lemma bread_buf_simps [simp]:
  "valid (bread_buf s p b i)" "bdev (bread_buf s p b i) = 1" "blockno (bread_buf s p b i) = b"
  "block (bread_buf s p b i) = \<lparr>slocked = True, spid = mypid s p\<rparr>" "refcnt (bread_buf s p b i) = refcnt (bufs s i) + 1"
  "bdata (bread_buf s p b i) = lblk s b"
  by (simp_all add: bread_buf_def)

lemma bread_cached:
  assumes inv: "bio_inv s" and c: "cached s b i" and free: "\<not> slocked (block (bufs s i))"
  shows "bread p ROOTDEV b s = Ok (i, s\<lparr>bufs := (bufs s)(i := bread_buf s p b i)\<rparr>)"
proof -
  have f: "find (\<lambda>i. bdev (bufs s i) = ROOTDEV \<and> blockno (bufs s i) = b) (lru s) = Some i" by (rule find_cached [OF inv c])
  have e: "bdev (bufs s i) = 1" "blockno (bufs s i) = b" using c by (auto simp: cached_def)
  show ?thesis
    using free e lblk_hit [OF inv c]
    by (auto simp: bread_def bget_def f [unfolded ROOTDEV_def] lock_buf_def acquiresleep_def upd_buf_def virtio_disk_rw_def Let_def
        bread_buf_def mypid_def intro!: bstate.fold_congs)
qed

lemma bread_uncached:
  assumes inv: "bio_inv s" and c: "\<And>i. \<not> cached s b i" and un: "unused s \<noteq> {}"
  obtains i where "i \<in> unused s" "bread p ROOTDEV b s = Ok (i, s\<lparr>bufs := (bufs s)(i := bread_buf s p b i)\<rparr>)"
proof -
  have f: "find (\<lambda>i. bdev (bufs s i) = ROOTDEV \<and> blockno (bufs s i) = b) (lru s) = None" by (rule find_uncached [OF inv c])
  obtain i where g: "find (\<lambda>i. refcnt (bufs s i) = 0) (rev (lru s)) = Some i"
    using un bio_invD(2) [OF inv] by (cases "find (\<lambda>i. refcnt (bufs s i) = 0) (rev (lru s))") (auto simp: find_None_iff unused_def)
  then have "i \<in> set (rev (lru s))" "refcnt (bufs s i) = 0" by (auto simp: find_Some_iff simp del: set_rev intro!: nth_mem)
  then have i: "i \<in> unused s" using bio_invD(2) [OF inv] by (auto simp: unused_def)
  then have "\<not> slocked (block (bufs s i))" "refcnt (bufs s i) = 0" using bio_invD(5) [OF inv, of i] by (auto simp: unused_def)
  then have "bread p ROOTDEV b s = Ok (i, s\<lparr>bufs := (bufs s)(i := bread_buf s p b i)\<rparr>)"
    using lblk_miss [OF inv c]
    by (auto simp: bread_def bget_def f [unfolded ROOTDEV_def] g lock_buf_def acquiresleep_def upd_buf_def virtio_disk_rw_def Let_def
        bread_buf_def mypid_def intro!: bstate.fold_congs)
  with i show ?thesis by (rule that)
qed

lemma bread_spec:
  assumes inv: "bio_inv s" and free: "\<And>i. cached s b i \<Longrightarrow> \<not> slocked (block (bufs s i))"
    and un: "unused s \<noteq> {} \<or> (\<exists>i. cached s b i)"
  obtains i s' where "bread p ROOTDEV b s = Ok (i, s')" "s' = s\<lparr>bufs := (bufs s)(i := bread_buf s p b i)\<rparr>" "i < NBUF"
    "cached s b i \<or> i \<in> unused s \<and> (\<forall>j. \<not> cached s b j)" "bio_inv s'" "lblk s' = lblk s"
proof -
  obtain i where i: "bread p ROOTDEV b s = Ok (i, s\<lparr>bufs := (bufs s)(i := bread_buf s p b i)\<rparr>)"
    "cached s b i \<or> i \<in> unused s \<and> (\<forall>j. \<not> cached s b j)"
  proof (cases "\<exists>i. cached s b i")
    case True
    then obtain i where "cached s b i" by blast
    then show ?thesis using bread_cached [OF inv _ free] that by blast
  next
    case False
    then have c: "\<And>i. \<not> cached s b i" and u: "unused s \<noteq> {}" using un by auto
    show ?thesis by (rule bread_uncached [OF inv c u, of p]) (use c that in blast)
  qed
  define s' where "s' = s\<lparr>bufs := (bufs s)(i := bread_buf s p b i)\<rparr>"
  have lt: "i < NBUF" using i(2) by (auto simp: cached_def unused_def)
  have c': "cached s' b' j \<longleftrightarrow> (if j = i then b' = b else cached s b' j)" for b' j
    using lt by (auto simp: s'_def cached_def)
  have old: "b' \<noteq> b \<Longrightarrow> cached s b' i \<Longrightarrow> refcnt (bufs s i) = 0 \<and> (\<forall>j. \<not> cached s b j)" for b'
    using i(2) by (auto simp: unused_def cached_def)
  have inv': "bio_inv s'"
  proof (rule bio_invI)
    show "j = k" if "cached s' b' j" "cached s' b' k" for b' j k
      using that i(2) bio_invD(3) [OF inv, of b' j k] bio_invD(3) [OF inv, of b i j] bio_invD(3) [OF inv, of b i k]
      unfolding c' by (auto split: if_splits)
    show "0 \<le> refcnt (bufs s' j)" if "j < NBUF" for j
      using bio_invD(4) [OF inv that] bio_invD(4) [OF inv lt] by (simp add: s'_def)
    show "1 \<le> refcnt (bufs s' j)" if "j < NBUF" "slocked (block (bufs s' j))" for j
      using bio_invD(5) [OF inv that(1)] bio_invD(4) [OF inv lt] that(2) by (simp add: s'_def split: if_splits)
    show "bdata (bufs s' j) = disk s' b'" if "cached s' b' j" "refcnt (bufs s' j) = 0" "valid (bufs s' j)" for b' j
      using that bio_invD(6) [OF inv, of b' j] bio_invD(4) [OF inv lt] c' [of b' j] by (simp add: s'_def split: if_splits)
  qed (use bio_invD(1,2) [OF inv] in \<open>simp_all add: s'_def\<close>)
  have "lblk s' b' = lblk s b'" for b'
  proof (cases "b' = b \<or> cached s b' i")
    case True
    show ?thesis
    proof (cases "b' = b")
      case True
      then have "cached s' b' i" using c' [of b' i] by simp
      then show ?thesis using lblk_hit [OF inv'] True by (simp add: s'_def)
    next
      case False
      with True have ci: "cached s b' i" by simp
      have "lblk s b' = disk s b'"
        using lblk_hit [OF inv ci] bio_invD(6) [OF inv ci] old [OF False ci] by auto
      moreover have "\<not> cached s' b' j" for j using c' [of b' j] False bio_invD(3) [OF inv ci, of j] by auto
      ultimately show ?thesis using lblk_miss [OF inv', of b'] by (simp add: s'_def)
    qed
  next
    case False
    show ?thesis
    proof (rule lblk_cong [OF inv inv'])
      show "cached s b' j \<longleftrightarrow> cached s' b' j" for j using False c' [of b' j] by auto
      show "valid (bufs s' j) = valid (bufs s j) \<and> bdata (bufs s' j) = bdata (bufs s j)" if "cached s b' j" for j
        using that False by (auto simp: s'_def)
    qed (simp add: s'_def)
  qed
  then show ?thesis using that [OF i(1) [folded s'_def] s'_def lt i(2) inv'] by blast
qed

section \<open>What the routines leave alone\<close>

text \<open>
  The cache's routines wake processes and change buffers, the list and the disk; nothing
  else of the kernel's state.
\<close>

definition woken :: "'a kstate_scheme \<Rightarrow> 'b kstate_scheme \<Rightarrow> bool" where
  "woken s s' \<longleftrightarrow> (\<forall>q. procs s' q = procs s q \<or> procs s' q = make_runnable (procs s q))"

definition io_only :: "'a bstate_scheme \<Rightarrow> 'a bstate_scheme \<Rightarrow> bool" where
  "io_only s s' \<longleftrightarrow> woken s s' \<and>
     s' = s\<lparr>procs := procs s', bufs := bufs s', lru := lru s', disk := disk s', dtrace := dtrace s'\<rparr>"

lemma make_runnable_idem [simp]: "make_runnable (make_runnable x) = make_runnable x"
  by (simp add: make_runnable_def)

lemma woken_refl [simp]: "woken s s"
  by (simp add: woken_def)

lemma woken_trans: "woken s s1 \<Longrightarrow> woken s1 s2 \<Longrightarrow> woken s s2"
  unfolding woken_def by (metis make_runnable_idem)

lemma woken_wakeup: "woken s (wakeup p ch s)"
  by (auto simp: woken_def wakeup_eq)

lemma woken_mypid: "woken s s' \<Longrightarrow> mypid s' p = mypid s p"
  unfolding woken_def mypid_def make_runnable_def by (drule spec [of _ p]) auto

lemma io_only_refl [simp]: "io_only s s"
  by (simp add: io_only_def)

lemma io_only_trans:
  assumes "io_only s s1" and "io_only s1 s2"
  shows "io_only s s2"
proof -
  obtain P B L D T where 1: "s1 = s\<lparr>procs := P, bufs := B, lru := L, disk := D, dtrace := T\<rparr>"
    using assms(1) unfolding io_only_def by blast
  obtain P' B' L' D' T' where 2: "s2 = s1\<lparr>procs := P', bufs := B', lru := L', disk := D', dtrace := T'\<rparr>"
    using assms(2) unfolding io_only_def by blast
  have "s2 = s\<lparr>procs := procs s2, bufs := bufs s2, lru := lru s2, disk := disk s2, dtrace := dtrace s2\<rparr>"
    unfolding 2 1 by simp
  then show ?thesis using assms woken_trans [of s s1 s2] unfolding io_only_def by blast
qed

lemma io_only_mypid: "io_only s s' \<Longrightarrow> mypid s' p = mypid s p"
  by (auto simp: io_only_def intro: woken_mypid)

lemma io_only_bufs [simp]: "io_only s (s\<lparr>bufs := B\<rparr>)"
  by (simp add: io_only_def woken_def)

section \<open>Changing, writing and releasing a buffer one holds\<close>

lemma set_bdata_spec:
  assumes inv: "bio_inv s" and c: "cached s b i" and v: "valid (bufs s i)" and r: "1 \<le> refcnt (bufs s i)"
  shows "bio_inv (set_bdata i d s)" "lblk (set_bdata i d s) = (lblk s)(b := d)" "io_only s (set_bdata i d s)"
proof -
  let ?s = "set_bdata i d s"
  have c': "cached ?s b' j = cached s b' j" for b' j by (simp add: cached_def set_bdata_def upd_buf_def)
  show inv': "bio_inv ?s"
  proof (rule bio_invI)
    show "bdata (bufs ?s j) = disk ?s b'" if "cached ?s b' j" "refcnt (bufs ?s j) = 0" "valid (bufs ?s j)" for b' j
      using that r bio_invD(6) [OF inv, of b' j] unfolding c' by (auto simp: set_bdata_def upd_buf_def split: if_splits)
    show "j = k" if "cached ?s b' j" "cached ?s b' k" for b' j k using that bio_invD(3) [OF inv] unfolding c' by blast
  qed (use bio_invD(1,2,4,5) [OF inv] in \<open>auto simp: set_bdata_def upd_buf_def\<close>)
  have "lblk ?s b' = ((lblk s)(b := d)) b'" for b'
  proof (cases "b' = b")
    case True
    then show ?thesis using lblk_hit [OF inv', of b i] c v by (simp add: c') (simp add: set_bdata_def upd_buf_def)
  next
    case False
    have "lblk ?s b' = lblk s b'"
      by (rule lblk_cong [OF inv inv']) (use False c in \<open>auto simp: cached_def set_bdata_def upd_buf_def\<close>)
    then show ?thesis using False by simp
  qed
  then show "lblk ?s = (lblk s)(b := d)" by (rule ext)
  show "io_only s ?s" by (simp add: set_bdata_def upd_buf_def)
qed

lemma bwrite_spec:
  assumes inv: "bio_inv s" and c: "cached s b i" and v: "valid (bufs s i)" and r: "1 \<le> refcnt (bufs s i)"
    and h: "holdingsleep (mypid s p) (block (bufs s i))"
  obtains s' where "bwrite p i s = Ok s'" "s' = s\<lparr>disk := (disk s)(b := lblk s b), dtrace := dtrace s @ [(b, lblk s b)]\<rparr>"
    "bio_inv s'" "lblk s' = lblk s" "io_only s s'"
proof -
  define s' where "s' = s\<lparr>disk := (disk s)(b := lblk s b), dtrace := dtrace s @ [(b, lblk s b)]\<rparr>"
  have d: "bdata (bufs s i) = lblk s b" "blockno (bufs s i) = b" using lblk_hit [OF inv c] v c by (auto simp: cached_def)
  have w: "bwrite p i s = Ok s'" using h d by (simp add: bwrite_def virtio_disk_rw_def Let_def s'_def)
  have c': "cached s' b' j = cached s b' j" for b' j by (simp add: cached_def s'_def)
  have inv': "bio_inv s'"
  proof (rule bio_invI)
    show "bdata (bufs s' j) = disk s' b'" if "cached s' b' j" "refcnt (bufs s' j) = 0" "valid (bufs s' j)" for b' j
    proof (cases "b' = b")
      case True
      then have "j = i" using that bio_invD(3) [OF inv c, of j] by (simp add: c')
      then show ?thesis using that r by (simp add: s'_def)
    next
      case False
      then show ?thesis using that bio_invD(6) [OF inv, of b' j] by (simp add: c') (simp add: s'_def)
    qed
    show "j = k" if "cached s' b' j" "cached s' b' k" for b' j k using that bio_invD(3) [OF inv] unfolding c' by blast
  qed (use bio_invD(1,2,4,5) [OF inv] in \<open>auto simp: s'_def\<close>)
  have "lblk s' b' = lblk s b'" for b'
  proof (cases "b' = b")
    case True
    then show ?thesis using lblk_hit [OF inv', of b i] c v d by (simp add: c') (simp add: s'_def)
  next
    case False
    show ?thesis by (rule lblk_cong [OF inv inv']) (use False in \<open>auto simp: cached_def s'_def\<close>)
  qed
  then have "lblk s' = lblk s" by (rule ext)
  moreover have "io_only s s'" by (simp add: io_only_def s'_def woken_def)
  ultimately show ?thesis using that [OF w s'_def inv'] by blast
qed

lemma brelse_spec:
  assumes inv: "bio_inv s" and i: "i < NBUF" and h: "holdingsleep (mypid s p) (block (bufs s i))"
    and clean: "\<And>b. refcnt (bufs s i) = 1 \<Longrightarrow> cached s b i \<Longrightarrow> lblk s b = disk s b"
  obtains s' where "brelse p i s = Ok s'" "bio_inv s'" "lblk s' = lblk s" "io_only s s'"
    "bufs s' = (bufs s)(i := (bufs s i)\<lparr>block := \<lparr>slocked = False, spid = 0\<rparr>, refcnt := refcnt (bufs s i) - 1\<rparr>)"
    "disk s' = disk s" "dtrace s' = dtrace s"
proof -
  define B where "B = (bufs s)(i := (bufs s i)\<lparr>block := \<lparr>slocked = False, spid = 0\<rparr>, refcnt := refcnt (bufs s i) - 1\<rparr>)"
  define L where "L = (if refcnt (bufs s i) = 1 then i # removeAll i (lru s) else lru s)"
  define s' where "s' = s\<lparr>procs := procs (wakeup (Some p) (ChanBuf i) s), bufs := B, lru := L\<rparr>"
  have lk: "block (bufs s i)\<lparr>slocked := False, spid := 0\<rparr> = \<lparr>slocked = False, spid = 0\<rparr>" by simp
  have w: "brelse p i s = Ok s'"
    using h by (auto simp: brelse_def releasesleep_def upd_buf_def wakeup_eq lk s'_def B_def L_def Let_def)
  have c': "cached s' b j = cached s b j" for b j by (simp add: cached_def s'_def B_def)
  have r: "1 \<le> refcnt (bufs s i)" using bio_invD(5) [OF inv i] h by (simp add: holdingsleep_def)
  have inv': "bio_inv s'"
  proof (rule bio_invI)
    show "distinct (lru s')" "set (lru s') = {..<NBUF}"
      using bio_invD(1,2) [OF inv] i by (auto simp: s'_def L_def distinct_removeAll)
    show "bdata (bufs s' j) = disk s' b" if a: "cached s' b j" "refcnt (bufs s' j) = 0" "valid (bufs s' j)" for b j
    proof (cases "j = i")
      case True
      have "lblk s b = disk s b" using clean [of b] a True by (simp add: c') (simp add: s'_def B_def)
      then show ?thesis using a True lblk_hit [OF inv, of b j] by (simp add: c') (simp add: s'_def B_def)
    next
      case False
      then show ?thesis using a bio_invD(6) [OF inv, of b j] by (simp add: c') (simp add: s'_def B_def)
    qed
    show "0 \<le> refcnt (bufs s' j)" if "j < NBUF" for j using bio_invD(4) [OF inv that] r by (simp add: s'_def B_def)
    show "1 \<le> refcnt (bufs s' j)" if "j < NBUF" "slocked (block (bufs s' j))" for j
      using bio_invD(5) [OF inv that(1)] that(2) by (auto simp: s'_def B_def split: if_splits)
  qed (use bio_invD(3) [OF inv] in \<open>simp add: c'\<close>)
  have "lblk s' b = lblk s b" for b
    by (rule lblk_cong [OF inv inv']) (auto simp: cached_def s'_def B_def)
  then have "lblk s' = lblk s" by (rule ext)
  moreover have "io_only s s'" using woken_wakeup [of s "Some p" "ChanBuf i"] by (simp add: io_only_def s'_def woken_def)
  ultimately show ?thesis using that [OF w inv'] by (simp add: s'_def B_def)
qed

end
