(* ===== verification/Bio_Session.thy ===== *)
theory Bio_Session
  imports Bio
begin

text \<open>
  Sessions with the buffer cache: what a caller may rely on between taking buffers with
  \<^verbatim>\<open>bread()\<close> and releasing them. \<open>held p P H s\<close> says that process \<open>p\<close> holds exactly the
  blocks \<open>H\<close>, that nobody else holds any, and that block \<open>b\<close> is pinned \<open>P b\<close> times. Each
  routine is then a step from one such state to another, in which a reader's view of
  the blocks (\<open>lblk\<close>) changes only where the caller changes it.
\<close>

definition held :: "nat \<Rightarrow> (uint \<Rightarrow> int) \<Rightarrow> uint set \<Rightarrow> 'a bstate_scheme \<Rightarrow> bool" where
  "held p P H s \<longleftrightarrow> bio_inv s \<and>
     (\<forall>i<NBUF. bdev (bufs s i) \<noteq> ROOTDEV \<longrightarrow> refcnt (bufs s i) = 0) \<and>
     (\<forall>b i. cached s b i \<longrightarrow> refcnt (bufs s i) = P b + of_bool (b \<in> H)) \<and>
     (\<forall>b i. cached s b i \<longrightarrow> b \<notin> H \<longrightarrow> \<not> slocked (block (bufs s i))) \<and>
     (\<forall>b\<in>H. \<exists>i. cached s b i \<and> holdingsleep (mypid s p) (block (bufs s i)) \<and> valid (bufs s i)) \<and>
     (\<forall>b. 0 \<le> P b \<and> (0 < P b \<longrightarrow> (\<exists>i. cached s b i \<and> valid (bufs s i))))"

lemma heldD:
  assumes "held p P H s"
  shows "bio_inv s" "i < NBUF \<Longrightarrow> bdev (bufs s i) \<noteq> ROOTDEV \<Longrightarrow> refcnt (bufs s i) = 0"
    "cached s b i \<Longrightarrow> refcnt (bufs s i) = P b + of_bool (b \<in> H)"
    "cached s b i \<Longrightarrow> b \<notin> H \<Longrightarrow> \<not> slocked (block (bufs s i))"
    "cached s b i \<Longrightarrow> b \<in> H \<Longrightarrow> holdingsleep (mypid s p) (block (bufs s i)) \<and> valid (bufs s i)"
    "0 \<le> P b" "0 < P b \<Longrightarrow> \<exists>i. cached s b i \<and> valid (bufs s i)" "b \<in> H \<Longrightarrow> \<exists>i. cached s b i"
proof -
  note d = assms [unfolded held_def]
  show inv: "bio_inv s" using d by blast
  show "i < NBUF \<Longrightarrow> bdev (bufs s i) \<noteq> ROOTDEV \<Longrightarrow> refcnt (bufs s i) = 0" using d by blast
  show "cached s b i \<Longrightarrow> refcnt (bufs s i) = P b + of_bool (b \<in> H)" using d by blast
  show "cached s b i \<Longrightarrow> b \<notin> H \<Longrightarrow> \<not> slocked (block (bufs s i))" using d by blast
  show "holdingsleep (mypid s p) (block (bufs s i)) \<and> valid (bufs s i)" if "cached s b i" "b \<in> H"
    using d that bio_invD(3) [OF inv that(1)] by blast
  show "0 \<le> P b" "0 < P b \<Longrightarrow> \<exists>i. cached s b i \<and> valid (bufs s i)" "b \<in> H \<Longrightarrow> \<exists>i. cached s b i" using d by blast+
qed

lemma heldI:
  assumes "bio_inv s" and "\<And>i. i < NBUF \<Longrightarrow> bdev (bufs s i) \<noteq> ROOTDEV \<Longrightarrow> refcnt (bufs s i) = 0"
    and "\<And>b i. cached s b i \<Longrightarrow> refcnt (bufs s i) = P b + of_bool (b \<in> H)"
    and "\<And>b i. cached s b i \<Longrightarrow> b \<notin> H \<Longrightarrow> \<not> slocked (block (bufs s i))"
    and "\<And>b. b \<in> H \<Longrightarrow> \<exists>i. cached s b i \<and> holdingsleep (mypid s p) (block (bufs s i)) \<and> valid (bufs s i)"
    and "\<And>b. 0 \<le> P b" and "\<And>b. 0 < P b \<Longrightarrow> \<exists>i. cached s b i \<and> valid (bufs s i)"
  shows "held p P H s"
  unfolding held_def using assms by blast

text \<open>Room: fewer blocks are pinned or held than there are buffers.\<close>

definition pinned :: "(uint \<Rightarrow> int) \<Rightarrow> uint set" where
  "pinned P = {b. 0 < P b}"

lemma held_unused:
  assumes h: "held p P H s" and room: "card (pinned P) + card H < NBUF"
  shows "unused s \<noteq> {}"
proof
  assume none: "unused s = {}"
  have used: "bdev (bufs s i) = ROOTDEV \<and> blockno (bufs s i) \<in> pinned P \<union> H" if "i < NBUF" for i
  proof -
    have "refcnt (bufs s i) \<noteq> 0" using none that by (auto simp: unused_def)
    then have dev: "bdev (bufs s i) = ROOTDEV" using heldD(2) [OF h that] by blast
    then have "cached s (blockno (bufs s i)) i" using that by (simp add: cached_def)
    then show ?thesis using heldD(3) [OF h] heldD(6) [OF h, of "blockno (bufs s i)"] \<open>refcnt (bufs s i) \<noteq> 0\<close> dev
      by (force simp: pinned_def of_bool_def split: if_splits)
  qed
  have "inj_on (\<lambda>i. blockno (bufs s i)) {..<NBUF}"
    using used bio_invD(3) [OF heldD(1) [OF h]] by (auto simp: inj_on_def cached_def)
  then have "NBUF \<le> card (pinned P \<union> H)"
    using card_inj_on_le [of "\<lambda>i. blockno (bufs s i)" "{..<NBUF}" "pinned P \<union> H"] used by auto
  then show False using room card_Un_le [of "pinned P" H] by linarith
qed

lemma held_bread:
  assumes h: "held p P H s" and b: "b \<notin> H" and room: "card (pinned P) + card H < NBUF"
  obtains i s' where "bread p ROOTDEV b s = Ok (i, s')" "cached s' b i" "bdata (bufs s' i) = lblk s b" "held p P (insert b H) s'"
    "lblk s' = lblk s" "disk s' = disk s" "dtrace s' = dtrace s" "io_only s s'"
    "\<And>b' j. b' \<in> H \<Longrightarrow> cached s b' j \<Longrightarrow> cached s' b' j" "P b = 0 \<Longrightarrow> lblk s b = disk s b"
proof -
  note inv = heldD(1) [OF h]
  obtain i s' where r: "bread p ROOTDEV b s = Ok (i, s')" and s': "s' = s\<lparr>bufs := (bufs s)(i := bread_buf s p b i)\<rparr>"
    and i: "i < NBUF" "cached s b i \<or> i \<in> unused s \<and> (\<forall>j. \<not> cached s b j)" and inv': "bio_inv s'" and l: "lblk s' = lblk s"
    by (rule bread_spec [OF inv, of b p]) (use heldD(4) [OF h _ b] held_unused [OF h room] in blast)+
  have c': "cached s' b' j \<longleftrightarrow> (if j = i then b' = b else cached s b' j)" for b' j using i(1) by (auto simp: s' cached_def)
  have P0: "P b' = 0 \<and> b' \<notin> H" if "cached s b' i" "b' \<noteq> b" for b'
  proof -
    have "refcnt (bufs s i) = 0" using that i(2) by (auto simp: cached_def unused_def)
    then show ?thesis using heldD(3) [OF h that(1)] heldD(6) [OF h, of b'] by (auto simp: of_bool_def split: if_splits)
  qed
  have Pb: "P b = 0 \<and> refcnt (bufs s i) = 0" if "\<not> cached s b i"
    using that i(2) heldD(6,7) [OF h, of b] by (force simp: unused_def)
  have H: "held p P (insert b H) s'"
  proof (rule heldI [OF inv'])
    show "refcnt (bufs s' j) = 0" if "j < NBUF" "bdev (bufs s' j) \<noteq> ROOTDEV" for j
      using that heldD(2) [OF h that(1)] by (auto simp: s' split: if_splits)
    show "refcnt (bufs s' j) = P b' + of_bool (b' \<in> insert b H)" if "cached s' b' j" for b' j
    proof (cases "j = i")
      case True
      then have "b' = b" using that by (simp add: c')
      then show ?thesis using True b Pb heldD(3) [OF h, of b i] by (cases "cached s b i") (auto simp: s')
    next
      case False
      then have cj: "cached s b' j" using that by (simp add: c')
      have "b' \<noteq> b" using cj False i(2) bio_invD(3) [OF inv cj] by blast
      then show ?thesis using heldD(3) [OF h cj] False by (simp add: s')
    qed
    show "\<not> slocked (block (bufs s' j))" if "cached s' b' j" "b' \<notin> insert b H" for b' j
      using that heldD(4) [OF h, of b' j] c' [of b' j] by (auto simp: s' split: if_splits)
    show "\<exists>j. cached s' b' j \<and> holdingsleep (mypid s' p) (block (bufs s' j)) \<and> valid (bufs s' j)" if bH: "b' \<in> insert b H" for b'
    proof (cases "b' = b")
      case True
      then show ?thesis by (intro exI [of _ i]) (simp add: c', simp add: s' holdingsleep_def mypid_def)
    next
      case False
      then obtain j where cj: "cached s b' j" using bH heldD(8) [OF h] by blast
      then have "j \<noteq> i" using P0 [of b'] False bH by blast
      then show ?thesis using heldD(5) [OF h cj] cj False bH
        by (intro exI [of _ j]) (simp add: c', simp add: s' mypid_def)
    qed
    show "0 \<le> P b'" for b' by (rule heldD(6) [OF h])
    show "\<exists>j. cached s' b' j \<and> valid (bufs s' j)" if Pb': "0 < P b'" for b'
    proof (cases "b' = b")
      case True
      then show ?thesis by (intro exI [of _ i]) (simp add: c', simp add: s')
    next
      case False
      obtain j where cj: "cached s b' j" "valid (bufs s j)" using heldD(7) [OF h \<open>0 < P b'\<close>] by blast
      then have "j \<noteq> i" using P0 [of b'] False Pb' by force
      then show ?thesis using cj by (intro exI [of _ j]) (simp add: c', simp add: s')
    qed
  qed
  have "lblk s b = disk s b" if "P b = 0"
  proof (cases "cached s b i")
    case True
    then show ?thesis using lblk_hit [OF inv True] bio_invD(6) [OF inv True] heldD(3) [OF h True] that b by auto
  next
    case False
    then show ?thesis using i(2) lblk_miss [OF inv] by blast
  qed
  moreover have "cached s' b' j" if "b' \<in> H" "cached s b' j" for b' j
    using that b P0 [of b'] by (cases "j = i") (auto simp: c')
  moreover have "cached s' b i" by (simp add: c')
  moreover have "bdata (bufs s' i) = lblk s b" "disk s' = disk s" "dtrace s' = dtrace s" "io_only s s'" by (simp_all add: s')
  ultimately show ?thesis using that [OF r _ _ H l] by blast
qed

text \<open>Steps that keep the identity of every buffer.\<close>

lemma held_same:
  assumes h: "held p P H s" and inv': "bio_inv s'" and pid': "mypid s' p = mypid s p"
    and same: "\<And>i. bdev (bufs s' i) = bdev (bufs s i) \<and> blockno (bufs s' i) = blockno (bufs s i) \<and> valid (bufs s' i) = valid (bufs s i)"
    and refs: "\<And>b i. cached s b i \<Longrightarrow> refcnt (bufs s' i) = P' b + of_bool (b \<in> H')"
      "\<And>i. bdev (bufs s i) \<noteq> ROOTDEV \<Longrightarrow> refcnt (bufs s' i) = refcnt (bufs s i)"
    and lock: "\<And>b i. cached s b i \<Longrightarrow> (if b \<in> H' then block (bufs s' i) = block (bufs s i) else \<not> slocked (block (bufs s' i)))"
    and P': "\<And>b. 0 \<le> P' b" "\<And>b. 0 < P' b \<Longrightarrow> 0 < P b \<or> b \<in> H" and H': "H' \<subseteq> H"
  shows "held p P' H' s'" "cached s' b i = cached s b i"
proof -
  show c': "cached s' b i = cached s b i" for b i using same by (simp add: cached_def)
  show "held p P' H' s'"
  proof (rule heldI [OF inv'])
    show "refcnt (bufs s' i) = 0" if "i < NBUF" "bdev (bufs s' i) \<noteq> ROOTDEV" for i
      using heldD(2) [OF h that(1)] refs(2) [of i] same [of i] that(2) by metis
    show "\<not> slocked (block (bufs s' i))" if "cached s' b i" "b \<notin> H'" for b i
      using lock [of b i] that by (simp add: c')
    show "\<exists>i. cached s' b i \<and> holdingsleep (mypid s' p) (block (bufs s' i)) \<and> valid (bufs s' i)" if b: "b \<in> H'" for b
    proof -
      obtain i where i: "cached s b i" using heldD(8) [OF h] b H' by blast
      show ?thesis using i heldD(5) [OF h i] b H' lock [OF i] same [of i] pid' by (intro exI [of _ i]) (auto simp: c')
    qed
    show "\<exists>i. cached s' b i \<and> valid (bufs s' i)" if b: "0 < P' b" for b
    proof -
      have "\<exists>i. cached s b i \<and> valid (bufs s i)" using P'(2) [OF b] heldD(5,7,8) [OF h] by blast
      then show ?thesis using same by (simp add: c')
    qed
  qed (use refs(1) P'(1) in \<open>simp_all add: c'\<close>)
qed

lemma held_refcnt:
  assumes "held p P H s" and "b \<in> H" and "cached s b i"
  shows "1 \<le> refcnt (bufs s i)" "valid (bufs s i)" "holdingsleep (mypid s p) (block (bufs s i))" "bdata (bufs s i) = lblk s b"
  using heldD(3,5) [OF assms(1,3)] heldD(6) [OF assms(1), of b] assms(2) lblk_hit [OF heldD(1) [OF assms(1)] assms(3)] by auto

lemma held_set:
  assumes h: "held p P H s" and b: "b \<in> H" and c: "cached s b i"
  shows "held p P H (set_bdata i d s)" "lblk (set_bdata i d s) = (lblk s)(b := d)" "io_only s (set_bdata i d s)"
    "cached (set_bdata i d s) b' j = cached s b' j" "disk (set_bdata i d s) = disk s" "dtrace (set_bdata i d s) = dtrace s"
proof -
  note hr = held_refcnt [OF h b c]
  note sp = set_bdata_spec [OF heldD(1) [OF h] c hr(2,1), of d]
  show "lblk (set_bdata i d s) = (lblk s)(b := d)" "io_only s (set_bdata i d s)" by (fact sp)+
  show "held p P H (set_bdata i d s)" "cached (set_bdata i d s) b' j = cached s b' j"
    by (rule held_same [OF h sp(1), where P' = P and H' = H];
        use heldD(3-6) [OF h] in \<open>auto simp: set_bdata_def upd_buf_def mypid_def holdingsleep_def\<close>)+
qed (simp_all add: set_bdata_def upd_buf_def)

lemma held_bwrite:
  assumes h: "held p P H s" and b: "b \<in> H" and c: "cached s b i"
  obtains s' where "bwrite p i s = Ok s'" "held p P H s'" "lblk s' = lblk s" "io_only s s'" "\<And>b' j. cached s' b' j = cached s b' j"
    "disk s' = (disk s)(b := lblk s b)" "dtrace s' = dtrace s @ [(b, lblk s b)]"
proof -
  note hr = held_refcnt [OF h b c]
  obtain s' where w: "bwrite p i s = Ok s'" and s': "s' = s\<lparr>disk := (disk s)(b := lblk s b), dtrace := dtrace s @ [(b, lblk s b)]\<rparr>"
    and inv': "bio_inv s'" and l: "lblk s' = lblk s" and io: "io_only s s'"
    by (rule bwrite_spec [OF heldD(1) [OF h] c hr(2,1,3)]) (rule that)
  have "held p P H s'" "cached s' b' j = cached s b' j" for b' j
    by (rule held_same [OF h inv', where P' = P and H' = H];
        use heldD(3-6) [OF h] in \<open>auto simp: s' mypid_def holdingsleep_def\<close>)+
  then show ?thesis using that [OF w _ l io] by (simp add: s')
qed

lemma held_brelse:
  assumes h: "held p P H s" and b: "b \<in> H" and c: "cached s b i" and clean: "P b = 0 \<Longrightarrow> lblk s b = disk s b"
  obtains s' where "brelse p i s = Ok s'" "held p P (H - {b}) s'" "lblk s' = lblk s" "io_only s s'"
    "\<And>b' j. cached s' b' j = cached s b' j" "disk s' = disk s" "dtrace s' = dtrace s"
proof -
  note hr = held_refcnt [OF h b c] and inv = heldD(1) [OF h]
  have cl: "lblk s b' = disk s b'" if "refcnt (bufs s i) = 1" "cached s b' i" for b'
  proof -
    have "b' = b" using that(2) c by (simp add: cached_def)
    then show ?thesis using clean heldD(3) [OF h c] that(1) b by simp
  qed
  obtain s' where w: "brelse p i s = Ok s'" and inv': "bio_inv s'" and l: "lblk s' = lblk s" and io: "io_only s s'"
    and B: "bufs s' = (bufs s)(i := (bufs s i)\<lparr>block := \<lparr>slocked = False, spid = 0\<rparr>, refcnt := refcnt (bufs s i) - 1\<rparr>)"
    and d: "disk s' = disk s" "dtrace s' = dtrace s"
    by (rule brelse_spec [OF inv cached_bound [OF c] hr(3) cl]) (assumption | rule that)+
  have ci: "cached s b' i \<longleftrightarrow> b' = b" for b' using c by (auto simp: cached_def)
  have other: "j \<noteq> i" if "cached s b' j" "b' \<noteq> b" for b' j using that ci by blast
  have only: "j = i" if "cached s b j" for j using bio_invD(3) [OF inv c that] by simp
  have refs: "refcnt (bufs s' j) = P b' + of_bool (b' \<in> H - {b})" if "cached s b' j" for b' j
    using that heldD(3) [OF h that] b other [OF that] only [of j] by (cases "b' = b") (auto simp: B)
  have lock: "if b' \<in> H - {b} then block (bufs s' j) = block (bufs s j) else \<not> slocked (block (bufs s' j))" if "cached s b' j" for b' j
    using that heldD(4) [OF h that] other [OF that] only [of j] by (cases "b' = b") (auto simp: B)
  have "held p P (H - {b}) s'" "cached s' b' j = cached s b' j" for b' j
    by (rule held_same [OF h inv' _ _ refs _ lock];
        use io_only_mypid [OF io] heldD(6) [OF h] c in \<open>auto simp: B cached_def\<close>)+
  then show ?thesis using that [OF w _ l io _ d] by blast
qed

lemma held_pin:
  assumes h: "held p P H s" and b: "b \<in> H" and c: "cached s b i" and k: "0 \<le> P b + k"
  shows "held p (P(b := P b + k)) H (upd_buf i (\<lambda>x. x\<lparr>refcnt := refcnt x + k\<rparr>) s)"
    "lblk (upd_buf i (\<lambda>x. x\<lparr>refcnt := refcnt x + k\<rparr>) s) = lblk s" "io_only s (upd_buf i (\<lambda>x. x\<lparr>refcnt := refcnt x + k\<rparr>) s)"
    "cached (upd_buf i (\<lambda>x. x\<lparr>refcnt := refcnt x + k\<rparr>) s) b' j = cached s b' j"
proof -
  let ?s = "upd_buf i (\<lambda>x. x\<lparr>refcnt := refcnt x + k\<rparr>) s"
  note inv = heldD(1) [OF h] and hr = held_refcnt [OF h b c]
  have c': "cached ?s b' j = cached s b' j" for b' j by (simp add: cached_def upd_buf_def)
  have r: "refcnt (bufs ?s i) = P b + k + 1" using heldD(3) [OF h c] b by (simp add: upd_buf_def)
  have inv': "bio_inv ?s"
  proof (rule bio_invI)
    show "j = l" if "cached ?s b' j" "cached ?s b' l" for b' j l using that bio_invD(3) [OF inv] unfolding c' by blast
    show "0 \<le> refcnt (bufs ?s j)" if "j < NBUF" for j
      using bio_invD(4) [OF inv that] r k by (cases "j = i") (auto simp: upd_buf_def)
    show "1 \<le> refcnt (bufs ?s j)" if "j < NBUF" "slocked (block (bufs ?s j))" for j
      using bio_invD(5) [OF inv that(1)] that(2) r k by (cases "j = i") (auto simp: upd_buf_def)
    show "bdata (bufs ?s j) = disk ?s b'" if "cached ?s b' j" "refcnt (bufs ?s j) = 0" "valid (bufs ?s j)" for b' j
      using that bio_invD(6) [OF inv, of b' j] r k unfolding c' by (cases "j = i") (auto simp: upd_buf_def)
  qed (use bio_invD(1,2) [OF inv] in \<open>simp_all add: upd_buf_def\<close>)
  have "lblk ?s b' = lblk s b'" for b' by (rule lblk_cong [OF inv inv']) (auto simp: cached_def upd_buf_def)
  then show "lblk ?s = lblk s" by (rule ext)
  show "io_only s ?s" by (simp add: upd_buf_def)
  have only: "j = i" if "cached s b j" for j using bio_invD(3) [OF inv c that] by simp
  have other: "j \<noteq> i" if "cached s b' j" "b' \<noteq> b" for b' j using that c by (auto simp: cached_def)
  show "cached ?s b' j = cached s b' j" by (fact c')
  show "held p (P(b := P b + k)) H ?s"
  proof (rule held_same(1) [OF h inv'])
    show "refcnt (bufs ?s j) = (P(b := P b + k)) b' + of_bool (b' \<in> H)" if "cached s b' j" for b' j
      using heldD(3) [OF h that] only [of j] other [OF that] that r b by (cases "b' = b") (auto simp: upd_buf_def)
    show "if b' \<in> H then block (bufs ?s j) = block (bufs s j) else \<not> slocked (block (bufs ?s j))" if "cached s b' j" for b' j
      using heldD(4) [OF h that] by (auto simp: upd_buf_def)
  qed (use heldD(6) [OF h] k b c in \<open>auto simp: upd_buf_def mypid_def cached_def split: if_splits\<close>)
qed

end
