(* ===== verification/Bytes.thy ===== *)
theory Bytes
  imports Prelude
begin

text \<open>
  Structures in the bytes of a buffer: the C code casts \<^verbatim>\<open>b->data\<close> to a pointer to a
  header, an inode or a directory entry; the model reads and writes the little-endian
  fields at their offsets.
\<close>

primrec get_le :: "nat \<Rightarrow> uchar list \<Rightarrow> nat \<Rightarrow> 'a::len word" where
  "get_le 0 d off = 0"
| "get_le (Suc n) d off = ucast (d ! off) OR push_bit 8 (get_le n d (Suc off))"

primrec put_le :: "nat \<Rightarrow> uchar list \<Rightarrow> nat \<Rightarrow> 'a::len word \<Rightarrow> uchar list" where
  "put_le 0 d off v = d"
| "put_le (Suc n) d off v = put_le n (d[off := ucast v]) (Suc off) (drop_bit 8 v)"

definition get16 :: "uchar list \<Rightarrow> nat \<Rightarrow> ushort" where "get16 = get_le 2"
definition put16 :: "uchar list \<Rightarrow> nat \<Rightarrow> ushort \<Rightarrow> uchar list" where "put16 = put_le 2"
definition get32 :: "uchar list \<Rightarrow> nat \<Rightarrow> uint" where "get32 = get_le 4"
definition put32 :: "uchar list \<Rightarrow> nat \<Rightarrow> uint \<Rightarrow> uchar list" where "put32 = put_le 4"

lemma length_put_le [simp]: "length (put_le n d off v) = length d"
  by (induction n arbitrary: d off v) auto

lemma nth_put_le_other: "i < off \<or> off + n \<le> i \<Longrightarrow> put_le n d off v ! i = d ! i"
  by (induction n arbitrary: d off v) auto

lemma get_le_cong: "(\<And>i. off \<le> i \<Longrightarrow> i < off + n \<Longrightarrow> d ! i = e ! i) \<Longrightarrow> get_le n d off = get_le n e off"
  by (induction n arbitrary: off) auto

lemma get_put_le_other:
  "off + n \<le> off' \<or> off' + m \<le> off \<Longrightarrow> get_le m (put_le n d off v) off' = get_le m d off'"
  by (rule get_le_cong) (auto intro!: nth_put_le_other)

lemma get_put_le_same:
  "off + n \<le> length d \<Longrightarrow> get_le n (put_le n d off v) off = take_bit (8 * n) (v :: 'a::len word)"
proof (induction n arbitrary: d off v)
  case (Suc n)
  have "put_le (Suc n) d off v ! off = ucast v" using Suc.prems by (simp add: nth_put_le_other)
  moreover have "get_le n (put_le (Suc n) d off v) (Suc off) = take_bit (8 * n) (drop_bit 8 v)"
    using Suc.IH [of "Suc off" "d[off := ucast v]" "drop_bit 8 v"] Suc.prems by simp
  ultimately have "get_le (Suc n) (put_le (Suc n) d off v) off = ucast (ucast v :: uchar) OR push_bit 8 (take_bit (8 * n) (drop_bit 8 v))"
    by simp
  also have "\<dots> = take_bit (8 * Suc n) v"
    by (rule bit_word_eqI) (auto simp: bit_simps)
  finally show ?case .
qed simp

lemma get_put32: "off + 4 \<le> length d \<Longrightarrow> get32 (put32 d off v) off = v"
  using get_put_le_same [of off 4 d v] by (simp add: get32_def put32_def take_bit_word_eq_self)

lemma get_put16: "off + 2 \<le> length d \<Longrightarrow> get16 (put16 d off v) off = v"
  using get_put_le_same [of off 2 d v] by (simp add: get16_def put16_def take_bit_word_eq_self)

lemma length_put [simp]: "length (put32 d off v) = length d" "length (put16 d off w) = length d"
  by (simp_all add: put32_def put16_def)

lemma get_put_other:
  "off + 4 \<le> off' \<or> off' + 4 \<le> off \<Longrightarrow> get32 (put32 d off v) off' = get32 d off'"
  "off + 4 \<le> off' \<or> off' + 2 \<le> off \<Longrightarrow> get16 (put32 d off v) off' = get16 d off'"
  "off + 2 \<le> off' \<or> off' + 4 \<le> off \<Longrightarrow> get32 (put16 d off w) off' = get32 d off'"
  "off + 2 \<le> off' \<or> off' + 2 \<le> off \<Longrightarrow> get16 (put16 d off w) off' = get16 d off'"
  by (simp_all add: get32_def put32_def get16_def put16_def get_put_le_other)

end
