(* ===== verification/Log.thy ===== *)
theory Log
  imports Bio_Session Bytes
begin

text \<open>
  The write-ahead log of \<^verbatim>\<open>kernel/log.c\<close>. The in-memory header \<^verbatim>\<open>log.lh\<close> is the count
  \<open>lhn\<close> and the block numbers \<open>lhblock\<close>; on disk it is the block at \<open>lstart\<close>, followed by
  the log blocks. \<^verbatim>\<open>begin_op()\<close> and \<^verbatim>\<open>sys_sync()\<close> are \<open>Blocked\<close> where they sleep.
\<close>

section \<open>The routines\<close>

record log =
  lstart :: uint
  outstanding :: int
  committing :: bool
  ldev :: uint
  ncommit :: int
  lhn :: int
  lhblock :: "nat \<Rightarrow> uint"

record lstate = bstate +
  lg :: log

definition upd_log :: "(log \<Rightarrow> log) \<Rightarrow> 'a lstate_scheme \<Rightarrow> 'a lstate_scheme" where
  "upd_log f s = s\<lparr>lg := f (lg s)\<rparr>"

definition install_one :: "nat \<Rightarrow> bool \<Rightarrow> nat \<Rightarrow> 'a lstate_scheme \<Rightarrow> 'a lstate_scheme res" where
  "install_one p recovering tail s =
     bindR (bread p (ldev (lg s)) (lstart (lg s) + of_nat tail + 1) s) (\<lambda>(lbuf, s).
     bindR (bread p (ldev (lg s)) (lhblock (lg s) tail) s) (\<lambda>(dbuf, s).
     bindR (bwrite p dbuf (set_bdata dbuf (bdata (bufs s lbuf)) s)) (\<lambda>s.
     let s = (if recovering then s else bunpin dbuf s) in
     bindR (brelse p lbuf s) (brelse p dbuf))))"

definition install_trans :: "nat \<Rightarrow> bool \<Rightarrow> 'a lstate_scheme \<Rightarrow> 'a lstate_scheme res" where
  "install_trans p recovering s = foldR (install_one p recovering) [0..<nat (lhn (lg s))] s"

definition read_head :: "nat \<Rightarrow> 'a lstate_scheme \<Rightarrow> 'a lstate_scheme res" where
  "read_head p s =
     bindR (bread p (ldev (lg s)) (lstart (lg s)) s) (\<lambda>(b, s).
     let h0 = bdata (bufs s b); n = sint (get32 h0 0) in
     brelse p b (upd_log (\<lambda>l. l\<lparr>lhn := n, lhblock := (\<lambda>i. if i < nat n then get32 h0 (4 + 4 * i) else lhblock l i)\<rparr>) s))"

definition put_head :: "log \<Rightarrow> block \<Rightarrow> block" where
  "put_head l d = fold (\<lambda>i d. put32 d (4 + 4 * i) (lhblock l i)) [0..<nat (lhn l)] (put32 d 0 (word_of_int (lhn l)))"

definition write_head :: "nat \<Rightarrow> 'a lstate_scheme \<Rightarrow> 'a lstate_scheme res" where
  "write_head p s =
     bindR (bread p (ldev (lg s)) (lstart (lg s)) s) (\<lambda>(b, s).
     bindR (bwrite p b (set_bdata b (put_head (lg s) (bdata (bufs s b))) s)) (\<lambda>s.
     brelse p b s))"

definition recover_from_log :: "nat \<Rightarrow> 'a lstate_scheme \<Rightarrow> 'a lstate_scheme res" where
  "recover_from_log p s =
     bindR (read_head p s) (\<lambda>s.
     bindR (install_trans p True s) (\<lambda>s.
     write_head p (upd_log (\<lambda>l. l\<lparr>lhn := 0\<rparr>) s)))"

definition initlog :: "nat \<Rightarrow> uint \<Rightarrow> uint \<Rightarrow> 'a lstate_scheme \<Rightarrow> 'a lstate_scheme res" where
  "initlog p dev logstart s =
     (if 4 + 4 * LOGBLOCKS \<ge> BSIZE then Panic ''initlog: too big logheader''
      else recover_from_log p (upd_log (\<lambda>l. l\<lparr>lstart := logstart, ldev := dev\<rparr>) s))"

definition begin_op :: "'a lstate_scheme \<Rightarrow> 'a lstate_scheme res" where
  "begin_op s =
     (if committing (lg s) then Blocked ''begin_op''
      else if lhn (lg s) + (outstanding (lg s) + 1) * int MAXOPBLOCKS > int LOGBLOCKS then Blocked ''begin_op''
      else Ok (upd_log (\<lambda>l. l\<lparr>outstanding := outstanding l + 1\<rparr>) s))"

definition write_log_one :: "nat \<Rightarrow> nat \<Rightarrow> 'a lstate_scheme \<Rightarrow> 'a lstate_scheme res" where
  "write_log_one p tail s =
     bindR (bread p (ldev (lg s)) (lstart (lg s) + of_nat tail + 1) s) (\<lambda>(to, s).
     bindR (bread p (ldev (lg s)) (lhblock (lg s) tail) s) (\<lambda>(frm, s).
     bindR (bwrite p to (set_bdata to (bdata (bufs s frm)) s)) (\<lambda>s.
     bindR (brelse p frm s) (brelse p to))))"

definition write_log :: "nat \<Rightarrow> 'a lstate_scheme \<Rightarrow> 'a lstate_scheme res" where
  "write_log p s = foldR (write_log_one p) [0..<nat (lhn (lg s))] s"

definition commit :: "nat \<Rightarrow> 'a lstate_scheme \<Rightarrow> 'a lstate_scheme res" where
  "commit p s =
     (if lhn (lg s) > 0
      then bindR (write_log p s) (\<lambda>s.
           bindR (write_head p s) (\<lambda>s.
           bindR (install_trans p False s) (\<lambda>s.
           write_head p (upd_log (\<lambda>l. l\<lparr>lhn := 0\<rparr>) s))))
      else Ok s)"

definition end_op :: "nat \<Rightarrow> 'a lstate_scheme \<Rightarrow> 'a lstate_scheme res" where
  "end_op p s =
     (let s = upd_log (\<lambda>l. l\<lparr>outstanding := outstanding l - 1\<rparr>) s in
      if committing (lg s) then Panic ''log.committing''
      else if outstanding (lg s) = 0
      then bindR (commit p (upd_log (\<lambda>l. l\<lparr>committing := True\<rparr>) s)) (\<lambda>s.
           Ok (wakeup (Some p) ChanLog (upd_log (\<lambda>l. l\<lparr>committing := False, ncommit := ncommit l + 1\<rparr>) s)))
      else Ok (wakeup (Some p) ChanLog s))"

definition log_write :: "nat \<Rightarrow> 'a lstate_scheme \<Rightarrow> 'a lstate_scheme res" where
  "log_write b s =
     (let n = lhn (lg s); bno = blockno (bufs s b) in
      if n \<ge> int LOGBLOCKS then Panic ''too big a transaction''
      else if outstanding (lg s) < 1 then Panic ''log_write outside of trans''
      else let i = (case find (\<lambda>i. lhblock (lg s) i = bno) [0..<nat n] of Some i \<Rightarrow> i | None \<Rightarrow> nat n);
               s = upd_log (\<lambda>l. l\<lparr>lhblock := (lhblock l)(i := bno)\<rparr>) s
           in if int i = n then Ok (upd_log (\<lambda>l. l\<lparr>lhn := lhn l + 1\<rparr>) (bpin b s)) else Ok s)"

definition sys_sync :: "'a lstate_scheme \<Rightarrow> 'a lstate_scheme res" where
  "sys_sync s = (if committing (lg s) \<or> outstanding (lg s) > 0 then Blocked ''sys_sync'' else Ok s)"

section \<open>One block at a time\<close>

lemma io_only_lg: "io_only s s' \<Longrightarrow> lg s' = lg s"
proof -
  assume "io_only s s'"
  then obtain P B L D T where "s' = s\<lparr>procs := P, bufs := B, lru := L, disk := D, dtrace := T\<rparr>"
    unfolding io_only_def by blast
  then show "lg s' = lg s" by simp
qed

lemma install_one_spec:
  assumes h: "held p P {} s" and room: "card (pinned P) + 1 < NBUF" and dev: "ldev (lg s) = ROOTDEV"
    and ab: "a = lstart (lg s) + of_nat t + 1" "b = lhblock (lg s) t" "a \<noteq> b" and pin: "\<not> recovering \<Longrightarrow> 1 \<le> P b"
  obtains s' where "install_one p recovering t s = Ok s'" "held p (if recovering then P else P(b := P b - 1)) {} s'"
    "lblk s' = (lblk s)(b := lblk s a)" "disk s' = (disk s)(b := lblk s a)" "dtrace s' = dtrace s @ [(b, lblk s a)]" "io_only s s'"
proof -
  obtain i s1 where 1: "bread p ROOTDEV a s = Ok (i, s1)" "cached s1 a i" "bdata (bufs s1 i) = lblk s a" "held p P {a} s1"
    "lblk s1 = lblk s" "disk s1 = disk s" "dtrace s1 = dtrace s" "io_only s s1" "P a = 0 \<Longrightarrow> lblk s a = disk s a"
    by (rule held_bread [OF h, of a]) (use room in auto)
  obtain j s2 where 2: "bread p ROOTDEV b s1 = Ok (j, s2)" "cached s2 b j" "held p P {b, a} s2"
    "lblk s2 = lblk s1" "disk s2 = disk s1" "dtrace s2 = dtrace s1" "io_only s1 s2" "cached s2 a i"
    by (rule held_bread [OF 1(4), of b]) (use room ab(3) 1(2) in auto)
  have lb: "bdata (bufs s2 i) = lblk s a" using held_refcnt(4) [OF 2(3) _ 2(8)] 2(4) 1(5) by simp
  note 3 = held_set [OF 2(3) _ 2(2), of "lblk s a", simplified]
  let ?s3 = "set_bdata j (lblk s a) s2"
  obtain s4 where 4: "bwrite p j ?s3 = Ok s4" "held p P {b, a} s4" "lblk s4 = lblk ?s3" "io_only ?s3 s4"
    "\<And>b' j'. cached s4 b' j' = cached ?s3 b' j'" "disk s4 = (disk ?s3)(b := lblk ?s3 b)" "dtrace s4 = dtrace ?s3 @ [(b, lblk ?s3 b)]"
    by (rule held_bwrite [OF 3(1), of b j]) (use 2(2) 3(4) in auto)
  define s5 where "s5 = (if recovering then s4 else bunpin j s4)"
  define P' where "P' = (if recovering then P else P(b := P b - 1))"
  have 5: "held p P' {b, a} s5" "lblk s5 = lblk s4" "io_only s4 s5" "\<And>b' j'. cached s5 b' j' = cached s4 b' j'"
    "disk s5 = disk s4" "dtrace s5 = dtrace s4"
    using held_pin [OF 4(2), of b j "-1"] pin 4(2,5) 3(4) 2(2) by (auto simp: s5_def P'_def bunpin_def upd_buf_def)
  have l5: "lblk s5 = (lblk s)(b := lblk s a)" "disk s5 = (disk s)(b := lblk s a)" "dtrace s5 = dtrace s @ [(b, lblk s a)]"
    using 5(2,5,6) 4(3,6,7) 3(2,5,6) 2(4-6) 1(5-7) by auto
  have ca: "cached s5 a i" "cached s5 b j" using 5(4) 4(5) 3(4) 2(2,8) by auto
  obtain s6 where 6: "brelse p i s5 = Ok s6" "held p P' {b} s6" "lblk s6 = lblk s5" "io_only s5 s6"
    "\<And>b' j. cached s6 b' j = cached s5 b' j" "disk s6 = disk s5" "dtrace s6 = dtrace s5"
  proof (rule held_brelse [OF 5(1) _ ca(1)])
    show "lblk s5 a = disk s5 a" if "P' a = 0" using that 1(9) ab(3) by (auto simp: l5 P'_def split: if_splits)
  qed (use ab(3) in \<open>auto simp: insert_Diff_if\<close>)
  obtain s7 where 7: "brelse p j s6 = Ok s7" "held p P' {} s7" "lblk s7 = lblk s6" "io_only s6 s7" "disk s7 = disk s6" "dtrace s7 = dtrace s6"
    by (rule held_brelse [OF 6(2), of b j]) (use ca(2) 6(3,5,6) l5 in auto)
  have io: "io_only s s7"
    using 1(8) 2(7) 3(3) 4(4) 5(3) 6(4) 7(4) by (blast intro: io_only_trans)
  have "install_one p recovering t s = Ok s7"
    using 1(1) 2(1) 4(1) 6(1) 7(1) io_only_lg [OF 1(8)] lb dev ab(1,2) by (simp add: install_one_def s5_def)
  then show ?thesis using that [OF _ 7(2) [unfolded P'_def] _ _ _ io] 7(3,5,6) 6(3,6,7) l5 by simp
qed

lemma write_log_one_spec:
  assumes h: "held p P {} s" and room: "card (pinned P) + 1 < NBUF" and dev: "ldev (lg s) = ROOTDEV"
    and ab: "a = lstart (lg s) + of_nat t + 1" "b = lhblock (lg s) t" "a \<noteq> b"
  obtains s' where "write_log_one p t s = Ok s'" "held p P {} s'"
    "lblk s' = (lblk s)(a := lblk s b)" "disk s' = (disk s)(a := lblk s b)" "dtrace s' = dtrace s @ [(a, lblk s b)]" "io_only s s'"
proof -
  obtain i s1 where 1: "bread p ROOTDEV a s = Ok (i, s1)" "cached s1 a i" "held p P {a} s1"
    "lblk s1 = lblk s" "disk s1 = disk s" "dtrace s1 = dtrace s" "io_only s s1"
    by (rule held_bread [OF h, of a]) (use room in auto)
  obtain j s2 where 2: "bread p ROOTDEV b s1 = Ok (j, s2)" "cached s2 b j" "bdata (bufs s2 j) = lblk s1 b" "held p P {b, a} s2"
    "lblk s2 = lblk s1" "disk s2 = disk s1" "dtrace s2 = dtrace s1" "io_only s1 s2" "cached s2 a i" "P b = 0 \<Longrightarrow> lblk s1 b = disk s1 b"
    by (rule held_bread [OF 1(3), of b]) (use room ab(3) 1(2) in auto)
  note 3 = held_set [OF 2(4) _ 2(9), of "lblk s b", simplified]
  let ?s3 = "set_bdata i (lblk s b) s2"
  obtain s4 where 4: "bwrite p i ?s3 = Ok s4" "held p P {b, a} s4" "lblk s4 = lblk ?s3" "io_only ?s3 s4"
    "\<And>b' j'. cached s4 b' j' = cached ?s3 b' j'" "disk s4 = (disk ?s3)(a := lblk ?s3 a)" "dtrace s4 = dtrace ?s3 @ [(a, lblk ?s3 a)]"
    by (rule held_bwrite [OF 3(1), of a i]) (use 2(9) 3(4) in auto)
  have l4: "lblk s4 = (lblk s)(a := lblk s b)" "disk s4 = (disk s)(a := lblk s b)" "dtrace s4 = dtrace s @ [(a, lblk s b)]"
    using 4(3,6,7) 3(2,5,6) 2(5-7) 1(4-6) by auto
  have ca: "cached s4 a i" "cached s4 b j" using 4(5) 3(4) 2(2,9) by auto
  obtain s6 where 6: "brelse p j s4 = Ok s6" "held p P {a} s6" "lblk s6 = lblk s4" "io_only s4 s6"
    "\<And>b' j. cached s6 b' j = cached s4 b' j" "disk s6 = disk s4" "dtrace s6 = dtrace s4"
  proof (rule held_brelse [OF 4(2) _ ca(2)])
    show "lblk s4 b = disk s4 b" if "P b = 0" using that 2(10) 1(4,5) ab(3) by (simp add: l4)
  qed (use ab(3) in \<open>auto simp: insert_Diff_if\<close>)
  obtain s7 where 7: "brelse p i s6 = Ok s7" "held p P {} s7" "lblk s7 = lblk s6" "io_only s6 s7" "disk s7 = disk s6" "dtrace s7 = dtrace s6"
    by (rule held_brelse [OF 6(2), of a i]) (use ca(1) 6(3,5,6) l4 in auto)
  have io: "io_only s s7" using 1(7) 2(8) 3(3) 4(4) 6(4) 7(4) by (blast intro: io_only_trans)
  have "write_log_one p t s = Ok s7"
    using 1(1) 2(1,3) 4(1) 6(1) 7(1) 1(4) io_only_lg [OF 1(7)] dev ab(1,2) by (simp add: write_log_one_def)
  then show ?thesis using that [OF _ 7(2) _ _ _ io] 7(3,5,6) 6(3,6,7) l4 by simp
qed

end
