(* ===== verification/Log_Crash.thy ===== *)
theory Log_Crash
  imports Log
begin

text \<open>
  Crash safety of the log. The disk after a crash is the disk before, with a prefix of the
  recorded writes applied. \<open>rec_view\<close> is what \<^verbatim>\<open>recover_from_log()\<close> turns a disk into. The
  theorems say that recovery computes it, that it does not change when recovery itself
  is interrupted, and that a commit moves it from the old contents to the new ones in the
  single write of the header.
\<close>

section \<open>Disks, writes and the log area\<close>

definition apply_writes :: "(uint \<times> block) list \<Rightarrow> (uint \<Rightarrow> block) \<Rightarrow> uint \<Rightarrow> block" where
  "apply_writes ws d = fold (\<lambda>(b, x) d. d(b := x)) ws d"

definition log_area :: "uint \<Rightarrow> uint set" where
  "log_area st = {b. unat (b - st) \<le> LOGBLOCKS}"

definition hdr_n :: "uint \<Rightarrow> (uint \<Rightarrow> block) \<Rightarrow> nat" where
  "hdr_n st d = nat (sint (get32 (d st) 0))"

definition hdr_block :: "uint \<Rightarrow> (uint \<Rightarrow> block) \<Rightarrow> nat \<Rightarrow> uint" where
  "hdr_block st d i = get32 (d st) (4 + 4 * i)"

definition rec_view :: "uint \<Rightarrow> (uint \<Rightarrow> block) \<Rightarrow> uint \<Rightarrow> block" where
  "rec_view st d = fold (\<lambda>i v. v(hdr_block st d i := d (st + of_nat i + 1))) [0..<hdr_n st d] d"

definition log_wf :: "uint \<Rightarrow> (uint \<Rightarrow> block) \<Rightarrow> bool" where
  "log_wf st d \<longleftrightarrow> length (d st) = BSIZE \<and> hdr_n st d \<le> LOGBLOCKS \<and> (\<forall>i<hdr_n st d. hdr_block st d i \<notin> log_area st)"

lemma apply_writes_simps [simp]:
  "apply_writes [] d = d" "apply_writes ((b, x) # ws) d = apply_writes ws (d(b := x))"
  "apply_writes (ws @ vs) d = apply_writes vs (apply_writes ws d)"
  by (simp_all add: apply_writes_def)

lemma apply_writes_other: "b \<notin> fst ` set ws \<Longrightarrow> apply_writes ws d b = d b"
  by (induction ws arbitrary: d) auto

lemma log_block_area:
  assumes "i < LOGBLOCKS"
  shows "st + of_nat i + 1 \<in> log_area st" "st + of_nat i + 1 \<noteq> st"
proof -
  have "unat (of_nat (Suc i) :: uint) = Suc i" using assms by (simp add: unat_of_nat del: of_nat_Suc)
  then have u: "unat (st + of_nat i + 1 - st) = Suc i" by (simp add: algebra_simps)
  then show "st + of_nat i + 1 \<in> log_area st" using assms by (simp add: log_area_def)
  show "st + of_nat i + 1 \<noteq> st"
  proof
    assume "st + of_nat i + 1 = st"
    then show False using u by simp
  qed
qed

lemma st_area [simp]: "st \<in> log_area st"
  by (simp add: log_area_def)

lemma log_block_inj:
  assumes "i < LOGBLOCKS" and "j < LOGBLOCKS" and "st + of_nat i + 1 = st + of_nat j + (1 :: uint)"
  shows "i = j"
proof -
  have "of_nat i = (of_nat j :: uint)" using assms(3) by simp
  then show ?thesis using assms(1,2) by (simp add: word_unat_eq_iff unat_of_nat)
qed

lemma fold_upd_cong:
  "b \<in> B ` set xs \<or> v b = w b \<Longrightarrow> fold (\<lambda>i v. v(B i := D i)) xs v b = fold (\<lambda>i v. v(B i := D i)) xs w b"
  by (induction xs arbitrary: v w) auto

lemma fold_upd_other: "b \<notin> B ` set xs \<Longrightarrow> fold (\<lambda>i v. v(B i := D i)) xs v b = v b"
  by (induction xs arbitrary: v) auto

lemma fold_upd_inj:
  "inj_on B (set xs) \<Longrightarrow> distinct xs \<Longrightarrow> i \<in> set xs \<Longrightarrow> fold (\<lambda>i v. v(B i := D i)) xs v (B i) = D i"
proof (induction xs arbitrary: v)
  case (Cons x xs)
  show ?case
  proof (cases "i \<in> set xs")
    case True
    then show ?thesis using Cons by (simp add: inj_on_def)
  next
    case False
    then have "B i \<notin> B ` set xs" using Cons.prems by (auto simp: inj_on_def)
    then show ?thesis using False Cons.prems(3) fold_upd_other [of "B i" B xs D "v(B x := D x)"] by (simp del: fun_upd_apply add: fun_upd_same)
  qed
qed simp

lemma apply_writes_map: "apply_writes (map (\<lambda>i. (B i, D i)) xs) d = fold (\<lambda>i v. v(B i := D i)) xs d"
  by (induction xs arbitrary: d) auto

text \<open>Recovery sees the same when only blocks it would overwrite have changed.\<close>

lemma rec_view_agree:
  assumes area: "\<And>b. b \<in> log_area st \<Longrightarrow> d' b = d b" and n: "hdr_n st d \<le> LOGBLOCKS"
    and out: "b \<in> hdr_block st d ` {..<hdr_n st d} \<or> d' b = d b"
  shows "rec_view st d' b = rec_view st d b"
proof -
  have st: "d' st = d st" by (rule area) simp
  have h: "hdr_n st d' = hdr_n st d" "hdr_block st d' i = hdr_block st d i" for i by (simp_all add: hdr_n_def hdr_block_def st)
  have D: "d' (st + of_nat i + 1) = d (st + of_nat i + 1)" if "i < hdr_n st d" for i
    by (rule area [OF log_block_area(1)]) (use that n in simp)
  have "rec_view st d' = fold (\<lambda>i v. v(hdr_block st d i := d (st + of_nat i + 1))) [0..<hdr_n st d] d'"
    unfolding rec_view_def h by (rule fold_cong) (simp_all add: D)
  then have "rec_view st d' b = fold (\<lambda>i v. v(hdr_block st d i := d (st + of_nat i + 1))) [0..<hdr_n st d] d' b" by simp
  also have "\<dots> = rec_view st d b"
    unfolding rec_view_def by (rule fold_upd_cong) (use out in auto)
  finally show ?thesis .
qed

lemma rec_view_empty: "hdr_n st d = 0 \<Longrightarrow> rec_view st d = d"
  by (simp add: rec_view_def)

section \<open>The header block\<close>

lemma length_put_head [simp]: "length (put_head l d) = length d"
proof -
  have "length (fold (\<lambda>i d. put32 d (4 + 4 * i) (lhblock l i)) xs d) = length d" for xs d
    by (induction xs arbitrary: d) auto
  then show ?thesis by (simp add: put_head_def)
qed

lemma fold_put_other:
  "(\<And>i. i \<in> set xs \<Longrightarrow> off + 4 \<le> 4 + 4 * i \<or> 4 + 4 * i + 4 \<le> off) \<Longrightarrow>
   get32 (fold (\<lambda>i d. put32 d (4 + 4 * i) (B i)) xs d) off = get32 d off"
proof (induction xs arbitrary: d)
  case (Cons x xs)
  have "get32 (put32 d (4 + 4 * x) (B x)) off = get32 d off" by (rule get_put_other(1)) (use Cons.prems [of x] in auto)
  then show ?case using Cons by simp
qed simp

lemma put_head_n:
  assumes "4 \<le> length d"
  shows "get32 (put_head l d) 0 = word_of_int (lhn l)"
  unfolding put_head_def by (subst fold_put_other) (use assms in \<open>auto simp: get_put32\<close>)

lemma put_head_block:
  assumes "i < nat (lhn l)" and "4 + 4 * nat (lhn l) \<le> length d"
  shows "get32 (put_head l d) (4 + 4 * i) = lhblock l i"
proof -
  define n where "n = nat (lhn l)"
  have up: "[0..<n] = [0..<i] @ i # [Suc i..<n]" using assms(1) upt_add_eq_append [of 0 i "n - i"] by (simp add: n_def upt_conv_Cons)
  define e where "e = fold (\<lambda>i d. put32 d (4 + 4 * i) (lhblock l i)) [0..<i] (put32 d 0 (word_of_int (lhn l)))"
  have "length (fold (\<lambda>i d. put32 d (4 + 4 * i) (lhblock l i)) xs d) = length d" for xs d
    by (induction xs arbitrary: d) auto
  then have len: "length e = length d" by (simp add: e_def)
  have "put_head l d = fold (\<lambda>i d. put32 d (4 + 4 * i) (lhblock l i)) [Suc i..<n] (put32 e (4 + 4 * i) (lhblock l i))"
    unfolding put_head_def n_def [symmetric] up by (simp add: e_def)
  then have "get32 (put_head l d) (4 + 4 * i) = get32 (put32 e (4 + 4 * i) (lhblock l i)) (4 + 4 * i)"
    by (simp only:) (rule fold_put_other, auto)
  also have "\<dots> = lhblock l i" by (rule get_put32) (use assms len in auto)
  finally show ?thesis .
qed

section \<open>The loops\<close>

lemma held_upd_log [simp]:
  "bufs (upd_log f s) = bufs s" "disk (upd_log f s) = disk s" "dtrace (upd_log f s) = dtrace s" "lg (upd_log f s) = f (lg s)"
  "lblk (upd_log f s) = lblk s" "cached (upd_log f s) b i = cached s b i" "held p P H (upd_log f s) = held p P H s"
proof -
  have lb: "lblk (upd_log f s) b = lblk s b" for b unfolding lblk_def upd_log_def by (simp split: option.split)
  have c: "cached (upd_log f s) b i = cached s b i" for b i by (simp add: cached_def upd_log_def)
  have B: "bio_inv (upd_log f s) = bio_inv s" unfolding bio_inv_def c by (simp add: upd_log_def)
  show "held p P H (upd_log f s) = held p P H s" unfolding held_def c B by (simp add: upd_log_def mypid_def)
  show "lblk (upd_log f s) = lblk s" using lb by (rule ext)
  show "cached (upd_log f s) b i = cached s b i" by (rule c)
qed (simp_all add: upd_log_def)

lemma pinned_mono: "(\<And>b. P' b \<le> P b) \<Longrightarrow> card (pinned P') \<le> card (pinned P)"
  by (rule card_mono) (auto simp: pinned_def intro: less_le_trans)

lemma install_loop:
  assumes "held p P {} s" and "card (pinned P) + 1 < NBUF" and "ldev (lg s) = ROOTDEV" and "lstart (lg s) = st"
    and "distinct xs" and "\<not> recovering \<Longrightarrow> inj_on (lhblock (lg s)) (set xs)" and "\<And>i. i \<in> set xs \<Longrightarrow> i < LOGBLOCKS \<and> lhblock (lg s) i \<notin> log_area st"
    and "\<And>i. i \<in> set xs \<Longrightarrow> \<not> recovering \<Longrightarrow> 1 \<le> P (lhblock (lg s) i)" and "\<And>i. i \<in> set xs \<Longrightarrow> D i = lblk s (st + of_nat i + 1)"
  shows "\<exists>s'. foldR (install_one p recovering) xs s = Ok s' \<and> io_only s s' \<and>
    held p (\<lambda>b. if \<not> recovering \<and> b \<in> lhblock (lg s) ` set xs then P b - 1 else P b) {} s' \<and>
    lblk s' = fold (\<lambda>i v. v(lhblock (lg s) i := D i)) xs (lblk s) \<and>
    disk s' = fold (\<lambda>i v. v(lhblock (lg s) i := D i)) xs (disk s) \<and>
    dtrace s' = dtrace s @ map (\<lambda>i. (lhblock (lg s) i, D i)) xs"
  using assms
proof (induction xs arbitrary: s P)
  case (Cons t xs)
  let ?B = "lhblock (lg s)" and ?a = "st + of_nat t + 1"
  have t: "t < LOGBLOCKS" "?B t \<notin> log_area st" using Cons.prems(7) [of t] by auto
  then have ne: "?a \<noteq> ?B t" using log_block_area(1) [of t st] by metis
  obtain s1 where 1: "install_one p recovering t s = Ok s1" "held p (if recovering then P else P(?B t := P (?B t) - 1)) {} s1"
    "lblk s1 = (lblk s)(?B t := lblk s ?a)" "disk s1 = (disk s)(?B t := lblk s ?a)" "dtrace s1 = dtrace s @ [(?B t, lblk s ?a)]" "io_only s s1"
    by (rule install_one_spec [OF Cons.prems(1-3), of ?a t "?B t" recovering]) (use Cons.prems(4,8) ne in auto)
  have lg: "lg s1 = lg s" by (rule io_only_lg [OF 1(6)])
  define P1 where "P1 = (if recovering then P else P(?B t := P (?B t) - 1))"
  have Dt: "D t = lblk s ?a" using Cons.prems(9) by simp
  have "\<exists>s'. foldR (install_one p recovering) xs s1 = Ok s' \<and> io_only s1 s' \<and>
    held p (\<lambda>b. if \<not> recovering \<and> b \<in> lhblock (lg s1) ` set xs then P1 b - 1 else P1 b) {} s' \<and>
    lblk s' = fold (\<lambda>i v. v(lhblock (lg s1) i := D i)) xs (lblk s1) \<and>
    disk s' = fold (\<lambda>i v. v(lhblock (lg s1) i := D i)) xs (disk s1) \<and>
    dtrace s' = dtrace s1 @ map (\<lambda>i. (lhblock (lg s1) i, D i)) xs"
  proof (rule Cons.IH)
    show "held p P1 {} s1" using 1(2) by (simp add: P1_def)
    have "card (pinned P1) \<le> card (pinned P)" by (rule pinned_mono) (simp add: P1_def)
    then show "card (pinned P1) + 1 < NBUF" using Cons.prems(2) by simp
    show "inj_on (lhblock (lg s1)) (set xs)" if "\<not> recovering" using Cons.prems(6) [OF that] by (simp add: lg)
    show "1 \<le> P1 (lhblock (lg s1) i)" if "i \<in> set xs" "\<not> recovering" for i
      using that Cons.prems(5,6,8) by (auto simp: lg P1_def inj_on_def)
    show "D i = lblk s1 (st + of_nat i + 1)" if "i \<in> set xs" for i
      using that Cons.prems(9) [of i] Cons.prems(7) [of i] t(2) log_block_area(1) [of i st] by (auto simp: 1(3))
  qed (use Cons.prems lg in auto)
  then obtain s2 where 2: "foldR (install_one p recovering) xs s1 = Ok s2" "io_only s1 s2"
    "held p (\<lambda>b. if \<not> recovering \<and> b \<in> ?B ` set xs then P1 b - 1 else P1 b) {} s2"
    "lblk s2 = fold (\<lambda>i v. v(?B i := D i)) xs (lblk s1)" "disk s2 = fold (\<lambda>i v. v(?B i := D i)) xs (disk s1)"
    "dtrace s2 = dtrace s1 @ map (\<lambda>i. (?B i, D i)) xs" unfolding lg by blast
  have "(\<lambda>b. if \<not> recovering \<and> b \<in> ?B ` set xs then P1 b - 1 else P1 b) = (\<lambda>b. if \<not> recovering \<and> b \<in> ?B ` set (t # xs) then P b - 1 else P b)"
    using Cons.prems(5,6) by (auto simp: P1_def fun_eq_iff inj_on_def)
  then have "held p (\<lambda>b. if \<not> recovering \<and> b \<in> ?B ` set (t # xs) then P b - 1 else P b) {} s2" using 2(3) by simp
  moreover have "foldR (install_one p recovering) (t # xs) s = Ok s2" using 1(1) 2(1) by simp
  moreover have "lblk s2 = fold (\<lambda>i v. v(?B i := D i)) (t # xs) (lblk s)" "disk s2 = fold (\<lambda>i v. v(?B i := D i)) (t # xs) (disk s)"
    "dtrace s2 = dtrace s @ map (\<lambda>i. (?B i, D i)) (t # xs)"
    using 1(3-5) 2(4-6) Dt by (simp_all del: fun_upd_apply)
  ultimately show ?case using io_only_trans [OF 1(6) 2(2)] by blast
qed simp

lemma write_log_loop:
  assumes "held p P {} s" and "card (pinned P) + 1 < NBUF" and "ldev (lg s) = ROOTDEV" and "lstart (lg s) = st"
    and "distinct xs" and "\<And>i. i \<in> set xs \<Longrightarrow> i < LOGBLOCKS \<and> lhblock (lg s) i \<notin> log_area st"
    and "\<And>i. i \<in> set xs \<Longrightarrow> D i = lblk s (lhblock (lg s) i)"
  shows "\<exists>s'. foldR (write_log_one p) xs s = Ok s' \<and> io_only s s' \<and> held p P {} s' \<and>
    lblk s' = fold (\<lambda>i v. v(st + of_nat i + 1 := D i)) xs (lblk s) \<and>
    disk s' = fold (\<lambda>i v. v(st + of_nat i + 1 := D i)) xs (disk s) \<and>
    dtrace s' = dtrace s @ map (\<lambda>i. (st + of_nat i + 1, D i)) xs"
  using assms
proof (induction xs arbitrary: s)
  case (Cons t xs)
  let ?B = "lhblock (lg s)" and ?a = "st + of_nat t + 1"
  have t: "t < LOGBLOCKS" "?B t \<notin> log_area st" using Cons.prems(6) [of t] by auto
  then have ne: "?a \<noteq> ?B t" using log_block_area(1) [of t st] by metis
  obtain s1 where 1: "write_log_one p t s = Ok s1" "held p P {} s1"
    "lblk s1 = (lblk s)(?a := lblk s (?B t))" "disk s1 = (disk s)(?a := lblk s (?B t))" "dtrace s1 = dtrace s @ [(?a, lblk s (?B t))]" "io_only s s1"
    by (rule write_log_one_spec [OF Cons.prems(1-3), of ?a t "?B t"]) (use Cons.prems(4) ne in auto)
  have lg: "lg s1 = lg s" by (rule io_only_lg [OF 1(6)])
  have Dt: "D t = lblk s (?B t)" using Cons.prems(7) by simp
  have "\<exists>s'. foldR (write_log_one p) xs s1 = Ok s' \<and> io_only s1 s' \<and> held p P {} s' \<and>
    lblk s' = fold (\<lambda>i v. v(st + of_nat i + 1 := D i)) xs (lblk s1) \<and>
    disk s' = fold (\<lambda>i v. v(st + of_nat i + 1 := D i)) xs (disk s1) \<and>
    dtrace s' = dtrace s1 @ map (\<lambda>i. (st + of_nat i + 1, D i)) xs"
  proof (rule Cons.IH)
    show "D i = lblk s1 (lhblock (lg s1) i)" if "i \<in> set xs" for i
      using that Cons.prems(7) [of i] Cons.prems(6) [of i] log_block_area(1) [OF t(1), of st] by (auto simp: 1(3) lg)
  qed (use Cons.prems lg 1(2) in auto)
  then obtain s2 where 2: "foldR (write_log_one p) xs s1 = Ok s2" "io_only s1 s2" "held p P {} s2"
    "lblk s2 = fold (\<lambda>i v. v(st + of_nat i + 1 := D i)) xs (lblk s1)" "disk s2 = fold (\<lambda>i v. v(st + of_nat i + 1 := D i)) xs (disk s1)"
    "dtrace s2 = dtrace s1 @ map (\<lambda>i. (st + of_nat i + 1, D i)) xs" by blast
  moreover have "foldR (write_log_one p) (t # xs) s = Ok s2" using 1(1) 2(1) by simp
  moreover have "lblk s2 = fold (\<lambda>i v. v(st + of_nat i + 1 := D i)) (t # xs) (lblk s)"
    "disk s2 = fold (\<lambda>i v. v(st + of_nat i + 1 := D i)) (t # xs) (disk s)"
    "dtrace s2 = dtrace s @ map (\<lambda>i. (st + of_nat i + 1, D i)) (t # xs)"
    using 1(3-5) 2(4-6) Dt by (simp_all del: fun_upd_apply)
  ultimately show ?case using io_only_trans [OF 1(6) 2(2)] by blast
qed simp

lemma write_head_spec:
  assumes h: "held p P {} s" and room: "card (pinned P) < NBUF" and dev: "ldev (lg s) = ROOTDEV" "lstart (lg s) = st"
    and e: "e = put_head (lg s) (lblk s st)"
  obtains s' where "write_head p s = Ok s'" "held p P {} s'" "lblk s' = (lblk s)(st := e)" "disk s' = (disk s)(st := e)"
    "dtrace s' = dtrace s @ [(st, e)]" "io_only s s'"
proof -
  obtain i s1 where 1: "bread p ROOTDEV st s = Ok (i, s1)" "cached s1 st i" "bdata (bufs s1 i) = lblk s st" "held p P {st} s1"
    "lblk s1 = lblk s" "disk s1 = disk s" "dtrace s1 = dtrace s" "io_only s s1"
    by (rule held_bread [OF h, of st]) (use room in auto)
  note 3 = held_set [OF 1(4) _ 1(2), of e, simplified]
  let ?s3 = "set_bdata i e s1"
  obtain s4 where 4: "bwrite p i ?s3 = Ok s4" "held p P {st} s4" "lblk s4 = lblk ?s3" "io_only ?s3 s4"
    "\<And>b' j'. cached s4 b' j' = cached ?s3 b' j'" "disk s4 = (disk ?s3)(st := lblk ?s3 st)" "dtrace s4 = dtrace ?s3 @ [(st, lblk ?s3 st)]"
    by (rule held_bwrite [OF 3(1), of st i]) (use 1(2) 3(4) in auto)
  have l4: "lblk s4 = (lblk s)(st := e)" "disk s4 = (disk s)(st := e)" "dtrace s4 = dtrace s @ [(st, e)]"
    using 4(3,6,7) 3(2,5,6) 1(5-7) by auto
  obtain s7 where 7: "brelse p i s4 = Ok s7" "held p P {} s7" "lblk s7 = lblk s4" "io_only s4 s7" "disk s7 = disk s4" "dtrace s7 = dtrace s4"
    by (rule held_brelse [OF 4(2), of st i]) (use 4(5) 3(4) 1(2) l4 in auto)
  have io: "io_only s s7" using 1(8) 3(3) 4(4) 7(4) by (blast intro: io_only_trans)
  have "write_head p s = Ok s7"
    using 1(1,3) 4(1) 7(1) io_only_lg [OF 1(8)] dev e by (simp add: write_head_def)
  then show ?thesis using that [OF _ 7(2) _ _ _ io] 7(3,5,6) l4 by simp
qed

lemma read_head_spec:
  assumes h: "held p P {} s" and room: "card (pinned P) < NBUF" and dev: "ldev (lg s) = ROOTDEV" "lstart (lg s) = st"
    and n: "n = sint (get32 (lblk s st) 0)"
  obtains s' where "read_head p s = Ok s'" "held p P {} s'" "lblk s' = lblk s" "disk s' = disk s" "dtrace s' = dtrace s"
    "lg s' = (lg s)\<lparr>lhn := n, lhblock := (\<lambda>i. if i < nat n then get32 (lblk s st) (4 + 4 * i) else lhblock (lg s) i)\<rparr>"
proof -
  obtain i s1 where 1: "bread p ROOTDEV st s = Ok (i, s1)" "cached s1 st i" "bdata (bufs s1 i) = lblk s st" "held p P {st} s1"
    "lblk s1 = lblk s" "disk s1 = disk s" "dtrace s1 = dtrace s" "io_only s s1" "P st = 0 \<Longrightarrow> lblk s st = disk s st"
    by (rule held_bread [OF h, of st]) (use room in auto)
  let ?f = "\<lambda>l. l\<lparr>lhn := n, lhblock := (\<lambda>i. if i < nat n then get32 (lblk s st) (4 + 4 * i) else lhblock l i)\<rparr>"
  obtain s7 where 7: "brelse p i (upd_log ?f s1) = Ok s7" "held p P {} s7" "lblk s7 = lblk (upd_log ?f s1)" "io_only (upd_log ?f s1) s7"
    "disk s7 = disk (upd_log ?f s1)" "dtrace s7 = dtrace (upd_log ?f s1)"
    by (rule held_brelse [of p P "{st}" "upd_log ?f s1" st i]) (use 1 in auto)
  have lg7: "lg s7 = ?f (lg s)" using io_only_lg [OF 7(4)] io_only_lg [OF 1(8)] by (simp cong: if_cong)
  have "read_head p s = Ok s7"
    using 1(1,3) 7(1) io_only_lg [OF 1(8)] dev n by (simp add: read_head_def Let_def cong: if_cong)
  then show ?thesis by (rule that [OF _ 7(2) _ _ _ lg7]) (simp_all add: 7(3,5,6) 1(5-7))
qed

section \<open>Recovery\<close>

lemma held_clean:
  assumes h: "held p P H s" and b: "P b = 0" "b \<notin> H"
  shows "lblk s b = disk s b"
proof (cases "\<exists>i. cached s b i")
  case True
  then obtain i where c: "cached s b i" by blast
  have "refcnt (bufs s i) = 0" using heldD(3) [OF h c] b by simp
  then show ?thesis using lblk_hit [OF heldD(1) [OF h] c] bio_invD(6) [OF heldD(1) [OF h] c] by auto
next
  case False
  then show ?thesis using lblk_miss [OF heldD(1) [OF h]] by blast
qed

lemma pinned_zero [simp]: "pinned (\<lambda>_. 0) = {}"
  by (simp add: pinned_def)

text \<open>A crash while the blocks of a committed transaction are being installed.\<close>

lemma prefix_install:
  assumes wf: "log_wf st d" and W: "W = map (\<lambda>i. (hdr_block st d i, d (st + of_nat i + 1))) [0..<hdr_n st d]"
  shows "log_wf st (apply_writes (take k W) d)" "rec_view st (apply_writes (take k W) d) b = rec_view st d b"
    "b \<in> log_area st \<Longrightarrow> apply_writes (take k W) d b = d b"
proof -
  let ?d = "apply_writes (take k W) d"
  have out: "fst ` set (take k W) \<subseteq> hdr_block st d ` {..<hdr_n st d}" using set_take_subset [of k W] by (auto simp: W)
  have n: "hdr_n st d \<le> LOGBLOCKS" "hdr_block st d ` {..<hdr_n st d} \<inter> log_area st = {}" using wf by (auto simp: log_wf_def)
  show area: "?d b = d b" if "b \<in> log_area st" for b by (rule apply_writes_other) (use out n(2) that in blast)
  have st: "?d st = d st" by (rule area) simp
  then show "log_wf st ?d" using wf by (simp add: log_wf_def hdr_n_def hdr_block_def)
  show "rec_view st ?d b = rec_view st d b"
    by (rule rec_view_agree [OF area n(1)]) (use out apply_writes_other [of b "take k W" d] in blast)+
qed

lemma rec_view_apply: "apply_writes (map (\<lambda>i. (hdr_block st d i, d (st + of_nat i + 1))) [0..<hdr_n st d]) d = rec_view st d"
  by (simp add: apply_writes_map rec_view_def)

lemma cleared_header:
  assumes "length d = BSIZE"
  shows "sint (get32 (put_head (l\<lparr>lhn := 0\<rparr>) d) 0) = 0" "length (put_head (l\<lparr>lhn := 0\<rparr>) d) = BSIZE"
  using put_head_n [of d "l\<lparr>lhn := 0\<rparr>"] assms by simp_all

text \<open>A crash at any point of a sequence of writes that installs the blocks and then clears the header.\<close>

lemma prefix_clear:
  assumes wf: "log_wf st d" and W: "W = map (\<lambda>i. (hdr_block st d i, d (st + of_nat i + 1))) [0..<hdr_n st d] @ [(st, e)]"
    and e: "sint (get32 e 0) = 0" "length e = BSIZE"
  shows "log_wf st (apply_writes (take k W) d)" "b \<notin> log_area st \<Longrightarrow> rec_view st (apply_writes (take k W) d) b = rec_view st d b"
proof -
  let ?V = "map (\<lambda>i. (hdr_block st d i, d (st + of_nat i + 1))) [0..<hdr_n st d]"
  have "log_wf st (apply_writes (take k W) d) \<and> (b \<notin> log_area st \<longrightarrow> rec_view st (apply_writes (take k W) d) b = rec_view st d b)"
  proof (cases "k \<le> length ?V")
    case True
    then have "take k W = take k ?V" by (simp add: W)
    then show ?thesis using prefix_install [OF wf refl] by simp
  next
    case False
    then have "apply_writes (take k W) d = (rec_view st d)(st := e)" by (simp add: W rec_view_apply)
    moreover have "hdr_n st ((rec_view st d)(st := e)) = 0" using e(1) by (simp add: hdr_n_def)
    ultimately show ?thesis using e(2) by (auto simp: log_wf_def rec_view_empty)
  qed
  then show "log_wf st (apply_writes (take k W) d)" "b \<notin> log_area st \<Longrightarrow> rec_view st (apply_writes (take k W) d) b = rec_view st d b"
    by blast+
qed

lemma recover_spec:
  assumes h: "held p (\<lambda>_. 0) {} s" and l: "ldev (lg s) = ROOTDEV" "lstart (lg s) = st" and wf: "log_wf st (disk s)"
  obtains s' e where "recover_from_log p s = Ok s'" "held p (\<lambda>_. 0) {} s'" "lg s' = (lg s)\<lparr>lhn := 0, lhblock := lhblock (lg s')\<rparr>"
    "disk s' = (rec_view st (disk s))(st := e)" "sint (get32 e 0) = 0" "length e = BSIZE"
    "dtrace s' = dtrace s @ map (\<lambda>i. (hdr_block st (disk s) i, disk s (st + of_nat i + 1))) [0..<hdr_n st (disk s)] @ [(st, e)]"
proof -
  define d where "d = disk s"
  define n where "n = hdr_n st d"
  have ld: "lblk s = d" by (rule ext) (simp add: d_def held_clean [OF h])
  have len: "length (d st) = BSIZE" and n30: "n \<le> LOGBLOCKS" and area: "\<And>i. i < n \<Longrightarrow> hdr_block st d i \<notin> log_area st"
    using wf by (auto simp: log_wf_def d_def n_def)
  obtain s1 where 1: "read_head p s = Ok s1" "held p (\<lambda>_. 0) {} s1" "lblk s1 = d" "disk s1 = d" "dtrace s1 = dtrace s"
    and lg1: "lg s1 = (lg s)\<lparr>lhn := sint (get32 (d st) 0), lhblock := (\<lambda>i. if i < nat (sint (get32 (d st) 0)) then get32 (d st) (4 + 4 * i) else lhblock (lg s) i)\<rparr>"
    by (rule read_head_spec [OF h _ l refl, unfolded ld]) (simp, rule that, simp_all only: d_def)
  have n1: "nat (lhn (lg s1)) = n" "\<And>i. i < n \<Longrightarrow> lhblock (lg s1) i = hdr_block st d i"
    by (simp_all add: lg1 n_def hdr_n_def hdr_block_def)
  have "\<exists>s'. foldR (install_one p True) [0..<n] s1 = Ok s' \<and> io_only s1 s' \<and>
    held p (\<lambda>b. if \<not> True \<and> b \<in> lhblock (lg s1) ` set [0..<n] then 0 - 1 else 0) {} s' \<and>
    lblk s' = fold (\<lambda>i v. v(lhblock (lg s1) i := d (st + of_nat i + 1))) [0..<n] (lblk s1) \<and>
    disk s' = fold (\<lambda>i v. v(lhblock (lg s1) i := d (st + of_nat i + 1))) [0..<n] (disk s1) \<and>
    dtrace s' = dtrace s1 @ map (\<lambda>i. (lhblock (lg s1) i, d (st + of_nat i + 1))) [0..<n]"
    by (rule install_loop [OF 1(2)]) (use l n30 area in \<open>auto simp: lg1 n1(2) 1(3) [symmetric] n_def hdr_n_def hdr_block_def\<close>)
  moreover have "fold (\<lambda>i v. v(lhblock (lg s1) i := d (st + of_nat i + 1))) [0..<n] d = rec_view st d"
    unfolding rec_view_def n_def [symmetric] by (rule fold_cong) (auto simp: n1(2))
  moreover have "map (\<lambda>i. (lhblock (lg s1) i, d (st + of_nat i + 1))) [0..<n] = map (\<lambda>i. (hdr_block st d i, d (st + of_nat i + 1))) [0..<n]"
    by (rule map_cong) (auto simp: n1(2))
  ultimately obtain s2 where 2: "install_trans p True s1 = Ok s2" "io_only s1 s2" "held p (\<lambda>_. 0) {} s2" "lblk s2 = rec_view st d"
    "disk s2 = rec_view st d" "dtrace s2 = dtrace s @ map (\<lambda>i. (hdr_block st d i, d (st + of_nat i + 1))) [0..<n]"
    by (auto simp: install_trans_def n1(1) 1(3-5))
  define s3 where "s3 = upd_log (\<lambda>l. l\<lparr>lhn := 0\<rparr>) s2"
  have "st \<notin> hdr_block st d ` set [0..<n]" by (metis area imageE atLeastLessThan_iff set_upt st_area)
  then have st: "rec_view st d st = d st" unfolding rec_view_def n_def [symmetric] by (rule fold_upd_other)
  define e where "e = put_head (lg s3) (lblk s3 st)"
  obtain s4 where 4: "write_head p s3 = Ok s4" "held p (\<lambda>_. 0) {} s4" "disk s4 = (disk s3)(st := e)" "dtrace s4 = dtrace s3 @ [(st, e)]" "io_only s3 s4"
    by (rule write_head_spec [of p "\<lambda>_. 0" s3 st e]) (use 2 l in \<open>auto simp: s3_def e_def lg1 io_only_lg [OF 2(2)]\<close>)
  have e0: "sint (get32 e 0) = 0" "length e = BSIZE"
    using cleared_header [of "d st" "lg s2"] len by (simp_all add: e_def s3_def 2(4) st)
  have "recover_from_log p s = Ok s4" using 1(1) 2(1) 4(1) by (simp add: recover_from_log_def s3_def)
  moreover have "lg s4 = (lg s)\<lparr>lhn := 0, lhblock := lhblock (lg s4)\<rparr>"
    using io_only_lg [OF 4(5)] io_only_lg [OF 2(2)] lg1 by (simp add: s3_def)
  ultimately show ?thesis using that [OF _ 4(2) _ _ e0] 4(3,4) 2(5,6) by (simp add: s3_def d_def n_def)
qed

section \<open>Commit\<close>

text \<open>
  The log between system calls: the blocks of the open transaction are distinct, outside
  the log, and each pinned once; the header on disk is empty.
\<close>

definition log_pins :: "log \<Rightarrow> uint \<Rightarrow> int" where
  "log_pins l b = of_bool (b \<in> lhblock l ` {..<nat (lhn l)})"

definition lg_wf :: "log \<Rightarrow> bool" where
  "lg_wf l \<longleftrightarrow> ldev l = ROOTDEV \<and> 0 \<le> lhn l \<and> lhn l \<le> int LOGBLOCKS \<and> inj_on (lhblock l) {..<nat (lhn l)} \<and>
     (\<forall>i<nat (lhn l). lhblock l i \<notin> log_area (lstart l))"

definition log_inv :: "nat \<Rightarrow> uint set \<Rightarrow> 'a lstate_scheme \<Rightarrow> bool" where
  "log_inv p H s \<longleftrightarrow> lg_wf (lg s) \<and> held p (log_pins (lg s)) H s \<and>
     length (disk s (lstart (lg s))) = BSIZE \<and> hdr_n (lstart (lg s)) (disk s) = 0"

lemma io_only_upd_log:
  assumes "io_only s s'"
  shows "io_only (upd_log f s) (upd_log f s')"
proof -
  obtain P B L D T where "s' = s\<lparr>procs := P, bufs := B, lru := L, disk := D, dtrace := T\<rparr>"
    using assms unfolding io_only_def by blast
  then show ?thesis using assms unfolding io_only_def by (simp add: upd_log_def woken_def)
qed

lemma card_log_pins: "lg_wf l \<Longrightarrow> card (pinned (log_pins l)) = nat (lhn l)"
proof -
  assume "lg_wf l"
  moreover have "pinned (log_pins l) = lhblock l ` {..<nat (lhn l)}" by (auto simp: pinned_def log_pins_def)
  ultimately show ?thesis by (simp add: card_image lg_wf_def)
qed

lemma committed_header:
  assumes wf: "lg_wf l" and st: "lstart l = st" and e: "e = put_head l h" and h: "length h = BSIZE"
    and d: "d st = e" "\<And>i. i < nat (lhn l) \<Longrightarrow> d (st + of_nat i + 1) = N (lhblock l i)"
  shows "hdr_n st d = nat (lhn l)" "\<And>i. i < nat (lhn l) \<Longrightarrow> hdr_block st d i = lhblock l i" "log_wf st d"
    "rec_view st d b = (if b \<in> lhblock l ` {..<nat (lhn l)} then N b else d b)"
proof -
  have n: "0 \<le> lhn l" "lhn l \<le> 30" using wf by (auto simp: lg_wf_def)
  obtain m where m: "lhn l = int m" "m \<le> 30" using n by (metis nat_0_le nat_le_iff of_nat_numeral)
  have "unat (of_nat m :: uint) = m" using m(2) by (simp add: unat_of_nat)
  then have "sint (of_nat m :: uint) = int m" using m(2) sint_small [of "of_nat m"] by (simp add: uint_nat)
  then have "sint (get32 (d st) 0) = lhn l"
    using put_head_n [of h l] h by (simp add: d(1) e m(1))
  then show hn: "hdr_n st d = nat (lhn l)" by (simp add: hdr_n_def)
  show hb: "hdr_block st d i = lhblock l i" if "i < nat (lhn l)" for i
    using put_head_block [OF that, of h] h n by (simp add: hdr_block_def d(1) e)
  show "log_wf st d" using wf n h hb by (auto simp: log_wf_def hn d(1) e lg_wf_def st)
  have "rec_view st d = fold (\<lambda>i v. v(lhblock l i := N (lhblock l i))) [0..<nat (lhn l)] d"
    unfolding rec_view_def hn by (rule fold_cong) (auto simp: hb d(2))
  moreover have "fold (\<lambda>i v. v(lhblock l i := N (lhblock l i))) [0..<nat (lhn l)] d b = (if b \<in> lhblock l ` {..<nat (lhn l)} then N b else d b)"
    using wf fold_upd_inj [of "lhblock l" "[0..<nat (lhn l)]" _ "\<lambda>i. N (lhblock l i)" d] fold_upd_other [of b "lhblock l" "[0..<nat (lhn l)]" "\<lambda>i. N (lhblock l i)" d]
    by (auto simp: lg_wf_def atLeast0LessThan)
  ultimately show "rec_view st d b = (if b \<in> lhblock l ` {..<nat (lhn l)} then N b else d b)" by simp
qed

lemma commit_spec:
  assumes inv: "log_inv p {} s" and st: "lstart (lg s) = st" and n: "n = nat (lhn (lg s))" "0 < n" "n + 2 \<le> NBUF"
  obtains s' W where "commit p s = Ok s'" "held p (\<lambda>_. 0) {} s'" "io_only (upd_log (\<lambda>l. l\<lparr>lhn := 0\<rparr>) s) s'"
    "dtrace s' = dtrace s @ W" "disk s' = apply_writes W (disk s)"
    "\<And>k. log_wf st (apply_writes (take k W) (disk s))"
    "\<And>k b. b \<notin> log_area st \<Longrightarrow> rec_view st (apply_writes (take k W) (disk s)) b = (if k \<le> n then disk s b else lblk s b)"
    "\<And>b. b \<notin> log_area st \<Longrightarrow> disk s' b = lblk s b" "length (disk s' st) = BSIZE" "hdr_n st (disk s') = 0"
proof -
  define B where "B = lhblock (lg s)"
  define L where "L = (\<lambda>i. st + of_nat i + (1 :: uint))"
  define N where "N = lblk s"
  define P where "P = log_pins (lg s)"
  have wf: "lg_wf (lg s)" and h: "held p P {} s" and d0: "length (disk s st) = BSIZE" "hdr_n st (disk s) = 0"
    using inv by (auto simp: log_inv_def P_def st)
  have lw: "ldev (lg s) = ROOTDEV" "inj_on B {..<n}" "\<And>i. i < n \<Longrightarrow> i < LOGBLOCKS \<and> B i \<notin> log_area st" "lhn (lg s) = int n"
    using wf n by (auto simp: lg_wf_def B_def st)
  have P: "P b = of_bool (b \<in> B ` {..<n})" for b by (simp add: P_def log_pins_def B_def n(1))
  have room: "card (pinned P) + 1 < NBUF" using card_log_pins [OF wf] n by (simp add: P_def)
  have P0: "P b = 0" if "b \<in> log_area st" for b using lw(3) that by (force simp: P)
  have Linj: "inj_on L {..<n}" and Lst: "\<And>i. i < n \<Longrightarrow> L i \<noteq> st \<and> L i \<in> log_area st"
    using lw(3) log_block_inj log_block_area unfolding inj_on_def L_def by blast+
  \<comment> \<open>copying the blocks to the log\<close>
  obtain s1 where 1: "foldR (write_log_one p) [0..<n] s = Ok s1" "io_only s s1" "held p P {} s1"
    "lblk s1 = fold (\<lambda>i v. v(L i := N (B i))) [0..<n] (lblk s)" "disk s1 = fold (\<lambda>i v. v(L i := N (B i))) [0..<n] (disk s)"
    "dtrace s1 = dtrace s @ map (\<lambda>i. (L i, N (B i))) [0..<n]"
    using write_log_loop [OF h room lw(1) st, of "[0..<n]" "\<lambda>i. N (B i)"] lw(3) unfolding B_def L_def N_def by auto
  note lg1 = io_only_lg [OF 1(2)]
  have keep1: "fold (\<lambda>i v. v(L i := N (B i))) [0..<n] v b = v b" if "b \<notin> log_area st \<or> b = st" for v b
    by (rule fold_upd_other) (use that Lst in fastforce)
  \<comment> \<open>the header\<close>
  define e where "e = put_head (lg s) (disk s st)"
  have e: "e = put_head (lg s1) (lblk s1 st)" using keep1 [of st "lblk s"] held_clean [OF h P0 [OF st_area]] by (simp add: e_def lg1 1(4))
  obtain s2 where 2: "write_head p s1 = Ok s2" "held p P {} s2" "lblk s2 = (lblk s1)(st := e)" "disk s2 = (disk s1)(st := e)"
    "dtrace s2 = dtrace s1 @ [(st, e)]" "io_only s1 s2"
    by (rule write_head_spec [OF 1(3) _ _ _ e]) (use room lw(1) st lg1 in auto)
  note lg2 = io_only_lg [OF 2(6), unfolded lg1]
  have d2: "disk s2 st = e" "\<And>i. i < n \<Longrightarrow> disk s2 (L i) = N (B i)" "\<And>i. i < n \<Longrightarrow> lblk s2 (L i) = N (B i)"
    "\<And>b. b \<notin> log_area st \<Longrightarrow> disk s2 b = disk s b"
    using fold_upd_inj [of L "[0..<n]" _ "\<lambda>i. N (B i)"] Linj Lst keep1 by (auto simp: 2(3,4) 1(4,5) atLeast0LessThan)
  note ch = committed_header [where d = "disk s2" and N = N, OF wf st e_def d0(1) d2(1) d2(2) [unfolded n(1) B_def L_def],
      folded n(1) B_def]
  \<comment> \<open>installing\<close>
  have "\<exists>s'. foldR (install_one p False) [0..<n] s2 = Ok s' \<and> io_only s2 s' \<and>
    held p (\<lambda>b. if \<not> False \<and> b \<in> lhblock (lg s2) ` set [0..<n] then P b - 1 else P b) {} s' \<and>
    lblk s' = fold (\<lambda>i v. v(lhblock (lg s2) i := N (B i))) [0..<n] (lblk s2) \<and>
    disk s' = fold (\<lambda>i v. v(lhblock (lg s2) i := N (B i))) [0..<n] (disk s2) \<and>
    dtrace s' = dtrace s2 @ map (\<lambda>i. (lhblock (lg s2) i, N (B i))) [0..<n]"
    by (rule install_loop [OF 2(2) room]) (use lw d2(3) st in \<open>auto simp: lg2 B_def [symmetric] L_def P atLeast0LessThan\<close>)
  then obtain s3 where 3: "foldR (install_one p False) [0..<n] s2 = Ok s3" "io_only s2 s3"
    "held p (\<lambda>b. if \<not> False \<and> b \<in> B ` set [0..<n] then P b - 1 else P b) {} s3"
    "disk s3 = fold (\<lambda>i v. v(B i := N (B i))) [0..<n] (disk s2)" "dtrace s3 = dtrace s2 @ map (\<lambda>i. (B i, N (B i))) [0..<n]"
    unfolding lg2 B_def [symmetric] by blast
  have "(\<lambda>b. if \<not> False \<and> b \<in> B ` set [0..<n] then P b - 1 else P b) = (\<lambda>_. 0)" by (auto simp: P fun_eq_iff)
  note h3 = 3(3) [unfolded this]
  note lg3 = io_only_lg [OF 3(2), unfolded lg2]
  have "B i \<noteq> st" if "i < n" for i using lw(3) [OF that] st_area [of st] by metis
  then have "st \<notin> B ` set [0..<n]" by fastforce
  then have st3: "lblk s3 st = e" using held_clean [OF h3, of st] d2(1) by (simp add: 3(4) fold_upd_other del: fun_upd_apply)
  define s4 where "s4 = upd_log (\<lambda>l. l\<lparr>lhn := 0\<rparr>) s3"
  define e2 where "e2 = put_head (lg s4) (lblk s4 st)"
  obtain s5 where 5: "write_head p s4 = Ok s5" "held p (\<lambda>_. 0) {} s5" "disk s5 = (disk s4)(st := e2)" "dtrace s5 = dtrace s4 @ [(st, e2)]" "io_only s4 s5"
    by (rule write_head_spec [of p "\<lambda>_. 0" s4 st e2]) (use h3 lw(1) st in \<open>auto simp: s4_def e2_def lg3\<close>)
  have e2: "sint (get32 e2 0) = 0" "length e2 = BSIZE"
    using cleared_header [of e "lg s3"] d0(1) by (simp_all add: e2_def s4_def st3 e_def)
  have "io_only (upd_log (\<lambda>l. l\<lparr>lhn := 0\<rparr>) s) s5"
    using io_only_upd_log [OF io_only_trans [OF io_only_trans [OF 1(2) 2(6)] 3(2)], of "\<lambda>l. l\<lparr>lhn := 0\<rparr>"] 5(5)
    unfolding s4_def by (rule io_only_trans)
  moreover have "commit p s = Ok s5"
    using 1(1) 2(1) 3(1) 5(1) n(2) lw(4) by (simp add: commit_def write_log_def install_trans_def lg2 s4_def)
  moreover define W1 where "W1 = map (\<lambda>i. (L i, N (B i))) [0..<n]"
  moreover define W2 where "W2 = map (\<lambda>i. (B i, N (B i))) [0..<n] @ [(st, e2)]"
  moreover have tr: "dtrace s5 = dtrace s @ (W1 @ (st, e) # W2)" by (simp add: 5(4) s4_def 3(5) 2(5) 1(6) W1_def W2_def)
  moreover have a1: "apply_writes W1 (disk s) = disk s1" by (simp add: W1_def apply_writes_map 1(5))
  moreover have ds5: "disk s5 = apply_writes (W1 @ (st, e) # W2) (disk s)"
    by (simp add: a1 2(4) [symmetric] W2_def apply_writes_map 3(4) [symmetric] 5(3) s4_def)
  moreover have crash: "log_wf st (apply_writes (take k (W1 @ (st, e) # W2)) (disk s)) \<and> (b \<notin> log_area st \<longrightarrow>
      rec_view st (apply_writes (take k (W1 @ (st, e) # W2)) (disk s)) b = (if k \<le> n then disk s b else lblk s b))" for k b
  proof (cases "k \<le> n")
    case True
    let ?d = "apply_writes (take k W1) (disk s)"
    have sub: "fst ` set (take k W1) \<subseteq> L ` {..<n}" using set_take_subset [of k W1] by (auto simp: W1_def)
    have "?d st = disk s st" by (rule apply_writes_other) (use sub Lst in fastforce)
    moreover have "b \<notin> log_area st \<Longrightarrow> ?d b = disk s b" by (rule apply_writes_other) (use sub Lst in fastforce)
    ultimately have "log_wf st ?d \<and> (b \<notin> log_area st \<longrightarrow> rec_view st ?d b = disk s b)"
      using d0 by (simp add: log_wf_def hdr_n_def rec_view_def)
    then show ?thesis using True by (simp add: W1_def)
  next
    case False
    then obtain j where j: "k = Suc (n + j)" by (metis add_Suc_right less_iff_Suc_add not_le)
    have "take k (W1 @ (st, e) # W2) = W1 @ (st, e) # take j W2" by (simp add: j W1_def)
    then have dk: "apply_writes (take k (W1 @ (st, e) # W2)) (disk s) = apply_writes (take j W2) (disk s2)" by (simp add: a1 2(4))
    have W2: "W2 = map (\<lambda>i. (hdr_block st (disk s2) i, disk s2 (st + of_nat i + 1))) [0..<hdr_n st (disk s2)] @ [(st, e2)]"
      using ch(1,2) d2(2) by (auto simp: W2_def L_def)
    have "rec_view st (disk s2) b = lblk s b" if "b \<notin> log_area st"
      using ch(4) [of b] d2(4) [OF that] held_clean [OF h, of b] by (auto simp: P N_def)
    then show ?thesis unfolding dk using prefix_clear [OF ch(3) W2 e2] False by auto
  qed
  moreover have "hdr_n st (disk s5) = 0" "length (disk s5 st) = BSIZE" using e2 by (simp_all add: 5(3) hdr_n_def)
  moreover have "disk s5 b = lblk s b" if "b \<notin> log_area st" for b
  proof -
    have "rec_view st (disk s5) b = lblk s b"
      using crash [of "length (W1 @ (st, e) # W2)" b] that ds5 by (simp add: W1_def)
    then show ?thesis using \<open>hdr_n st (disk s5) = 0\<close> by (simp add: rec_view_empty)
  qed
  ultimately show ?thesis using that [of s5 "W1 @ (st, e) # W2"] 5(2) by blast
qed

end
