(* ===== verification/Log_Props.thy ===== *)
theory Log_Props
  imports Log_Crash
begin

text \<open>
  What the file system relies on from the log, and what a crash can leave: the properties
  of \<^verbatim>\<open>log_write()\<close>, \<^verbatim>\<open>end_op()\<close> and \<^verbatim>\<open>recover_from_log()\<close>.
\<close>

section \<open>Log state and the cache\<close>

lemma held_wakeup [simp]:
  "held p P H (wakeup me ch s) = held p P H s" "lblk (wakeup me ch s) = lblk s" "disk (wakeup me ch s) = disk s"
  "dtrace (wakeup me ch s) = dtrace s" "lg (wakeup me ch t) = lg t" "bufs (wakeup me ch s) = bufs s"
proof -
  let ?s = "wakeup me ch s"
  have e: "?s = s\<lparr>procs := procs ?s\<rparr>" by (simp add: wakeup_eq)
  have f: "bufs ?s = bufs s" "lru ?s = lru s" "disk ?s = disk s" by (simp_all add: wakeup_eq)
  have lb: "lblk ?s b = lblk s b" for b unfolding lblk_def f ..
  have c: "cached ?s b i = cached s b i" for b i unfolding cached_def f ..
  have B: "bio_inv ?s = bio_inv s" unfolding bio_inv_def c f ..
  have m: "mypid ?s p = mypid s p" by (rule woken_mypid [OF woken_wakeup])
  show "held p P H ?s = held p P H s" unfolding held_def c B m f ..
  show "lblk ?s = lblk s" using lb by (rule ext)
qed (simp_all add: wakeup_eq)

lemma log_inv_upd_log:
  assumes "ldev (f (lg s)) = ldev (lg s)" "lstart (f (lg s)) = lstart (lg s)" "lhn (f (lg s)) = lhn (lg s)" "lhblock (f (lg s)) = lhblock (lg s)"
  shows "log_inv p H (upd_log f s) = log_inv p H s"
proof -
  have "lg_wf (f (lg s)) = lg_wf (lg s)" "log_pins (f (lg s)) = log_pins (lg s)"
    by (simp_all add: lg_wf_def log_pins_def [abs_def] assms)
  then show ?thesis using assms(2) by (simp add: log_inv_def)
qed

section \<open>Adding a block to the transaction\<close>

lemma log_inv_held: "log_inv p H s \<Longrightarrow> held p (log_pins (lg s)) H s"
  by (simp add: log_inv_def)

lemma log_write_found:
  assumes "find (\<lambda>i. lhblock l i = b) [0..<n] = Some i"
  shows "i < n" "lhblock l i = b" "(lhblock l)(i := b) = lhblock l"
  using assms unfolding find_upt_Some by auto

lemma log_write_spec:
  assumes inv: "log_inv p H s" and b: "b \<in> H" "cached s b i" "b \<notin> log_area (lstart (lg s))"
    and n: "lhn (lg s) < int LOGBLOCKS" "1 \<le> outstanding (lg s)"
  obtains s' where "log_write i s = Ok s'" "log_inv p H s'" "lblk s' = lblk s" "disk s' = disk s" "dtrace s' = dtrace s"
    "\<And>b' j. cached s' b' j = cached s b' j"
    "lhblock (lg s') ` {..<nat (lhn (lg s'))} = insert b (lhblock (lg s) ` {..<nat (lhn (lg s))})"
    "lhn (lg s') \<le> lhn (lg s) + 1" "outstanding (lg s') = outstanding (lg s)" "lstart (lg s') = lstart (lg s)"
    "b \<in> lhblock (lg s) ` {..<nat (lhn (lg s))} \<Longrightarrow> lhn (lg s') = lhn (lg s)"
    "\<exists>f. io_only (upd_log f s) s'"
proof -
  define l where "l = lg s"
  define m where "m = nat (lhn l)"
  have wf: "lg_wf l" and h: "held p (log_pins l) H s" using inv by (auto simp: log_inv_def l_def)
  have bn: "blockno (bufs s i) = b" using b(2) by (simp add: cached_def)
  have m: "lhn l = int m" using wf by (simp add: lg_wf_def m_def)
  show ?thesis
  proof (cases "find (\<lambda>i. lhblock l i = b) [0..<m]")
    case (Some k)
    note k = log_write_found [OF Some]
    have w: "log_write i s = Ok (upd_log (\<lambda>l. l\<lparr>lhblock := (lhblock l)(k := b)\<rparr>) s)"
      using n Some k(1) m bn by (simp add: log_write_def Let_def l_def [symmetric])
    have f: "lg (upd_log (\<lambda>l. l\<lparr>lhblock := (lhblock l)(k := b)\<rparr>) s) = l" using k(3) by (simp add: l_def)
    have "b \<in> lhblock l ` {..<m}" using k by auto
    then show ?thesis
      by (intro that [OF w]) (use inv k(3) f in \<open>auto simp: log_inv_upd_log l_def m_def insert_absorb intro!: exI [of _ "\<lambda>l. l\<lparr>lhblock := (lhblock l)(k := b)\<rparr>"]\<close>)
  next
    case None
    then have new: "b \<notin> lhblock l ` {..<m}" unfolding find_upt_None by auto
    let ?l = "l\<lparr>lhblock := (lhblock l)(m := b), lhn := int m + 1\<rparr>"
    define s1 where "s1 = bpin i (upd_log (\<lambda>l. l\<lparr>lhblock := (lhblock l)(m := b)\<rparr>) s)"
    define s' where "s' = upd_log (\<lambda>l. l\<lparr>lhn := lhn l + 1\<rparr>) s1"
    have w: "log_write i s = Ok s'"
      using n None m bn by (simp add: log_write_def Let_def l_def [symmetric] m_def [symmetric] s'_def s1_def)
    have lg': "lg s' = ?l" using m by (simp add: s'_def s1_def bpin_def upd_buf_def l_def)
    let ?u = "upd_log (\<lambda>l. l\<lparr>lhblock := (lhblock l)(m := b)\<rparr>) s"
    have hu: "held p (log_pins l) H ?u" "cached ?u b i" using h b(2) by simp_all
    note pin = held_pin [OF hu(1) b(1) hu(2), of 1, folded bpin_def]
    have img: "lhblock ?l ` {..<Suc m} = insert b (lhblock l ` {..<m})"
      unfolding lessThan_Suc by auto
    have n': "nat (lhn ?l) = Suc m" by simp
    have "log_pins ?l b' = ((log_pins l)(b := log_pins l b + 1)) b'" for b'
    proof -
      have "log_pins ?l b' = of_bool (b' \<in> insert b (lhblock l ` {..<m}))" unfolding log_pins_def n' img ..
      moreover have "log_pins l b' = of_bool (b' \<in> lhblock l ` {..<m})" for b' by (simp add: log_pins_def m_def)
      ultimately show ?thesis using new by (cases "b' = b") simp_all
    qed
    then have pins: "log_pins ?l = (log_pins l)(b := log_pins l b + 1)" by (rule ext)
    have "held p (log_pins ?l) H s'"
      using pin(1) heldD(6) [OF h, of b] by (simp add: s'_def s1_def pins)
    moreover have "lg_wf ?l"
    proof -
      have "inj_on ((lhblock l)(m := b)) {..<Suc m}"
        using wf new by (auto simp: lg_wf_def m_def [symmetric] inj_on_def lessThan_Suc)
      moreover have "((lhblock l)(m := b)) i \<notin> log_area (lstart l)" if "i < Suc m" for i
        using wf b(3) [folded l_def] that by (auto simp: lg_wf_def m_def [symmetric] less_Suc_eq)
      ultimately show ?thesis using wf n(1) m unfolding lg_wf_def n' by (simp add: l_def)
    qed
    moreover have "disk s' = disk s" "dtrace s' = dtrace s" by (simp_all add: s'_def s1_def bpin_def upd_buf_def)
    ultimately have inv': "log_inv p H s'" using inv by (simp add: log_inv_def lg' l_def)
    have "io_only (upd_log (\<lambda>_. ?l) s) s'"
      using m by (simp add: s'_def s1_def bpin_def upd_buf_def upd_log_def l_def io_only_def woken_def)
    then have io: "\<exists>f. io_only (upd_log f s) s'" by blast
    have "\<And>b' j. cached s' b' j = cached s b' j" "lblk s' = lblk s"
      using pin(2,4) heldD(6) [OF h, of b] by (simp_all add: s'_def s1_def)
    then show ?thesis
      by (intro that [OF w inv' _ \<open>disk s' = disk s\<close> \<open>dtrace s' = dtrace s\<close> _ _ _ _ _ _ io])
        (use img [folded n'] new m in \<open>simp_all add: lg' l_def [symmetric] m_def [symmetric]\<close>)
  qed
qed

section \<open>Ending an operation\<close>

lemma end_op_last:
  assumes "outstanding (lg s) = 1" and "\<not> committing (lg s)" and c: "commit p (upd_log (\<lambda>l. l\<lparr>outstanding := 0, committing := True\<rparr>) s) = Ok s1"
  shows "end_op p s = Ok (wakeup (Some p) ChanLog (upd_log (\<lambda>l. l\<lparr>committing := False, ncommit := ncommit l + 1\<rparr>) s1))"
proof -
  have "upd_log (\<lambda>l. l\<lparr>committing := True\<rparr>) (upd_log (\<lambda>l. l\<lparr>outstanding := outstanding l - 1\<rparr>) s) =
      upd_log (\<lambda>l. l\<lparr>outstanding := 0, committing := True\<rparr>) s"
    using assms(1) by (simp add: upd_log_def)
  then show ?thesis using assms by (simp add: end_op_def Let_def)
qed

lemma end_op_spec:
  assumes inv: "log_inv p {} s" and st: "lstart (lg s) = st" and o: "outstanding (lg s) = 1" "\<not> committing (lg s)"
    and n: "n = nat (lhn (lg s))" "n + 2 \<le> NBUF"
  obtains s' W where "end_op p s = Ok s'" "log_inv p {} s'" "dtrace s' = dtrace s @ W" "disk s' = apply_writes W (disk s)" "lhn (lg s') = 0"
    "\<And>k. log_wf st (apply_writes (take k W) (disk s))" "lstart (lg s') = st"
    "\<And>k b. b \<notin> log_area st \<Longrightarrow> rec_view st (apply_writes (take k W) (disk s)) b = (if k \<le> n then disk s b else lblk s b)"
    "\<And>b. b \<notin> log_area st \<Longrightarrow> disk s' b = lblk s b \<and> lblk s' b = lblk s b"
proof -
  define t where "t = upd_log (\<lambda>l. l\<lparr>outstanding := 0, committing := True\<rparr>) s"
  let ?g = "\<lambda>l. l\<lparr>committing := False, ncommit := ncommit l + 1\<rparr>"
  have it: "log_inv p {} t" using inv by (simp add: t_def log_inv_upd_log)
  have wf: "lg_wf (lg s)" and h: "held p (log_pins (lg s)) {} s" and d: "length (disk s st) = BSIZE" "hdr_n st (disk s) = 0"
    using inv st by (auto simp: log_inv_def)
  have zero: "log_pins l = (\<lambda>_. 0)" if "lhn l = 0" for l using that by (simp add: log_pins_def fun_eq_iff)
  show ?thesis
  proof (cases "n = 0")
    case True
    then have n0: "lhn (lg s) = 0" using wf n(1) by (simp add: lg_wf_def)
    then have "commit p t = Ok t" by (simp add: commit_def t_def)
    then have e: "end_op p s = Ok (wakeup (Some p) ChanLog (upd_log ?g t))" using end_op_last [OF o] by (simp add: t_def)
    have "lblk s b = disk s b" for b using held_clean [OF h, of b] n0 by (simp add: zero)
    moreover have "log_inv p {} (wakeup (Some p) ChanLog (upd_log ?g t))"
      using it by (simp add: log_inv_def t_def lg_wf_def log_pins_def [abs_def])
    moreover have "log_wf st (disk s)" "rec_view st (disk s) = disk s" using d by (simp_all add: log_wf_def rec_view_empty)
    ultimately show ?thesis by (intro that [OF e, of "[]"]) (auto simp: t_def st n0)
  next
    case False
    have nt: "n = nat (lhn (lg t))" "0 < n" using n(1) False by (simp_all add: t_def)
    have stt: "lstart (lg t) = st" using st by (simp add: t_def)
    obtain s1 W where 1: "commit p t = Ok s1" "held p (\<lambda>_. 0) {} s1" "io_only (upd_log (\<lambda>l. l\<lparr>lhn := 0\<rparr>) t) s1"
      "dtrace s1 = dtrace t @ W" "disk s1 = apply_writes W (disk t)"
      "\<And>k. log_wf st (apply_writes (take k W) (disk t))"
      "\<And>k b. b \<notin> log_area st \<Longrightarrow> rec_view st (apply_writes (take k W) (disk t)) b = (if k \<le> n then disk t b else lblk t b)"
      "\<And>b. b \<notin> log_area st \<Longrightarrow> disk s1 b = lblk t b" "length (disk s1 st) = BSIZE" "hdr_n st (disk s1) = 0"
      by (rule commit_spec [OF it stt nt n(2)]) blast
    have lg1: "lg s1 = (lg t)\<lparr>lhn := 0\<rparr>" using io_only_lg [OF 1(3)] by simp
    define s' where "s' = wakeup (Some p) ChanLog (upd_log ?g s1)"
    have e: "end_op p s = Ok s'" using end_op_last [OF o] 1(1) by (simp add: t_def s'_def)
    have l': "lg s' = ?g (lg s1)" "disk s' = disk s1" "lblk s' = lblk s1" "dtrace s' = dtrace s1" by (simp_all add: s'_def)
    have "log_inv p {} s'"
      using 1(2,9,10) wf st by (simp add: log_inv_def l' lg1 t_def lg_wf_def zero) (simp add: s'_def)
    moreover have "lblk s' b = disk s' b" for b using held_clean [OF 1(2), of b] by (simp add: l')
    ultimately show ?thesis
      by (intro that [OF e, of W]) (use 1 st in \<open>simp_all add: l' lg1 t_def\<close>)
  qed
qed


text \<open>C9. Recovery always succeeds on a disk with a well-formed log: it leaves what the log says on disk and an empty log.
  It may itself be cut short by a crash after any of its writes, and recovering again then gives the same result.\<close>

theorem recovery_restartable:
  assumes "held p (\<lambda>_. 0) {} s" and "ldev (lg s) = ROOTDEV" and "lstart (lg s) = st" and "log_wf st (disk s)"
  shows "\<exists>s' W. recover_from_log p s = Ok s' \<and> dtrace s' = dtrace s @ W \<and> hdr_n st (disk s') = 0 \<and> lhn (lg s') = 0 \<and>
    (\<forall>b. b \<notin> log_area st \<longrightarrow> disk s' b = rec_view st (disk s) b) \<and>
    (\<forall>k r q. held q (\<lambda>_. 0) {} r \<and> ldev (lg r) = ROOTDEV \<and> lstart (lg r) = st \<and> disk r = apply_writes (take k W) (disk s) \<longrightarrow>
      (\<exists>r'. recover_from_log q r = Ok r' \<and> (\<forall>b. b \<notin> log_area st \<longrightarrow> disk r' b = disk s' b)))"
proof (rule recover_spec [OF assms])
  fix s' e
  assume a: "recover_from_log p s = Ok s'" "lg s' = (lg s)\<lparr>lhn := 0, lhblock := lhblock (lg s')\<rparr>"
    "disk s' = (rec_view st (disk s))(st := e)" "sint (get32 e 0) = 0" "length e = BSIZE"
    "dtrace s' = dtrace s @ map (\<lambda>i. (hdr_block st (disk s) i, disk s (st + of_nat i + 1))) [0..<hdr_n st (disk s)] @ [(st, e)]"
  let ?W = "map (\<lambda>i. (hdr_block st (disk s) i, disk s (st + of_nat i + 1))) [0..<hdr_n st (disk s)] @ [(st, e)]"
  have "\<exists>r'. recover_from_log q r = Ok r' \<and> (\<forall>b. b \<notin> log_area st \<longrightarrow> disk r' b = disk s' b)"
    if r: "held q (\<lambda>_. 0) {} r" "ldev (lg r) = ROOTDEV" "lstart (lg r) = st" "disk r = apply_writes (take k ?W) (disk s)" for k r q
  proof -
    note pc = prefix_clear [where k = k, OF assms(4) refl a(4,5), folded r(4)]
    obtain r' e' where r': "recover_from_log q r = Ok r'" "disk r' = (rec_view st (disk r))(st := e')"
      by (rule recover_spec [OF r(1-3) pc(1)]) blast
    have "disk r' b = disk s' b" if "b \<notin> log_area st" for b using pc(2) [OF that] that by (auto simp: r'(2) a(3))
    then show ?thesis using r'(1) by blast
  qed
  moreover have "hdr_n st (disk s') = 0" using a(4) by (simp add: hdr_n_def a(3))
  moreover have "lhn (lg s') = 0" using a(2) by (metis log.select_convs(6) log.surjective log.update_convs(6,7))
  moreover have "disk s' b = rec_view st (disk s) b" if "b \<notin> log_area st" for b using that by (auto simp: a(3))
  ultimately show ?thesis using a(1,6) by blast
qed

text \<open>C11. \<^verbatim>\<open>log_write()\<close> of a block the caller holds puts that block into the open transaction once, however often it is
  logged, keeps the log's invariant and changes nothing a reader sees.\<close>

theorem log_write_absorbs:
  assumes "log_inv p H s" and "b \<in> H" and "cached s b i" and "b \<notin> log_area (lstart (lg s))"
    and "lhn (lg s) < int LOGBLOCKS" and "1 \<le> outstanding (lg s)"
  shows "\<exists>s'. log_write i s = Ok s' \<and> log_inv p H s' \<and> lblk s' = lblk s \<and> disk s' = disk s \<and>
    lhblock (lg s') ` {..<nat (lhn (lg s'))} = insert b (lhblock (lg s) ` {..<nat (lhn (lg s))}) \<and>
    lhn (lg s') = lhn (lg s) + of_bool (b \<notin> lhblock (lg s) ` {..<nat (lhn (lg s))})"
proof (rule log_write_spec [OF assms])
  fix s'
  assume a: "log_write i s = Ok s'" "log_inv p H s'" "lblk s' = lblk s" "disk s' = disk s"
    "lhblock (lg s') ` {..<nat (lhn (lg s'))} = insert b (lhblock (lg s) ` {..<nat (lhn (lg s))})"
  have "card (lhblock l ` {..<nat (lhn l)}) = nat (lhn l) \<and> 0 \<le> lhn l" if "lg_wf l" for l
    using that by (simp add: lg_wf_def card_image)
  then have c: "card (lhblock (lg t) ` {..<nat (lhn (lg t))}) = nat (lhn (lg t)) \<and> 0 \<le> lhn (lg t)" if "log_inv p H t" for t :: "'a lstate_scheme"
    using that by (simp add: log_inv_def)
  have "lhn (lg s') = lhn (lg s) + of_bool (b \<notin> lhblock (lg s) ` {..<nat (lhn (lg s))})"
    using c [OF a(2)] c [OF assms(1)] unfolding a(5) by (auto simp: card_insert_if split: if_splits)
  then show ?thesis using a by blast
qed

section \<open>A log that fills the cache\<close>

lemma unused_empty:
  assumes h: "held p P {} s" and full: "NBUF \<le> card (pinned P)"
  shows "unused s = {}"
proof -
  define f where "f b = (SOME i. cached s b i)" for b
  have f: "cached s b (f b)" "0 < refcnt (bufs s (f b))" if "b \<in> pinned P" for b
  proof -
    have "\<exists>i. cached s b i" using heldD(7) [OF h, of b] that by (auto simp: pinned_def)
    then show c: "cached s b (f b)" unfolding f_def by (rule someI_ex)
    show "0 < refcnt (bufs s (f b))" using heldD(3) [OF h c] that by (simp add: pinned_def)
  qed
  have "inj_on f (pinned P)"
  proof (rule inj_onI)
    fix x y
    assume "x \<in> pinned P" "y \<in> pinned P" "f x = f y"
    then show "x = y" using f(1) [of x] f(1) [of y] by (simp add: cached_def)
  qed
  then have "card (f ` pinned P) = card (pinned P)" by (rule card_image)
  moreover have sub: "f ` pinned P \<subseteq> {..<NBUF}" using f(1) by (auto simp: cached_def)
  ultimately have "f ` pinned P = {..<NBUF}" using full card_seteq [of "{..<NBUF}" "f ` pinned P"] by simp
  then have "\<exists>b\<in>pinned P. i = f b" if "i < NBUF" for i using that by (auto simp: image_def set_eq_iff)
  then have "refcnt (bufs s i) \<noteq> 0" if "i < NBUF" for i using f(2) that by force
  then show ?thesis by (auto simp: unused_def)
qed

text \<open>C19. The log reserves room for \<^verbatim>\<open>LOGBLOCKS\<close> blocks, as many as the cache has buffers. A transaction of that many
  blocks pins every buffer, and its commit panics for want of one to write the log with.\<close>

theorem commit_full_log_panics:
  assumes inv: "log_inv p {} s" and full: "lhn (lg s) = int LOGBLOCKS"
  shows "commit p s = Panic ''bget: no buffers''"
proof -
  have wf: "lg_wf (lg s)" and h: "held p (log_pins (lg s)) {} s" using inv by (auto simp: log_inv_def)
  have un: "unused s = {}" by (rule unused_empty [OF h]) (use card_log_pins [OF wf] full in simp)
  let ?a = "lstart (lg s) + of_nat 0 + 1"
  have "?a \<in> log_area (lstart (lg s))" by (rule log_block_area) simp
  then have "log_pins (lg s) ?a = 0" using wf full by (force simp: log_pins_def lg_wf_def)
  then have no: "\<not> cached s ?a i" for i using heldD(3) [OF h, of ?a i] un by (auto simp: unused_def cached_def)
  have "find (\<lambda>i. refcnt (bufs s i) = 0) (rev (lru s)) = None"
    using un bio_invD(2) [OF heldD(1) [OF h]] by (auto simp: find_None_iff unused_def)
  then have "bread p ROOTDEV ?a s = Panic ''bget: no buffers''"
    using find_uncached [OF heldD(1) [OF h] no] by (simp add: bread_def bget_def)
  then have "write_log_one p 0 s = Panic ''bget: no buffers''" using wf by (simp add: write_log_one_def lg_wf_def)
  moreover have "[0..<30] = 0 # [1..<30 :: nat]" by (simp add: upt_conv_Cons)
  ultimately show ?thesis using full by (simp add: commit_def write_log_def)
qed

section \<open>Concrete instances\<close>

text \<open>A machine whose cache holds one block, \<open>x\<close>, for block number \<open>b\<close>.\<close>

definition zero_buf :: buf where
  "zero_buf = \<lparr>valid = False, bdev = 0, blockno = 0, block = initsleeplock, refcnt = 0, bdata = replicate BSIZE 0\<rparr>"

definition one_buf :: "uint \<Rightarrow> block \<Rightarrow> bool \<Rightarrow> (uint \<Rightarrow> block) \<Rightarrow> log \<Rightarrow> lstate" where
  "one_buf b x lkd d l = \<lparr>ph = boot_phys, procs = (\<lambda>_. zero_proc), nextpid = 1, initproc = None, ticks = 0, trampoline = 0,
     forkret_pc = 0, bufs = (\<lambda>_. zero_buf)(0 := \<lparr>valid = True, bdev = ROOTDEV, blockno = b, block = \<lparr>slocked = lkd, spid = 0\<rparr>,
     refcnt = 1, bdata = x\<rparr>), lru = [0..<NBUF], disk = d, dtrace = [], lg = l\<rparr>"

definition open_log :: "int \<Rightarrow> (nat \<Rightarrow> uint) \<Rightarrow> log" where
  "open_log n B = \<lparr>lstart = 2, outstanding = 1, committing = False, ldev = ROOTDEV, ncommit = 0, lhn = n, lhblock = B\<rparr>"

lemma one_buf_simps [simp]:
  "lg (one_buf b x lkd d l) = l" "disk (one_buf b x lkd d l) = d" "cached (one_buf b x lkd d l) b' i \<longleftrightarrow> b' = b \<and> i = 0"
  "valid (bufs (one_buf b x lkd d l) 0)" "bdata (bufs (one_buf b x lkd d l) 0) = x"
  by (auto simp: one_buf_def cached_def zero_buf_def)

lemma one_buf_held:
  "held 0 (\<lambda>b'. of_bool (b' = b \<and> \<not> lkd)) {b'. b' = b \<and> lkd} (one_buf b x lkd d l)"
proof (rule heldI)
  show "bio_inv (one_buf b x lkd d l)"
    by (rule bio_invI) (auto, auto simp: one_buf_def zero_buf_def initsleeplock_def split: if_splits)
qed (auto, auto simp: one_buf_def zero_buf_def holdingsleep_def mypid_def zero_proc_def split: if_splits)

lemma get32_zeros: "off + 4 \<le> n \<Longrightarrow> get32 (replicate n 0) off = 0"
  by (simp add: get32_def numeral_eq_Suc)

lemma lblk_one_buf: "lblk (one_buf b x lkd d l) b = x"
  using lblk_hit [OF heldD(1) [OF one_buf_held], of b x lkd d l b 0] by simp

lemma not_log_area_50: "50 \<notin> log_area 2"
  by (simp add: log_area_def)


theorem log_write_absorbs_witness:
  "\<exists>s'. log_write 0 (one_buf 50 (replicate BSIZE 7) True (\<lambda>_. replicate BSIZE 0) (open_log 0 (\<lambda>_. 0))) = Ok s' \<and> lhn (lg s') = 1"
proof -
  let ?l = "open_log 0 (\<lambda>_. 0)"
  let ?s = "one_buf 50 (replicate BSIZE 7) True (\<lambda>_. replicate BSIZE 0) ?l"
  have wf: "lg_wf ?l" by (simp add: lg_wf_def open_log_def)
  have pins: "log_pins ?l = (\<lambda>b'. of_bool (b' = 50 \<and> \<not> True))" by (auto simp: log_pins_def open_log_def fun_eq_iff)
  have "held 0 (log_pins ?l) {50} ?s" using one_buf_held [of 50 True] unfolding pins by simp
  then have inv: "log_inv 0 {50} ?s"
    using wf by (simp add: log_inv_def hdr_n_def get32_zeros open_log_def)
  show ?thesis
    using log_write_absorbs [OF inv, of 50 0] not_log_area_50 by (auto simp: open_log_def)
qed

text \<open>A machine just booted on the disk \<open>d\<close>.\<close>

definition booted :: "(uint \<Rightarrow> block) \<Rightarrow> log \<Rightarrow> lstate" where
  "booted d l = (one_buf 0 [] False d l)\<lparr>bufs := (\<lambda>_. zero_buf)\<rparr>"

lemma booted_held: "held p (\<lambda>_. 0) {} (booted d l)"
proof (rule heldI)
  have c: "\<not> cached (booted d l) b i" for b i by (simp add: cached_def booted_def zero_buf_def)
  show "bio_inv (booted d l)"
    by (rule bio_invI) (auto simp: c, auto simp: booted_def one_buf_def zero_buf_def initsleeplock_def)
qed (auto simp: cached_def booted_def zero_buf_def)

theorem recovery_restartable_witness:
  "\<exists>s'. recover_from_log 0 (booted ((\<lambda>_. replicate BSIZE 0)(2 := put_head (open_log 1 (\<lambda>_. 50)) (replicate BSIZE 0),
      3 := replicate BSIZE 7)) (open_log 0 (\<lambda>_. 0))) = Ok s' \<and> disk s' 50 = replicate BSIZE 7"
proof -
  let ?l = "open_log 1 (\<lambda>_. 50)" and ?z = "replicate BSIZE (0 :: uchar)"
  define d :: "uint \<Rightarrow> block" where "d = (\<lambda>_. ?z)(2 := put_head ?l ?z, 3 := replicate BSIZE 7)"
  have wf: "lg_wf ?l" by (simp add: lg_wf_def open_log_def not_log_area_50 inj_on_def)
  have d: "d 2 = put_head ?l ?z" "d (2 + of_nat i + 1) = (\<lambda>_. replicate BSIZE 7) (lhblock ?l i)" if "i < nat (lhn ?l)" for i
    using that by (simp_all add: d_def open_log_def)
  have n: "lstart ?l = 2" "0 < nat (lhn ?l)" by (simp_all add: open_log_def)
  note ch = committed_header [where d = d and N = "\<lambda>_. replicate BSIZE 7", OF wf n(1) refl _ d(1) [OF n(2)] d(2)]
  have lw: "log_wf 2 d" by (rule ch(3)) simp
  have v: "rec_view 2 d 50 = replicate BSIZE 7" by (subst ch(4)) (auto simp: open_log_def)
  let ?r = "booted d (open_log 0 (\<lambda>_. 0))"
  have r: "ldev (lg ?r) = ROOTDEV" "lstart (lg ?r) = 2" "disk ?r = d" by (simp_all add: booted_def one_buf_def open_log_def)
  have lw': "log_wf 2 (disk ?r)" unfolding r(3) by (rule lw)
  obtain s' where "recover_from_log 0 ?r = Ok s'" "\<forall>b. b \<notin> log_area 2 \<longrightarrow> disk s' b = rec_view 2 (disk ?r) b"
    using recovery_restartable [OF booted_held r(1,2) lw'] by blast
  then show ?thesis using v not_log_area_50 r(3) unfolding d_def [symmetric] by auto
qed

lemma full_log_state:
  obtains s :: lstate where "log_inv 0 {} s" "lhn (lg s) = int LOGBLOCKS"
proof -
  define B :: "nat \<Rightarrow> uint" where "B = (\<lambda>i. of_nat (i + 50))"
  define s where "s = (booted (\<lambda>_. replicate BSIZE 0) (open_log 30 B))\<lparr>bufs := (\<lambda>i. \<lparr>valid = True, bdev = ROOTDEV, blockno = B i,
    block = \<lparr>slocked = False, spid = 0\<rparr>, refcnt = 1, bdata = replicate BSIZE 7\<rparr>)\<rparr>"
  have u: "unat (B i) = i + 50" if "i < 30" for i
    using that unfolding B_def by (simp only: unat_of_nat take_bit_nat_eq_self_iff) simp
  have inj: "B i = B j \<longleftrightarrow> i = j" if "i < 30" "j < 30" for i j
    using u [OF that(1)] u [OF that(2)] by (metis add_right_imp_eq)
  have u2: "unat (B i - 2) = i + 48" if "i < 30" for i
    by (subst unat_sub) (simp_all add: word_le_nat_alt u that)
  have c: "cached s b i \<longleftrightarrow> i < 30 \<and> b = B i" for b i by (auto simp: cached_def s_def)
  have l: "lg s = open_log 30 B" "disk s = (\<lambda>_. replicate BSIZE 0)" by (simp_all add: s_def booted_def one_buf_def)
  have "bio_inv s" by (rule bio_invI) (auto simp: c inj, auto simp: s_def booted_def one_buf_def)
  then have "held 0 (log_pins (open_log 30 B)) {} s"
    by (rule heldI) (auto simp: c log_pins_def open_log_def inj, auto simp: s_def booted_def one_buf_def)
  moreover have "lg_wf (open_log 30 B)"
    using u2 by (auto simp: lg_wf_def open_log_def inj_on_def inj log_area_def)
  ultimately have "log_inv 0 {} s" by (simp add: log_inv_def l hdr_n_def get32_zeros open_log_def)
  then show ?thesis using that l(1) by (simp add: open_log_def)
qed

theorem commit_full_log_panics_witness:
  "\<exists>s :: lstate. lhn (lg s) = 30 \<and> commit 0 s = Panic ''bget: no buffers''"
proof (rule full_log_state)
  fix s :: lstate
  assume "log_inv 0 {} s" "lhn (lg s) = int LOGBLOCKS"
  then show ?thesis using commit_full_log_panics [of 0 s] by auto
qed

end
