(* ===== verification/Fs.thy ===== *)
theory Fs
  imports Log_Props
begin

text \<open>
  The file system of \<^verbatim>\<open>kernel/fs.c\<close>, \<^verbatim>\<open>kernel/fs.h\<close> and \<^verbatim>\<open>kernel/stat.h\<close>: the block allocator, the inode table,
  file contents, directories and path names. \<open>p\<close> is the process that runs; a \<^verbatim>\<open>struct inode *\<close> is
  an index into the inode table, the null pointer is \<open>None\<close> where a routine may return it.
  Strings are the bytes before their NUL. \<^verbatim>\<open>short\<close> fields are kept as their 16 bits.
\<close>

section \<open>fs.h, stat.h\<close>

definition ROOTINO :: uint where [simp]: "ROOTINO = 1"
definition FSMAGIC :: uint where [simp]: "FSMAGIC = 0x10203040"
definition NDIRECT :: nat where [simp]: "NDIRECT = 12"
definition NINDIRECT :: nat where [simp]: "NINDIRECT = BSIZE div 4"
definition MAXFILE :: nat where [simp]: "MAXFILE = NDIRECT + NINDIRECT"
definition DIRSIZ :: nat where [simp]: "DIRSIZ = 14"
definition T_DIR :: ushort where [simp]: "T_DIR = 1"
definition T_FILE :: ushort where [simp]: "T_FILE = 2"
definition T_DEVICE :: ushort where [simp]: "T_DEVICE = 3"

record superblock =
  sb_magic :: uint
  sb_size :: uint
  sb_nblocks :: uint
  sb_ninodes :: uint
  sb_nlog :: uint
  sb_logstart :: uint
  sb_inodestart :: uint
  sb_bmapstart :: uint

text \<open>The on-disk inode, and its place and layout in a block: 64 bytes each.\<close>

record dinode =
  d_type :: ushort
  d_major :: ushort
  d_minor :: ushort
  d_nlink :: ushort
  d_size :: uint
  d_addrs :: "uint list"

definition dinode_size :: nat where [simp]: "dinode_size = 64"
definition IPB :: nat where [simp]: "IPB = BSIZE div dinode_size"

definition IBLOCK :: "uint \<Rightarrow> superblock \<Rightarrow> uint" where
  "IBLOCK i b = i div of_nat IPB + sb_inodestart b"

definition BPB :: nat where [simp]: "BPB = BSIZE * 8"

definition BBLOCK :: "uint \<Rightarrow> superblock \<Rightarrow> uint" where
  "BBLOCK b sbk = b div of_nat BPB + sb_bmapstart sbk"

definition get_dinode :: "block \<Rightarrow> nat \<Rightarrow> dinode" where
  "get_dinode d off = \<lparr>d_type = get16 d off, d_major = get16 d (off + 2), d_minor = get16 d (off + 4), d_nlink = get16 d (off + 6),
     d_size = get32 d (off + 8), d_addrs = map (\<lambda>i. get32 d (off + 12 + 4 * i)) [0..<NDIRECT + 1]\<rparr>"

definition put_addrs :: "block \<Rightarrow> nat \<Rightarrow> uint list \<Rightarrow> block" where
  "put_addrs d off as = fold (\<lambda>i d. put32 d (off + 4 * i) (as ! i)) [0..<NDIRECT + 1] d"

definition put_dinode :: "block \<Rightarrow> nat \<Rightarrow> dinode \<Rightarrow> block" where
  "put_dinode d off x =
     put_addrs (put32 (put16 (put16 (put16 (put16 d off (d_type x)) (off + 2) (d_major x)) (off + 4) (d_minor x)) (off + 6) (d_nlink x))
       (off + 8) (d_size x)) (off + 12) (d_addrs x)"

definition inode_off :: "uint \<Rightarrow> nat" where
  "inode_off inum = (unat inum mod IPB) * dinode_size"

text \<open>A directory entry: the inode number and the name, 16 bytes.\<close>

record dirent =
  de_inum :: ushort
  de_name :: "uchar list"

definition dirent_size :: nat where [simp]: "dirent_size = 16"

definition get_dirent :: "uchar list \<Rightarrow> dirent" where
  "get_dirent bs = \<lparr>de_inum = get16 bs 0, de_name = take DIRSIZ (drop 2 bs)\<rparr>"

definition put_dirent :: "dirent \<Rightarrow> uchar list" where
  "put_dirent de = put16 (replicate 2 0) 0 (de_inum de) @ de_name de"

record stat =
  st_dev :: uint
  st_ino :: uint
  st_type :: ushort
  st_nlink :: ushort
  st_size :: uint64

section \<open>The inode table\<close>

record inode =
  idev :: uint
  inum :: uint
  iref :: int
  ilk :: sleeplock
  ivalid :: bool
  itype :: ushort
  imajor :: ushort
  iminor :: ushort
  inlink :: ushort
  isize :: uint
  iaddrs :: "uint list"

record fstate = lstate +
  sb :: superblock
  itable :: "nat \<Rightarrow> inode"

definition upd_inode :: "nat \<Rightarrow> (inode \<Rightarrow> inode) \<Rightarrow> 'a fstate_scheme \<Rightarrow> 'a fstate_scheme" where
  "upd_inode i f s = s\<lparr>itable := (itable s)(i := f (itable s i))\<rparr>"

section \<open>Blocks\<close>

definition readsb :: "nat \<Rightarrow> uint \<Rightarrow> 'a fstate_scheme \<Rightarrow> 'a fstate_scheme res" where
  "readsb p dev s =
     bindR (bread p dev 1 s) (\<lambda>(bp, s).
     let d = bdata (bufs s bp) in
     brelse p bp (s\<lparr>sb := \<lparr>sb_magic = get32 d 0, sb_size = get32 d 4, sb_nblocks = get32 d 8, sb_ninodes = get32 d 12,
       sb_nlog = get32 d 16, sb_logstart = get32 d 20, sb_inodestart = get32 d 24, sb_bmapstart = get32 d 28\<rparr>\<rparr>))"

text \<open>\<^verbatim>\<open>bp = bread(); change bp->data; log_write(bp); brelse(bp)\<close> ends like this.\<close>

definition log_brelse :: "nat \<Rightarrow> nat \<Rightarrow> 'a lstate_scheme \<Rightarrow> 'a lstate_scheme res" where
  "log_brelse p bp s = bindR (log_write bp s) (brelse p bp)"

definition bzero :: "nat \<Rightarrow> uint \<Rightarrow> uint \<Rightarrow> 'a lstate_scheme \<Rightarrow> 'a lstate_scheme res" where
  "bzero p dev bno s =
     bindR (bread p dev bno s) (\<lambda>(bp, s). log_brelse p bp (set_bdata bp (replicate BSIZE 0) s))"

definition bit_mask :: "nat \<Rightarrow> uchar" where
  "bit_mask bi = push_bit (bi mod 8) 1"

primrec balloc_loop :: "nat \<Rightarrow> uint \<Rightarrow> nat list \<Rightarrow> 'a fstate_scheme \<Rightarrow> (uint \<times> 'a fstate_scheme) res" where
  "balloc_loop p dev [] s = Ok (0, s)"
| "balloc_loop p dev (b # bs) s =
     bindR (bread p dev (BBLOCK (of_nat b) (sb s)) s) (\<lambda>(bp, s).
     let d = bdata (bufs s bp) in
     case find (\<lambda>bi. d ! (bi div 8) AND bit_mask bi = 0) [0..<min BPB (unat (sb_size (sb s)) - b)] of
       Some bi \<Rightarrow>
         bindR (log_brelse p bp (set_bdata bp (d[bi div 8 := d ! (bi div 8) OR bit_mask bi]) s)) (\<lambda>s.
         bindR (bzero p dev (of_nat (b + bi)) s) (\<lambda>s. Ok (of_nat (b + bi), s)))
     | None \<Rightarrow> bindR (brelse p bp s) (balloc_loop p dev bs))"

text \<open>The outer loop runs over the multiples of \<^verbatim>\<open>BPB\<close> below the size of the file system.\<close>

definition balloc :: "nat \<Rightarrow> uint \<Rightarrow> 'a fstate_scheme \<Rightarrow> (uint \<times> 'a fstate_scheme) res" where
  "balloc p dev s = balloc_loop p dev (map (\<lambda>k. k * BPB) [0..<(unat (sb_size (sb s)) + BPB - 1) div BPB]) s"

definition bfree :: "nat \<Rightarrow> uint \<Rightarrow> uint \<Rightarrow> 'a fstate_scheme \<Rightarrow> 'a fstate_scheme res" where
  "bfree p dev b s =
     bindR (bread p dev (BBLOCK b (sb s)) s) (\<lambda>(bp, s).
     let bi = unat b mod BPB; d = bdata (bufs s bp) in
     if d ! (bi div 8) AND bit_mask bi = 0 then Panic ''freeing free block''
     else log_brelse p bp (set_bdata bp (d[bi div 8 := d ! (bi div 8) AND NOT (bit_mask bi)]) s))"

section \<open>Inodes\<close>

definition iinit :: "'a fstate_scheme \<Rightarrow> 'a fstate_scheme" where
  "iinit s = fold (\<lambda>i. upd_inode i (\<lambda>x. x\<lparr>ilk := initsleeplock\<rparr>)) [0..<NINODE] s"

definition iget :: "uint \<Rightarrow> uint \<Rightarrow> 'a fstate_scheme \<Rightarrow> (nat \<times> 'a fstate_scheme) res" where
  "iget dev ino s =
     (case find (\<lambda>i. iref (itable s i) > 0 \<and> idev (itable s i) = dev \<and> inum (itable s i) = ino) [0..<NINODE] of
        Some i \<Rightarrow> Ok (i, upd_inode i (\<lambda>x. x\<lparr>iref := iref x + 1\<rparr>) s)
      | None \<Rightarrow>
        (case find (\<lambda>i. iref (itable s i) = 0) [0..<NINODE] of
           None \<Rightarrow> Panic ''iget: no inodes''
         | Some i \<Rightarrow> Ok (i, upd_inode i (\<lambda>x. x\<lparr>idev := dev, inum := ino, iref := 1, ivalid := False\<rparr>) s)))"

primrec ialloc_loop :: "nat \<Rightarrow> uint \<Rightarrow> ushort \<Rightarrow> nat list \<Rightarrow> 'a fstate_scheme \<Rightarrow> (nat option \<times> 'a fstate_scheme) res" where
  "ialloc_loop p dev type [] s = Ok (None, s)"
| "ialloc_loop p dev type (n # ns) s =
     (let ino = of_nat n in
      bindR (bread p dev (IBLOCK ino (sb s)) s) (\<lambda>(bp, s).
      let d = bdata (bufs s bp); off = inode_off ino in
      if d_type (get_dinode d off) = 0
      then bindR (log_brelse p bp (set_bdata bp (put_dinode d off \<lparr>d_type = type, d_major = 0, d_minor = 0, d_nlink = 0, d_size = 0,
               d_addrs = replicate (NDIRECT + 1) 0\<rparr>) s)) (\<lambda>s.
           bindR (iget dev ino s) (\<lambda>(i, s). Ok (Some i, s)))
      else bindR (brelse p bp s) (ialloc_loop p dev type ns)))"

definition ialloc :: "nat \<Rightarrow> uint \<Rightarrow> ushort \<Rightarrow> 'a fstate_scheme \<Rightarrow> (nat option \<times> 'a fstate_scheme) res" where
  "ialloc p dev type s = ialloc_loop p dev type [1..<unat (sb_ninodes (sb s))] s"

definition dinode_of :: "inode \<Rightarrow> dinode" where
  "dinode_of x = \<lparr>d_type = itype x, d_major = imajor x, d_minor = iminor x, d_nlink = inlink x, d_size = isize x, d_addrs = iaddrs x\<rparr>"

definition iupdate :: "nat \<Rightarrow> nat \<Rightarrow> 'a fstate_scheme \<Rightarrow> 'a fstate_scheme res" where
  "iupdate p ip s =
     (let x = itable s ip in
      bindR (bread p (idev x) (IBLOCK (inum x) (sb s)) s) (\<lambda>(bp, s).
      log_brelse p bp (set_bdata bp (put_dinode (bdata (bufs s bp)) (inode_off (inum x)) (dinode_of x)) s)))"

definition idup :: "nat \<Rightarrow> 'a fstate_scheme \<Rightarrow> 'a fstate_scheme" where
  "idup ip s = upd_inode ip (\<lambda>x. x\<lparr>iref := iref x + 1\<rparr>) s"

definition load_dinode :: "dinode \<Rightarrow> inode \<Rightarrow> inode" where
  "load_dinode d x = x\<lparr>itype := d_type d, imajor := d_major d, iminor := d_minor d, inlink := d_nlink d, isize := d_size d, iaddrs := d_addrs d\<rparr>"

definition ilock :: "nat \<Rightarrow> nat \<Rightarrow> 'a fstate_scheme \<Rightarrow> 'a fstate_scheme res" where
  "ilock p ip s =
     (if iref (itable s ip) < 1 then Panic ''ilock''
      else bindR (acquiresleep (mypid s p) (ilk (itable s ip))) (\<lambda>lk.
      let s = upd_inode ip (\<lambda>x. x\<lparr>ilk := lk\<rparr>) s; x = itable s ip in
      if ivalid x then Ok s
      else bindR (bread p (idev x) (IBLOCK (inum x) (sb s)) s) (\<lambda>(bp, s).
           let s = upd_inode ip (load_dinode (get_dinode (bdata (bufs s bp)) (inode_off (inum x)))) s in
           bindR (brelse p bp s) (\<lambda>s.
           let s = upd_inode ip (\<lambda>x. x\<lparr>ivalid := True\<rparr>) s in
           if itype (itable s ip) = 0 then Panic ''ilock: no type'' else Ok s))))"

definition irelease :: "nat \<Rightarrow> nat \<Rightarrow> 'a fstate_scheme \<Rightarrow> 'a fstate_scheme" where
  "irelease p ip s =
     (let (lk, s) = releasesleep (Some p) (ChanInode ip) (ilk (itable s ip)) s in upd_inode ip (\<lambda>x. x\<lparr>ilk := lk\<rparr>) s)"

definition iunlock :: "nat \<Rightarrow> nat \<Rightarrow> 'a fstate_scheme \<Rightarrow> 'a fstate_scheme res" where
  "iunlock p ip s =
     (if \<not> holdingsleep (mypid s p) (ilk (itable s ip)) \<or> iref (itable s ip) < 1 then Panic ''iunlock''
      else Ok (irelease p ip s))"

text \<open>Truncation: the direct blocks, then the blocks listed in the indirect block and that block itself.\<close>

definition itrunc_direct :: "nat \<Rightarrow> nat \<Rightarrow> nat \<Rightarrow> 'a fstate_scheme \<Rightarrow> 'a fstate_scheme res" where
  "itrunc_direct p ip i s =
     (let x = itable s ip in
      if iaddrs x ! i \<noteq> 0
      then bindR (bfree p (idev x) (iaddrs x ! i) s) (\<lambda>s. Ok (upd_inode ip (\<lambda>x. x\<lparr>iaddrs := (iaddrs x)[i := 0]\<rparr>) s))
      else Ok s)"

definition itrunc_indirect :: "nat \<Rightarrow> nat \<Rightarrow> 'a fstate_scheme \<Rightarrow> 'a fstate_scheme res" where
  "itrunc_indirect p ip s =
     (let x = itable s ip; a = iaddrs x ! NDIRECT in
      if a \<noteq> 0
      then bindR (bread p (idev x) a s) (\<lambda>(bp, s).
           bindR (foldR (\<lambda>j s. let v = get32 (bdata (bufs s bp)) (4 * j) in
                    if v \<noteq> 0 then bfree p (idev x) v s else Ok s) [0..<NINDIRECT] s) (\<lambda>s.
           bindR (brelse p bp s) (\<lambda>s.
           bindR (bfree p (idev x) a s) (\<lambda>s.
           Ok (upd_inode ip (\<lambda>x. x\<lparr>iaddrs := (iaddrs x)[NDIRECT := 0]\<rparr>) s)))))
      else Ok s)"

definition itrunc :: "nat \<Rightarrow> nat \<Rightarrow> 'a fstate_scheme \<Rightarrow> 'a fstate_scheme res" where
  "itrunc p ip s =
     bindR (foldR (itrunc_direct p ip) [0..<NDIRECT] s) (\<lambda>s.
     bindR (itrunc_indirect p ip s) (\<lambda>s.
     iupdate p ip (upd_inode ip (\<lambda>x. x\<lparr>isize := 0\<rparr>) s)))"

definition iput :: "nat \<Rightarrow> nat \<Rightarrow> 'a fstate_scheme \<Rightarrow> 'a fstate_scheme res" where
  "iput p ip s =
     (let x = itable s ip in
      bindR (if iref x = 1 \<and> ivalid x \<and> inlink x = 0
             then bindR (acquiresleep (mypid s p) (ilk x)) (\<lambda>lk.
                  bindR (itrunc p ip (upd_inode ip (\<lambda>x. x\<lparr>ilk := lk\<rparr>) s)) (\<lambda>s.
                  bindR (iupdate p ip (upd_inode ip (\<lambda>x. x\<lparr>itype := 0\<rparr>) s)) (\<lambda>s.
                  Ok (irelease p ip (upd_inode ip (\<lambda>x. x\<lparr>ivalid := False\<rparr>) s)))))
             else Ok s) (\<lambda>s.
      Ok (upd_inode ip (\<lambda>x. x\<lparr>iref := iref x - 1\<rparr>) s)))"

definition iunlockput :: "nat \<Rightarrow> nat \<Rightarrow> 'a fstate_scheme \<Rightarrow> 'a fstate_scheme res" where
  "iunlockput p ip s = bindR (iunlock p ip s) (iput p ip)"

definition ireclaim_one :: "nat \<Rightarrow> uint \<Rightarrow> nat \<Rightarrow> 'a fstate_scheme \<Rightarrow> 'a fstate_scheme res" where
  "ireclaim_one p dev n s =
     (let ino = of_nat n in
      bindR (bread p dev (IBLOCK ino (sb s)) s) (\<lambda>(bp, s).
      let d = get_dinode (bdata (bufs s bp)) (inode_off ino) in
      bindR (if d_type d \<noteq> 0 \<and> d_nlink d = 0 then bindR (iget dev ino s) (\<lambda>(i, s). Ok (Some i, s)) else Ok (None, s)) (\<lambda>(ip, s).
      bindR (brelse p bp s) (\<lambda>s.
      case ip of None \<Rightarrow> Ok s
      | Some i \<Rightarrow> bindR (begin_op s) (\<lambda>s. bindR (ilock p i s) (\<lambda>s. bindR (iunlock p i s) (\<lambda>s. bindR (iput p i s) (end_op p))))))))"

definition ireclaim :: "nat \<Rightarrow> uint \<Rightarrow> 'a fstate_scheme \<Rightarrow> 'a fstate_scheme res" where
  "ireclaim p dev s = foldR (ireclaim_one p dev) [1..<unat (sb_ninodes (sb s))] s"

definition fsinit :: "nat \<Rightarrow> uint \<Rightarrow> 'a fstate_scheme \<Rightarrow> 'a fstate_scheme res" where
  "fsinit p dev s =
     bindR (readsb p dev s) (\<lambda>s.
     if sb_magic (sb s) \<noteq> FSMAGIC then Panic ''invalid file system''
     else bindR (initlog p dev (sb_logstart (sb s)) s) (ireclaim p dev))"

section \<open>File contents\<close>

definition bmap :: "nat \<Rightarrow> nat \<Rightarrow> uint \<Rightarrow> 'a fstate_scheme \<Rightarrow> (uint \<times> 'a fstate_scheme) res" where
  "bmap p ip bn s =
     (let n = unat bn; alloc_at = (\<lambda>k s. let a = iaddrs (itable s ip) ! k in
        if a \<noteq> 0 then Ok (a, s)
        else bindR (balloc p (idev (itable s ip)) s) (\<lambda>(a, s).
          if a = 0 then Ok (0, s) else Ok (a, upd_inode ip (\<lambda>x. x\<lparr>iaddrs := (iaddrs x)[k := a]\<rparr>) s)))
      in if n < NDIRECT then alloc_at n s
      else if n - NDIRECT < NINDIRECT
      then bindR (alloc_at NDIRECT s) (\<lambda>(a, s).
           if a = 0 then Ok (0, s)
           else bindR (bread p (idev (itable s ip)) a s) (\<lambda>(bp, s).
                let v = get32 (bdata (bufs s bp)) (4 * (n - NDIRECT)) in
                bindR (if v \<noteq> 0 then Ok (v, s)
                       else bindR (balloc p (idev (itable s ip)) s) (\<lambda>(v, s).
                            if v = 0 then Ok (0, s)
                            else bindR (log_write bp (set_bdata bp (put32 (bdata (bufs s bp)) (4 * (n - NDIRECT)) v) s)) (\<lambda>s. Ok (v, s))))
                      (\<lambda>(v, s). bindR (brelse p bp s) (\<lambda>s. Ok (v, s)))))
      else Panic ''bmap: out of range'')"

definition stati :: "'a fstate_scheme \<Rightarrow> nat \<Rightarrow> stat" where
  "stati s ip = (let x = itable s ip in
     \<lparr>st_dev = idev x, st_ino = inum x, st_type = itype x, st_nlink = inlink x, st_size = ucast (isize x)\<rparr>)"

text \<open>
  Where \<^verbatim>\<open>readi()\<close> puts the bytes and \<^verbatim>\<open>writei()\<close> takes them: a user address, a kernel address, or a
  local variable of the caller, which for \<^verbatim>\<open>writei()\<close> holds the given bytes. \<^verbatim>\<open>readi()\<close> also returns the
  bytes it has delivered, from which a caller with a local variable takes its value.
\<close>

datatype place = User uint64 | Kern uint64 | Local "uchar list"

fun advance :: "uint \<Rightarrow> place \<Rightarrow> place" where
  "advance m (User a) = User (a + ucast m)"
| "advance m (Kern a) = Kern (a + ucast m)"
| "advance m (Local bs) = Local (drop (unat m) bs)"

fun copy_to :: "nat \<Rightarrow> place \<Rightarrow> uchar list \<Rightarrow> 'a kstate_scheme \<Rightarrow> (int \<times> 'a kstate_scheme) res" where
  "copy_to p (User a) bs s = either_copyout p True a bs s"
| "copy_to p (Kern a) bs s = either_copyout p False a bs s"
| "copy_to p (Local _) bs s = Ok (0, s)"

fun copy_from :: "nat \<Rightarrow> place \<Rightarrow> nat \<Rightarrow> 'a kstate_scheme \<Rightarrow> (int \<times> uchar list \<times> 'a kstate_scheme) res" where
  "copy_from p (User a) n s = either_copyin p True a n s"
| "copy_from p (Kern a) n s = either_copyin p False a n s"
| "copy_from p (Local bs) n s = Ok (0, take n bs, s)"

primrec readi_loop :: "nat \<Rightarrow> nat \<Rightarrow> nat \<Rightarrow> place \<Rightarrow> uint \<Rightarrow> uint \<Rightarrow> uint \<Rightarrow> uchar list \<Rightarrow>
    'a fstate_scheme \<Rightarrow> (uint \<times> uchar list \<times> 'a fstate_scheme) res" where
  "readi_loop 0 p ip dst off n tot acc s = OutOfFuel"
| "readi_loop (Suc k) p ip dst off n tot acc s =
     (if tot < n
      then bindR (bmap p ip (off div of_nat BSIZE) s) (\<lambda>(addr, s).
           if addr = 0 then Ok (tot, acc, s)
           else bindR (bread p (idev (itable s ip)) addr s) (\<lambda>(bp, s).
                let m = min (n - tot) (of_nat BSIZE - off mod of_nat BSIZE);
                    bs = take (unat m) (drop (unat off mod BSIZE) (bdata (bufs s bp)))
                in bindR (copy_to p dst bs s) (\<lambda>(r, s).
                   if r = -1 then bindR (brelse p bp s) (\<lambda>s. Ok (-1, acc, s))
                   else bindR (brelse p bp s) (readi_loop k p ip (advance m dst) (off + m) n (tot + m) (acc @ bs)))))
      else Ok (tot, acc, s))"

definition readi :: "nat \<Rightarrow> nat \<Rightarrow> place \<Rightarrow> uint \<Rightarrow> uint \<Rightarrow> 'a fstate_scheme \<Rightarrow> (uint \<times> uchar list \<times> 'a fstate_scheme) res" where
  "readi p ip dst off n s =
     (let fsz = isize (itable s ip) in
      if off > fsz \<or> off + n < off then Ok (0, [], s)
      else let n = (if off + n > fsz then fsz - off else n) in readi_loop (unat n + 1) p ip dst off n 0 [] s)"

primrec writei_loop :: "nat \<Rightarrow> nat \<Rightarrow> nat \<Rightarrow> place \<Rightarrow> uint \<Rightarrow> uint \<Rightarrow> uint \<Rightarrow>
    'a fstate_scheme \<Rightarrow> (uint \<times> uint \<times> 'a fstate_scheme) res" where
  "writei_loop 0 p ip src off n tot s = OutOfFuel"
| "writei_loop (Suc k) p ip src off n tot s =
     (if tot < n
      then bindR (bmap p ip (off div of_nat BSIZE) s) (\<lambda>(addr, s).
           if addr = 0 then Ok (tot, off, s)
           else bindR (bread p (idev (itable s ip)) addr s) (\<lambda>(bp, s).
                let m = min (n - tot) (of_nat BSIZE - off mod of_nat BSIZE); o0 = unat off mod BSIZE
                in bindR (copy_from p src (unat m) s) (\<lambda>(r, bs, s).
                   let d = bdata (bufs s bp); s = set_bdata bp (take o0 d @ bs @ drop (o0 + length bs) d) s in
                   if r = -1 then bindR (brelse p bp s) (\<lambda>s. Ok (tot, off, s))
                   else bindR (log_brelse p bp s) (writei_loop k p ip (advance m src) (off + m) n (tot + m)))))
      else Ok (tot, off, s))"

definition writei :: "nat \<Rightarrow> nat \<Rightarrow> place \<Rightarrow> uint \<Rightarrow> uint \<Rightarrow> 'a fstate_scheme \<Rightarrow> (uint \<times> 'a fstate_scheme) res" where
  "writei p ip src off n s =
     (if off > isize (itable s ip) \<or> off + n < off then Ok (-1, s)
      else if off + n > of_nat (MAXFILE * BSIZE) then Ok (-1, s)
      else bindR (writei_loop (unat n + 1) p ip src off n 0 s) (\<lambda>(tot, off, s).
           let s = (if off > isize (itable s ip) then upd_inode ip (\<lambda>x. x\<lparr>isize := off\<rparr>) s else s) in
           bindR (iupdate p ip s) (\<lambda>s. Ok (tot, s))))"

section \<open>Directories\<close>

text \<open>\<^verbatim>\<open>strncmp()\<close> and \<^verbatim>\<open>strncpy()\<close> on strings given by the bytes before their NUL.\<close>

primrec strncmp_bytes :: "uchar list \<Rightarrow> uchar list \<Rightarrow> nat \<Rightarrow> int" where
  "strncmp_bytes s t 0 = 0"
| "strncmp_bytes s t (Suc n) =
     (let c = (case s of [] \<Rightarrow> 0 | c # _ \<Rightarrow> c); d = (case t of [] \<Rightarrow> 0 | d # _ \<Rightarrow> d) in
      if c \<noteq> 0 \<and> c = d then strncmp_bytes (drop 1 s) (drop 1 t) n else uint c - uint d)"

definition namecmp :: "uchar list \<Rightarrow> uchar list \<Rightarrow> int" where
  "namecmp s t = strncmp_bytes s t DIRSIZ"

definition strncpy_bytes :: "uchar list \<Rightarrow> nat \<Rightarrow> uchar list" where
  "strncpy_bytes t n = (let u = take n (takeWhile (\<lambda>c. c \<noteq> 0) t) in u @ replicate (n - length u) 0)"

definition dir_offs :: "uint \<Rightarrow> uint list" where
  "dir_offs dsize = map (\<lambda>k. of_nat (k * dirent_size)) [0..<(unat dsize + dirent_size - 1) div dirent_size]"

primrec dirlookup_loop :: "nat \<Rightarrow> nat \<Rightarrow> uchar list \<Rightarrow> uint list \<Rightarrow> 'a fstate_scheme \<Rightarrow> ((nat \<times> uint) option \<times> 'a fstate_scheme) res" where
  "dirlookup_loop p dp name [] s = Ok (None, s)"
| "dirlookup_loop p dp name (off # offs) s =
     bindR (readi p dp (Local []) off (of_nat dirent_size) s) (\<lambda>(r, bs, s).
     if r \<noteq> of_nat dirent_size then Panic ''dirlookup read''
     else let de = get_dirent bs in
       if de_inum de = 0 then dirlookup_loop p dp name offs s
       else if namecmp name (de_name de) = 0
       then bindR (iget (idev (itable s dp)) (ucast (de_inum de)) s) (\<lambda>(ip, s). Ok (Some (ip, off), s))
       else dirlookup_loop p dp name offs s)"

definition dirlookup :: "nat \<Rightarrow> nat \<Rightarrow> uchar list \<Rightarrow> 'a fstate_scheme \<Rightarrow> ((nat \<times> uint) option \<times> 'a fstate_scheme) res" where
  "dirlookup p dp name s =
     (if itype (itable s dp) \<noteq> T_DIR then Panic ''dirlookup not DIR''
      else dirlookup_loop p dp name (dir_offs (isize (itable s dp))) s)"

text \<open>The offset of the first free entry of a directory, or its end.\<close>

primrec empty_dirent :: "nat \<Rightarrow> nat \<Rightarrow> uint list \<Rightarrow> uint \<Rightarrow> 'a fstate_scheme \<Rightarrow> (uint \<times> 'a fstate_scheme) res" where
  "empty_dirent p dp [] off s = Ok (off, s)"
| "empty_dirent p dp (o1 # offs) off s =
     bindR (readi p dp (Local []) o1 (of_nat dirent_size) s) (\<lambda>(r, bs, s).
     if r \<noteq> of_nat dirent_size then Panic ''dirlink read''
     else if de_inum (get_dirent bs) = 0 then Ok (o1, s) else empty_dirent p dp offs (o1 + of_nat dirent_size) s)"

definition dirlink :: "nat \<Rightarrow> nat \<Rightarrow> uchar list \<Rightarrow> uint \<Rightarrow> 'a fstate_scheme \<Rightarrow> (int \<times> 'a fstate_scheme) res" where
  "dirlink p dp name ino s =
     bindR (dirlookup p dp name s) (\<lambda>(r, s).
     case r of Some (ip, _) \<Rightarrow> bindR (iput p ip s) (\<lambda>s. Ok (-1, s))
     | None \<Rightarrow>
       bindR (empty_dirent p dp (dir_offs (isize (itable s dp))) 0 s) (\<lambda>(off, s).
       bindR (writei p dp (Local (put_dirent \<lparr>de_inum = ucast ino, de_name = strncpy_bytes name DIRSIZ\<rparr>)) off (of_nat dirent_size) s) (\<lambda>(r, s).
       if r \<noteq> of_nat dirent_size then Ok (-1, s) else Ok (0, s))))"

section \<open>Paths\<close>

definition slash :: uchar where [simp]: "slash = 47"

definition skipelem :: "uchar list \<Rightarrow> (uchar list \<times> uchar list) option" where
  "skipelem path =
     (let path = dropWhile (\<lambda>c. c = slash) path in
      if path = [] then None
      else Some (take DIRSIZ (takeWhile (\<lambda>c. c \<noteq> slash) path),
                 dropWhile (\<lambda>c. c = slash) (dropWhile (\<lambda>c. c \<noteq> slash) path)))"

lemma skipelem_shorter [termination_simp]:
  assumes "skipelem path = Some (name, rest)"
  shows "length rest < length path"
proof -
  let ?q = "dropWhile (\<lambda>c. c = slash) path"
  have ne: "?q \<noteq> []" and rest: "rest = dropWhile (\<lambda>c. c = slash) (dropWhile (\<lambda>c. c \<noteq> slash) ?q)"
    using assms by (auto simp: skipelem_def Let_def split: if_splits)
  have "length rest \<le> length (dropWhile (\<lambda>c. c \<noteq> slash) ?q)" unfolding rest by (rule length_dropWhile_le)
  also have "\<dots> \<le> length (tl ?q)" using ne hd_dropWhile [OF ne] by (cases ?q) (auto simp: length_dropWhile_le)
  also have "\<dots> < length ?q" using ne by simp
  also have "\<dots> \<le> length path" by (rule length_dropWhile_le)
  finally show ?thesis .
qed

function namex_loop :: "nat \<Rightarrow> bool \<Rightarrow> uchar list \<Rightarrow> uchar list \<Rightarrow> nat \<Rightarrow> 'a fstate_scheme \<Rightarrow>
    ((nat \<times> uchar list) option \<times> 'a fstate_scheme) res" where
  "namex_loop p nameiparent path name ip s =
     (case skipelem path of
        None \<Rightarrow> if nameiparent then bindR (iput p ip s) (\<lambda>s. Ok (None, s)) else Ok (Some (ip, name), s)
      | Some (name, path) \<Rightarrow>
        bindR (ilock p ip s) (\<lambda>s.
        if itype (itable s ip) \<noteq> T_DIR then bindR (iunlockput p ip s) (\<lambda>s. Ok (None, s))
        else if nameiparent \<and> path = [] then bindR (iunlock p ip s) (\<lambda>s. Ok (Some (ip, name), s))
        else bindR (dirlookup p ip name s) (\<lambda>(r, s).
          case r of None \<Rightarrow> bindR (iunlockput p ip s) (\<lambda>s. Ok (None, s))
          | Some (nxt, _) \<Rightarrow> bindR (iunlockput p ip s) (namex_loop p nameiparent path name nxt))))"
  by pat_completeness auto
termination by (relation "measure (\<lambda>(p, np, path, name, ip, s). length path)") (auto intro: skipelem_shorter)

text \<open>Following a null pointer faults in the kernel, and \<^verbatim>\<open>kerneltrap()\<close> panics.\<close>

definition deref :: "'b option \<Rightarrow> 'b res" where
  "deref q = (case q of None \<Rightarrow> Panic ''kerneltrap'' | Some x \<Rightarrow> Ok x)"

definition namex :: "nat \<Rightarrow> uchar list \<Rightarrow> bool \<Rightarrow> 'a fstate_scheme \<Rightarrow> ((nat \<times> uchar list) option \<times> 'a fstate_scheme) res" where
  "namex p path nameiparent s =
     (if path \<noteq> [] \<and> path ! 0 = slash
      then bindR (iget ROOTDEV ROOTINO s) (\<lambda>(ip, s). namex_loop p nameiparent path [] ip s)
      else bindR (deref (cwd (procs s p))) (\<lambda>ip. namex_loop p nameiparent path [] ip (idup ip s)))"

definition namei :: "nat \<Rightarrow> uchar list \<Rightarrow> 'a fstate_scheme \<Rightarrow> (nat option \<times> 'a fstate_scheme) res" where
  "namei p path s = bindR (namex p path False s) (\<lambda>(r, s). Ok (map_option fst r, s))"

definition nameiparent :: "nat \<Rightarrow> uchar list \<Rightarrow> 'a fstate_scheme \<Rightarrow> ((nat \<times> uchar list) option \<times> 'a fstate_scheme) res" where
  "nameiparent p path s = namex p path True s"

end
