(* ===== verification/Pipe.thy ===== *)
theory Pipe
  imports Fs
begin

text \<open>
  Pipes (\<^verbatim>\<open>kernel/pipe.c\<close>) and the table of open files they share with \<^verbatim>\<open>kernel/file.c\<close>. A \<^verbatim>\<open>struct file *\<close> is
  an index into the file table. A \<^verbatim>\<open>struct pipe\<close> lives in a page of its own; the model keeps it
  apart from the bytes of memory, under the address of the page. Reading an empty pipe and writing a
  full one sleep: the call is \<open>Blocked\<close>.
\<close>

section \<open>Open files and pipes\<close>

datatype filetype = FD_NONE | FD_PIPE | FD_INODE | FD_DEVICE

record file_obj =
  ftype :: filetype
  fref :: int
  readable :: bool
  writable :: bool
  fpipe :: uint64
  fip :: nat
  foff :: uint
  fmajor :: ushort

definition PIPESIZE :: nat where [simp]: "PIPESIZE = 512"

record pipe =
  pdata :: "uchar list"
  nread :: uint
  nwrite :: uint
  readopen :: bool
  writeopen :: bool

record kernel = fstate +
  ftable :: "nat \<Rightarrow> file_obj"
  pipes :: "uint64 \<Rightarrow> pipe"

definition upd_file :: "nat \<Rightarrow> (file_obj \<Rightarrow> file_obj) \<Rightarrow> 'a kernel_scheme \<Rightarrow> 'a kernel_scheme" where
  "upd_file f g s = s\<lparr>ftable := (ftable s)(f := g (ftable s f))\<rparr>"

definition upd_pipe :: "uint64 \<Rightarrow> (pipe \<Rightarrow> pipe) \<Rightarrow> 'a kernel_scheme \<Rightarrow> 'a kernel_scheme" where
  "upd_pipe a g s = s\<lparr>pipes := (pipes s)(a := g (pipes s a))\<rparr>"

definition filealloc :: "'a kernel_scheme \<Rightarrow> nat option \<times> 'a kernel_scheme" where
  "filealloc s =
     (case find (\<lambda>f. fref (ftable s f) = 0) [0..<NFILE] of
        None \<Rightarrow> (None, s) | Some f \<Rightarrow> (Some f, upd_file f (\<lambda>x. x\<lparr>fref := 1\<rparr>) s))"

section \<open>The ring buffer\<close>

text \<open>
  What the two loops do to the pipe: the byte counters run freely modulo $2^{32}$, the buffer is
  indexed modulo its size.
\<close>

definition pipe_empty :: "pipe \<Rightarrow> bool" where
  "pipe_empty pi \<longleftrightarrow> nread pi = nwrite pi"

definition pipe_full :: "pipe \<Rightarrow> bool" where
  "pipe_full pi \<longleftrightarrow> nwrite pi = nread pi + of_nat PIPESIZE"

definition pipe_put :: "uchar \<Rightarrow> pipe \<Rightarrow> pipe" where
  "pipe_put ch pi = pi\<lparr>pdata := (pdata pi)[unat (nwrite pi) mod PIPESIZE := ch], nwrite := nwrite pi + 1\<rparr>"

definition pipe_peek :: "pipe \<Rightarrow> uchar" where
  "pipe_peek pi = pdata pi ! (unat (nread pi) mod PIPESIZE)"

definition pipe_drop :: "pipe \<Rightarrow> pipe" where
  "pipe_drop pi = pi\<lparr>nread := nread pi + 1\<rparr>"

section \<open>pipe.c\<close>

definition pipe_init :: pipe where
  "pipe_init = \<lparr>pdata = replicate PIPESIZE 5, nread = 0, nwrite = 0, readopen = True, writeopen = True\<rparr>"

definition pipeclose :: "nat \<Rightarrow> uint64 \<Rightarrow> bool \<Rightarrow> 'a kernel_scheme \<Rightarrow> 'a kernel_scheme res" where
  "pipeclose p pi wr s =
     (let s = (if wr then wakeup (Some p) (ChanNread pi) (upd_pipe pi (\<lambda>x. x\<lparr>writeopen := False\<rparr>) s)
               else wakeup (Some p) (ChanNwrite pi) (upd_pipe pi (\<lambda>x. x\<lparr>readopen := False\<rparr>) s)) in
      if \<not> readopen (pipes s pi) \<and> \<not> writeopen (pipes s pi) then on_ph (\<lambda>h. kfree h pi) s else Ok s)"

text \<open>
  The loop of \<^verbatim>\<open>pipewrite()\<close> with \<open>k\<close> bytes to go and \<open>i\<close> written. The flag says that the loop was left
  to the \<^verbatim>\<open>wakeup()\<close> below it, not by the early return.
\<close>

primrec pipewrite_loop :: "nat \<Rightarrow> nat \<Rightarrow> uint64 \<Rightarrow> uint64 \<Rightarrow> int \<Rightarrow> 'a kernel_scheme \<Rightarrow> (bool \<times> int \<times> 'a kernel_scheme) res" where
  "pipewrite_loop 0 p pi addr i s = Ok (True, i, s)"
| "pipewrite_loop (Suc k) p pi addr i s =
     (if \<not> readopen (pipes s pi) \<or> killed s p \<noteq> 0 then Ok (False, -1, s)
      else if pipe_full (pipes s pi) then Blocked ''pipewrite''
      else bindR (either_copyin p True (addr + of_int i) 1 s) (\<lambda>(r, bs, s).
           if r = -1 then Ok (True, i, s)
           else pipewrite_loop k p pi addr (i + 1) (upd_pipe pi (pipe_put (bs ! 0)) s)))"

definition pipewrite :: "nat \<Rightarrow> uint64 \<Rightarrow> uint64 \<Rightarrow> int \<Rightarrow> 'a kernel_scheme \<Rightarrow> (int \<times> 'a kernel_scheme) res" where
  "pipewrite p pi addr n s =
     bindR (pipewrite_loop (nat n) p pi addr 0 s) (\<lambda>(fin, i, s).
     Ok (i, if fin then wakeup (Some p) (ChanNread pi) s else s))"

primrec piperead_loop :: "nat \<Rightarrow> nat \<Rightarrow> uint64 \<Rightarrow> uint64 \<Rightarrow> int \<Rightarrow> 'a kernel_scheme \<Rightarrow> (int \<times> 'a kernel_scheme) res" where
  "piperead_loop 0 p pi addr i s = Ok (i, s)"
| "piperead_loop (Suc k) p pi addr i s =
     (if pipe_empty (pipes s pi) then Ok (i, s)
      else bindR (either_copyout p True (addr + of_int i) [pipe_peek (pipes s pi)] s) (\<lambda>(r, s).
           if r = -1 then Ok (if i = 0 then -1 else i, s)
           else piperead_loop k p pi addr (i + 1) (upd_pipe pi pipe_drop s)))"

definition piperead :: "nat \<Rightarrow> uint64 \<Rightarrow> uint64 \<Rightarrow> int \<Rightarrow> 'a kernel_scheme \<Rightarrow> (int \<times> 'a kernel_scheme) res" where
  "piperead p pi addr n s =
     (if pipe_empty (pipes s pi) \<and> writeopen (pipes s pi)
      then if killed s p \<noteq> 0 then Ok (-1, s) else Blocked ''piperead''
      else bindR (piperead_loop (nat n) p pi addr 0 s) (\<lambda>(i, s). Ok (i, wakeup (Some p) (ChanNwrite pi) s)))"

section \<open>A bounded queue\<close>

text \<open>
  The contract of a ring buffer, as its readers and writers use it: the bytes in it, oldest first; the
  tests for empty and full; what putting and taking a byte do to that sequence.
\<close>

locale ring =
  fixes inv :: "'r \<Rightarrow> bool" and cont :: "'r \<Rightarrow> uchar list" and cap :: nat
    and isempty :: "'r \<Rightarrow> bool" and isfull :: "'r \<Rightarrow> bool"
    and put :: "uchar \<Rightarrow> 'r \<Rightarrow> 'r" and peek :: "'r \<Rightarrow> uchar" and dropf :: "'r \<Rightarrow> 'r"
  assumes bound: "inv r \<Longrightarrow> length (cont r) \<le> cap"
    and empty_iff: "inv r \<Longrightarrow> isempty r \<longleftrightarrow> cont r = []"
    and full_iff: "inv r \<Longrightarrow> isfull r \<longleftrightarrow> length (cont r) = cap"
    and put_ok: "inv r \<Longrightarrow> \<not> isfull r \<Longrightarrow> inv (put c r) \<and> cont (put c r) = cont r @ [c]"
    and drop_ok: "inv r \<Longrightarrow> \<not> isempty r \<Longrightarrow> inv (dropf r) \<and> cont r = peek r # cont (dropf r)"
begin

text \<open>Whatever is put, as long as there is room, comes out again in that order.\<close>

primrec puts :: "uchar list \<Rightarrow> 'r \<Rightarrow> 'r" where
  "puts [] r = r"
| "puts (c # cs) r = puts cs (put c r)"

primrec takes :: "nat \<Rightarrow> 'r \<Rightarrow> uchar list \<times> 'r" where
  "takes 0 r = ([], r)"
| "takes (Suc n) r = (let (cs, r') = takes n (dropf r) in (peek r # cs, r'))"

lemma puts_ok: "inv r \<Longrightarrow> length (cont r) + length cs \<le> cap \<Longrightarrow> inv (puts cs r) \<and> cont (puts cs r) = cont r @ cs"
proof (induction cs arbitrary: r)
  case (Cons c cs)
  have "\<not> isfull r" using Cons.prems full_iff by auto
  then have "inv (put c r)" "cont (put c r) = cont r @ [c]" using put_ok Cons.prems(1) by auto
  then show ?case using Cons.IH [of "put c r"] Cons.prems by simp
qed simp

lemma takes_ok: "inv r \<Longrightarrow> n \<le> length (cont r) \<Longrightarrow>
  fst (takes n r) = take n (cont r) \<and> inv (snd (takes n r)) \<and> cont (snd (takes n r)) = drop n (cont r)"
proof (induction n arbitrary: r)
  case (Suc n)
  have "\<not> isempty r" using Suc.prems empty_iff by auto
  then have d: "inv (dropf r)" "cont r = peek r # cont (dropf r)" using drop_ok Suc.prems(1) by auto
  then show ?case using Suc.IH [of "dropf r"] Suc.prems by (simp add: split_beta)
qed simp

end

text \<open>The bytes in a pipe: from the read counter on, as many as the counters differ.\<close>

definition pipe_inv :: "pipe \<Rightarrow> bool" where
  "pipe_inv pi \<longleftrightarrow> length (pdata pi) = PIPESIZE \<and> unat (nwrite pi - nread pi) \<le> PIPESIZE"

definition pipe_bytes :: "pipe \<Rightarrow> uchar list" where
  "pipe_bytes pi = map (\<lambda>k. pdata pi ! (unat (nread pi + of_nat k) mod PIPESIZE)) [0..<unat (nwrite pi - nread pi)]"

lemma ring_index:
  assumes "k < 512"
  shows "unat (w + of_nat k :: uint) mod 512 = (unat w + k) mod 512"
proof -
  have "unat (w + of_nat k) = (unat w + k) mod 2 ^ 32"
    by (simp add: unat_word_ariths unat_of_nat take_bit_nat_def mod_simps)
  then show ?thesis by (simp add: mod_mod_cancel)
qed

lemma mod_shift_neq:
  assumes "(k :: nat) < n" and "n < k + m"
  shows "(a + k) mod m \<noteq> (a + n) mod m"
proof
  assume "(a + k) mod m = (a + n) mod m"
  then have "m dvd (a + n) - (a + k)" using assms(1) by (metis less_imp_le_nat mod_eq_dvd_iff_nat nat_add_left_cancel_le)
  then show False using assms nat_dvd_not_less [of "n - k" m] by simp
qed

lemma pipe_count:
  assumes "unat (nwrite pi - nread pi) = n"
  shows "nwrite pi = nread pi + of_nat n"
  unfolding assms [symmetric] by simp

lemma unat_plus_one: "unat (w :: uint) \<le> 512 \<Longrightarrow> unat (w + 1) = unat w + 1"
  by (subst unat_word_ariths) simp

lemma pipe_put_ok:
  assumes inv: "pipe_inv pi" and nf: "\<not> pipe_full pi"
  shows "pipe_inv (pipe_put c pi) \<and> pipe_bytes (pipe_put c pi) = pipe_bytes pi @ [c]"
proof -
  define n where "n = unat (nwrite pi - nread pi)"
  have w: "nwrite pi = nread pi + of_nat n" by (rule pipe_count) (simp add: n_def)
  have le: "n \<le> 512" "length (pdata pi) = 512" using inv by (auto simp: pipe_inv_def n_def)
  have "n \<noteq> 512" using nf w by (auto simp: pipe_full_def)
  with le have lt: "n < 512" by simp
  have n': "unat (nwrite (pipe_put c pi) - nread (pipe_put c pi)) = n + 1"
    using unat_plus_one [of "nwrite pi - nread pi"] le(1) unfolding n_def by (simp add: pipe_put_def algebra_simps)
  have idx: "unat (nwrite pi) mod 512 = (unat (nread pi) + n) mod 512" using ring_index [OF lt, of "nread pi"] w by simp
  have ne: "unat (nread pi + of_nat k) mod 512 \<noteq> unat (nwrite pi) mod 512" if "k < n" for k
  proof -
    have "(unat (nread pi) + k) mod 512 \<noteq> (unat (nread pi) + n) mod 512"
      using that lt by (intro mod_shift_neq) simp_all
    then show ?thesis using ring_index [of k "nread pi"] that lt idx by simp
  qed
  have "pipe_bytes (pipe_put c pi) = map (\<lambda>k. (pdata pi)[unat (nwrite pi) mod 512 := c] ! (unat (nread pi + of_nat k) mod 512)) [0..<n + 1]"
    using n' by (simp add: pipe_bytes_def pipe_put_def)
  also have "\<dots> = map (\<lambda>k. pdata pi ! (unat (nread pi + of_nat k) mod 512)) [0..<n] @ [c]"
    using le by (auto simp: w [symmetric] nth_list_update_neq [OF ne [THEN not_sym]])
  finally show ?thesis using n' lt le by (simp add: pipe_inv_def pipe_bytes_def pipe_put_def n_def)
qed

lemma pipe_drop_ok:
  assumes inv: "pipe_inv pi" and ne: "\<not> pipe_empty pi"
  shows "pipe_inv (pipe_drop pi) \<and> pipe_bytes pi = pipe_peek pi # pipe_bytes (pipe_drop pi)"
proof -
  define n where "n = unat (nwrite pi - nread pi)"
  have w: "nwrite pi = nread pi + of_nat n" by (rule pipe_count) (simp add: n_def)
  have le: "n \<le> 512" "length (pdata pi) = 512" using inv by (auto simp: pipe_inv_def n_def)
  have "n \<noteq> 0" using ne by (auto simp: pipe_empty_def n_def unat_eq_zero)
  then obtain m where m: "n = Suc m" using not0_implies_Suc by auto
  have "nwrite pi - (nread pi + 1) = of_nat m" using w m by simp
  then have n': "unat (nwrite pi - (nread pi + 1)) = m" using m le(1) by (simp add: unat_of_nat take_bit_nat_def)
  have "pipe_bytes pi = map (\<lambda>k. pdata pi ! (unat (nread pi + of_nat k) mod 512)) (0 # map Suc [0..<m])"
    by (simp add: pipe_bytes_def n_def [symmetric] m upt_conv_Cons map_Suc_upt del: upt_Suc)
  also have "\<dots> = pipe_peek pi # pipe_bytes (pipe_drop pi)"
    by (simp add: pipe_peek_def pipe_bytes_def pipe_drop_def n' o_def add.assoc)
  finally show ?thesis using n' m le by (simp add: pipe_inv_def pipe_drop_def)
qed

lemma pipe_tests:
  assumes "pipe_inv pi"
  shows "pipe_empty pi \<longleftrightarrow> pipe_bytes pi = []" and "pipe_full pi \<longleftrightarrow> length (pipe_bytes pi) = PIPESIZE"
proof -
  show "pipe_empty pi \<longleftrightarrow> pipe_bytes pi = []" by (auto simp: pipe_empty_def pipe_bytes_def unat_eq_zero)
  have "pipe_full pi \<longleftrightarrow> nwrite pi - nread pi = 512" by (auto simp: pipe_full_def algebra_simps)
  also have "\<dots> \<longleftrightarrow> unat (nwrite pi - nread pi) = 512" by (simp add: word_unat_eq_iff)
  finally show "pipe_full pi \<longleftrightarrow> length (pipe_bytes pi) = PIPESIZE" by (simp add: pipe_bytes_def)
qed

interpretation pr: ring pipe_inv pipe_bytes PIPESIZE pipe_empty pipe_full pipe_put pipe_peek pipe_drop
proof unfold_locales
  show "length (pipe_bytes pi) \<le> PIPESIZE" if "pipe_inv pi" for pi using that by (simp add: pipe_inv_def pipe_bytes_def)
qed (use pipe_tests pipe_put_ok pipe_drop_ok in blast)+

end
