(* ===== verification/File.thy ===== *)
theory File
  imports Pipe
begin

text \<open>
  Open files: the rest of \<^verbatim>\<open>kernel/file.c\<close>, and \<^verbatim>\<open>pipealloc()\<close> of \<^verbatim>\<open>kernel/pipe.c\<close>, which closes files. The table
  \<^verbatim>\<open>devsw\<close> of device routines is the argument \<open>dv\<close>: the routines of a registered major
  number, as transitions of the kernel state.
\<close>

record 'k devops =
  dread :: "nat \<Rightarrow> bool \<Rightarrow> uint64 \<Rightarrow> int \<Rightarrow> 'k \<Rightarrow> (int \<times> 'k) res"
  dwrite :: "nat \<Rightarrow> bool \<Rightarrow> uint64 \<Rightarrow> int \<Rightarrow> 'k \<Rightarrow> (int \<times> 'k) res"

type_synonym 'k devsw = "nat \<Rightarrow> 'k devops option"

definition filedup :: "nat \<Rightarrow> 'a kernel_scheme \<Rightarrow> 'a kernel_scheme res" where
  "filedup f s = (if fref (ftable s f) < 1 then Panic ''filedup'' else Ok (upd_file f (\<lambda>x. x\<lparr>fref := fref x + 1\<rparr>) s))"

definition fileclose :: "nat \<Rightarrow> nat \<Rightarrow> 'a kernel_scheme \<Rightarrow> 'a kernel_scheme res" where
  "fileclose p f s =
     (if fref (ftable s f) < 1 then Panic ''fileclose''
      else let s = upd_file f (\<lambda>x. x\<lparr>fref := fref x - 1\<rparr>) s in
      if fref (ftable s f) > 0 then Ok s
      else let ff = ftable s f; s = upd_file f (\<lambda>x. x\<lparr>fref := 0, ftype := FD_NONE\<rparr>) s in
        if ftype ff = FD_PIPE then pipeclose p (fpipe ff) (writable ff) s
        else if ftype ff = FD_INODE \<or> ftype ff = FD_DEVICE
        then bindR (begin_op s) (\<lambda>s. bindR (iput p (fip ff) s) (end_op p))
        else Ok s)"

text \<open>
  The bytes of a \<^verbatim>\<open>struct stat\<close>. Between \<^verbatim>\<open>nlink\<close> and \<^verbatim>\<open>size\<close> are four bytes of padding, which the C code
  leaves unset; they are zero here.
\<close>

definition put_stat :: "stat \<Rightarrow> uchar list" where
  "put_stat st = put32 (replicate 4 0) 0 (st_dev st) @ put32 (replicate 4 0) 0 (st_ino st) @ put16 (replicate 2 0) 0 (st_type st) @
     put16 (replicate 2 0) 0 (st_nlink st) @ replicate 4 0 @ put_le 8 (replicate 8 0) 0 (st_size st)"

definition filestat :: "nat \<Rightarrow> nat \<Rightarrow> uint64 \<Rightarrow> 'a kernel_scheme \<Rightarrow> (int \<times> 'a kernel_scheme) res" where
  "filestat p f addr s =
     (let x = ftable s f in
      if ftype x = FD_INODE \<or> ftype x = FD_DEVICE
      then bindR (ilock p (fip x) s) (\<lambda>s.
           let st = stati s (fip x) in
           bindR (iunlock p (fip x) s) (\<lambda>s.
           bindR (either_copyout p True addr (put_stat st) s) (\<lambda>(r, s). Ok (if r < 0 then -1 else 0, s))))
      else Ok (-1, s))"

text \<open>The check of a device file's major number; \<^verbatim>\<open>short\<close> is signed.\<close>

definition dev_of :: "'k devsw \<Rightarrow> ushort \<Rightarrow> 'k devops option" where
  "dev_of dv maj = (if sint maj < 0 \<or> sint maj \<ge> int NDEV then None else dv (nat (sint maj)))"

definition fileread :: "'a kernel_scheme devsw \<Rightarrow> nat \<Rightarrow> nat \<Rightarrow> uint64 \<Rightarrow> int \<Rightarrow> 'a kernel_scheme \<Rightarrow> (int \<times> 'a kernel_scheme) res" where
  "fileread dv p f addr n s =
     (let x = ftable s f in
      if \<not> readable x then Ok (-1, s)
      else case ftype x of
        FD_PIPE \<Rightarrow> piperead p (fpipe x) addr n s
      | FD_DEVICE \<Rightarrow> (case dev_of dv (fmajor x) of None \<Rightarrow> Ok (-1, s) | Some d \<Rightarrow> dread d p True addr n s)
      | FD_INODE \<Rightarrow>
          bindR (ilock p (fip x) s) (\<lambda>s.
          bindR (readi p (fip x) (User addr) (foff x) (word_of_int n) s) (\<lambda>(r, bs, s).
          let s = (if sint r > 0 then upd_file f (\<lambda>x. x\<lparr>foff := foff x + r\<rparr>) s else s) in
          bindR (iunlock p (fip x) s) (\<lambda>s. Ok (sint r, s))))
      | FD_NONE \<Rightarrow> Panic ''fileread'')"

text \<open>How much \<^verbatim>\<open>filewrite()\<close> writes in one transaction, and its loop with \<open>i\<close> of \<open>n\<close> bytes written.\<close>

definition write_max :: int where [simp]: "write_max = ((int MAXOPBLOCKS - 1 - 1 - 2) div 2) * int BSIZE"

primrec filewrite_loop :: "nat \<Rightarrow> nat \<Rightarrow> nat \<Rightarrow> uint64 \<Rightarrow> int \<Rightarrow> int \<Rightarrow> 'a kernel_scheme \<Rightarrow> (int \<times> 'a kernel_scheme) res" where
  "filewrite_loop 0 p f addr n i s = OutOfFuel"
| "filewrite_loop (Suc k) p f addr n i s =
     (if i < n
      then let ip = fip (ftable s f); n1 = min (n - i) write_max in
           bindR (begin_op s) (\<lambda>s.
           bindR (ilock p ip s) (\<lambda>s.
           bindR (writei p ip (User (addr + of_int i)) (foff (ftable s f)) (word_of_int n1) s) (\<lambda>(r, s).
           let s = (if sint r > 0 then upd_file f (\<lambda>x. x\<lparr>foff := foff x + r\<rparr>) s else s) in
           bindR (iunlock p ip s) (\<lambda>s.
           bindR (end_op p s) (\<lambda>s.
           if sint r \<noteq> n1 then Ok (i, s) else filewrite_loop k p f addr n (i + sint r) s)))))
      else Ok (i, s))"

definition filewrite :: "'a kernel_scheme devsw \<Rightarrow> nat \<Rightarrow> nat \<Rightarrow> uint64 \<Rightarrow> int \<Rightarrow> 'a kernel_scheme \<Rightarrow> (int \<times> 'a kernel_scheme) res" where
  "filewrite dv p f addr n s =
     (let x = ftable s f in
      if \<not> writable x then Ok (-1, s)
      else case ftype x of
        FD_PIPE \<Rightarrow> pipewrite p (fpipe x) addr n s
      | FD_DEVICE \<Rightarrow> (case dev_of dv (fmajor x) of None \<Rightarrow> Ok (-1, s) | Some d \<Rightarrow> dwrite d p True addr n s)
      | FD_INODE \<Rightarrow> bindR (filewrite_loop (nat n + 1) p f addr n 0 s) (\<lambda>(i, s). Ok (if i = n then n else -1, s))
      | FD_NONE \<Rightarrow> Panic ''filewrite'')"

text \<open>\<^verbatim>\<open>pipealloc()\<close>: the label \<^verbatim>\<open>bad\<close> is \<open>pipe_bad\<close>; the pipe's page is only allocated last, so there it is not.\<close>

definition pipe_bad :: "nat \<Rightarrow> nat option \<Rightarrow> nat option \<Rightarrow> 'a kernel_scheme \<Rightarrow> ((nat \<times> nat) option \<times> 'a kernel_scheme) res" where
  "pipe_bad p f0 f1 s =
     bindR (case f0 of None \<Rightarrow> Ok s | Some f \<Rightarrow> fileclose p f s) (\<lambda>s.
     bindR (case f1 of None \<Rightarrow> Ok s | Some f \<Rightarrow> fileclose p f s) (\<lambda>s. Ok (None, s)))"

definition pipealloc :: "nat \<Rightarrow> 'a kernel_scheme \<Rightarrow> ((nat \<times> nat) option \<times> 'a kernel_scheme) res" where
  "pipealloc p s =
     (let (f0, s) = filealloc s in
      case f0 of None \<Rightarrow> pipe_bad p None None s
      | Some r \<Rightarrow>
        let (f1, s) = filealloc s in
        case f1 of None \<Rightarrow> pipe_bad p (Some r) None s
        | Some w \<Rightarrow>
          let (pi, h) = kalloc (ph s); s = s\<lparr>ph := h\<rparr> in
          if pi = 0 then pipe_bad p (Some r) (Some w) s
          else Ok (Some (r, w),
            upd_file w (\<lambda>x. x\<lparr>ftype := FD_PIPE, readable := False, writable := True, fpipe := pi\<rparr>)
              (upd_file r (\<lambda>x. x\<lparr>ftype := FD_PIPE, readable := True, writable := False, fpipe := pi\<rparr>)
                (upd_pipe pi (\<lambda>_. pipe_init) s))))"

end
