(* ===== verification/Exec.thy ===== *)
theory Exec
  imports File
begin

text \<open>
  System-call arguments (the first half of \<^verbatim>\<open>kernel/syscall.c\<close>) and program loading (\<^verbatim>\<open>kernel/exec.c\<close>,
  \<^verbatim>\<open>kernel/elf.h\<close>). The label \<^verbatim>\<open>bad\<close> of \<^verbatim>\<open>kexec()\<close> is \<open>kexec_bad\<close>; its argument strings are lists of the
  bytes before their NUL.
\<close>

section \<open>Arguments\<close>

definition fetchaddr :: "nat \<Rightarrow> uint64 \<Rightarrow> 'a kstate_scheme \<Rightarrow> (int \<times> uint64 \<times> 'a kstate_scheme) res" where
  "fetchaddr p addr s =
     (if addr \<ge> sz (procs s p) \<or> addr + 8 > sz (procs s p) then Ok (-1, 0, s)
      else bindR (either_copyin p True addr 8 s) (\<lambda>(r, bs, s). if r \<noteq> 0 then Ok (-1, 0, s) else Ok (0, get_le 8 bs 0, s)))"

definition fetchstr :: "nat \<Rightarrow> uint64 \<Rightarrow> nat \<Rightarrow> 'a kstate_scheme \<Rightarrow> (int \<times> uchar list) res" where
  "fetchstr p addr mx s =
     bindR (copyinstr (ph s) (pagetable (procs s p)) addr mx) (\<lambda>(r, bs).
     if r < 0 then Ok (-1, []) else let t = takeWhile (\<lambda>c. c \<noteq> 0) bs in Ok (int (length t), t))"

definition argraw :: "nat \<Rightarrow> nat \<Rightarrow> 'a kstate_scheme \<Rightarrow> uint64 res" where
  "argraw p n s = (if n \<le> 5 then Ok (load_tf s p (tf_a0 + 8 * of_nat n)) else Panic ''argraw'')"

definition argint :: "nat \<Rightarrow> nat \<Rightarrow> 'a kstate_scheme \<Rightarrow> int res" where
  "argint p n s = bindR (argraw p n s) (\<lambda>w. Ok (sint (ucast w :: uint)))"

definition argaddr :: "nat \<Rightarrow> nat \<Rightarrow> 'a kstate_scheme \<Rightarrow> uint64 res" where
  "argaddr p n s = argraw p n s"

definition argstr :: "nat \<Rightarrow> nat \<Rightarrow> nat \<Rightarrow> 'a kstate_scheme \<Rightarrow> (int \<times> uchar list) res" where
  "argstr p n mx s = bindR (argaddr p n s) (\<lambda>addr. fetchstr p addr mx s)"

section \<open>elf.h\<close>

definition ELF_MAGIC :: uint where [simp]: "ELF_MAGIC = 0x464C457F"
definition ELF_PROG_LOAD :: uint where [simp]: "ELF_PROG_LOAD = 1"

record elfhdr =
  e_magic :: uint
  e_entry :: uint64
  e_phoff :: uint64
  e_phnum :: ushort

record proghdr =
  p_type :: uint
  p_flags :: uint
  p_off :: uint64
  p_vaddr :: uint64
  p_filesz :: uint64
  p_memsz :: uint64

definition elfhdr_size :: nat where [simp]: "elfhdr_size = 64"
definition proghdr_size :: nat where [simp]: "proghdr_size = 56"

definition get_elfhdr :: "uchar list \<Rightarrow> elfhdr" where
  "get_elfhdr d = \<lparr>e_magic = get32 d 0, e_entry = get_le 8 d 24, e_phoff = get_le 8 d 32, e_phnum = get16 d 56\<rparr>"

definition get_proghdr :: "uchar list \<Rightarrow> proghdr" where
  "get_proghdr d = \<lparr>p_type = get32 d 0, p_flags = get32 d 4, p_off = get_le 8 d 8, p_vaddr = get_le 8 d 16,
     p_filesz = get_le 8 d 32, p_memsz = get_le 8 d 40\<rparr>"

section \<open>Loading\<close>

definition flags2perm :: "uint \<Rightarrow> uint64" where
  "flags2perm flags = (let perm = (if flags AND 1 \<noteq> 0 then PTE_X else 0) in if flags AND 2 \<noteq> 0 then perm OR PTE_W else perm)"

text \<open>The loop of \<^verbatim>\<open>loadseg()\<close> over the pages of the segment.\<close>

primrec loadseg_loop :: "nat list \<Rightarrow> nat \<Rightarrow> uint64 \<Rightarrow> uint64 \<Rightarrow> nat \<Rightarrow> uint \<Rightarrow> uint \<Rightarrow> 'a fstate_scheme \<Rightarrow> (int \<times> 'a fstate_scheme) res" where
  "loadseg_loop [] p pt va ip offset segsz s = Ok (0, s)"
| "loadseg_loop (k # ks) p pt va ip offset segsz s =
     (let i = of_nat k :: uint in
      bindR (walkaddr (ph s) pt (va + ucast i)) (\<lambda>pa.
      if pa = 0 then Panic ''loadseg: address should exist''
      else let n = (if segsz - i < ucast PGSIZE then segsz - i else ucast PGSIZE) in
        bindR (readi p ip (Kern pa) (offset + i) n s) (\<lambda>(r, bs, s).
        if r \<noteq> n then Ok (-1, s) else loadseg_loop ks p pt va ip offset segsz s)))"

definition loadseg :: "nat \<Rightarrow> uint64 \<Rightarrow> uint64 \<Rightarrow> nat \<Rightarrow> uint \<Rightarrow> uint \<Rightarrow> 'a fstate_scheme \<Rightarrow> (int \<times> 'a fstate_scheme) res" where
  "loadseg p pt va ip offset segsz s =
     loadseg_loop (map (\<lambda>k. k * 4096) [0..<(unat segsz + 4095) div 4096]) p pt va ip offset segsz s"

text \<open>The loop over the program headers: \<open>k\<close> of them to go; \<open>None\<close> is a jump to \<^verbatim>\<open>bad\<close> with the current size.\<close>

primrec load_segments :: "nat \<Rightarrow> nat \<Rightarrow> nat \<Rightarrow> uint64 \<Rightarrow> uint \<Rightarrow> uint64 \<Rightarrow> 'a fstate_scheme \<Rightarrow> (bool \<times> uint64 \<times> 'a fstate_scheme) res" where
  "load_segments 0 p ip pt off psz s = Ok (True, psz, s)"
| "load_segments (Suc k) p ip pt off psz s =
     bindR (readi p ip (Local []) off (of_nat proghdr_size) s) (\<lambda>(r, bs, s).
     if r \<noteq> of_nat proghdr_size then Ok (False, psz, s)
     else let e = get_proghdr bs; nxt = off + of_nat proghdr_size in
       if p_type e \<noteq> ELF_PROG_LOAD then load_segments k p ip pt nxt psz s
       else if p_memsz e < p_filesz e \<or> p_vaddr e + p_memsz e < p_vaddr e \<or> p_vaddr e mod PGSIZE \<noteq> 0 then Ok (False, psz, s)
       else bindR (with_ph (\<lambda>h. uvmalloc h pt psz (p_vaddr e + p_memsz e) (flags2perm (p_flags e))) s) (\<lambda>(sz1, s).
            if sz1 = 0 then Ok (False, psz, s)
            else bindR (loadseg p pt (p_vaddr e) ip (ucast (p_off e)) (ucast (p_filesz e)) s) (\<lambda>(r, s).
                 if r < 0 then Ok (False, sz1, s) else load_segments k p ip pt nxt sz1 s)))"

text \<open>\<^verbatim>\<open>copyout()\<close> to a page table that need not be the current process's.\<close>

definition copyout_pt :: "nat \<Rightarrow> uint64 \<Rightarrow> uint64 \<Rightarrow> uchar list \<Rightarrow> 'a kstate_scheme \<Rightarrow> (int \<times> 'a kstate_scheme) res" where
  "copyout_pt p pt dst bs s = with_ph (\<lambda>h. copyout (sz (procs s p)) (pagetable (procs s p)) h pt dst bs) s"

text \<open>The argument strings go to the new stack, their addresses to \<open>ustack\<close>.\<close>

primrec push_args :: "uchar list list \<Rightarrow> nat \<Rightarrow> uint64 \<Rightarrow> uint64 \<Rightarrow> uint64 \<Rightarrow> uint64 list \<Rightarrow> 'a kstate_scheme \<Rightarrow>
    ((uint64 \<times> uint64 list) option \<times> 'a kstate_scheme) res" where
  "push_args [] p pt stackbase sp0 ustack s = Ok (Some (sp0, ustack), s)"
| "push_args (a # as) p pt stackbase sp0 ustack s =
     (if length ustack \<ge> MAXARG then Ok (None, s)
      else let sp1 = sp0 - of_nat (length a + 1); sp1 = sp1 - sp1 mod 16 in
        if sp1 < stackbase then Ok (None, s)
        else bindR (copyout_pt p pt sp1 (a @ [0]) s) (\<lambda>(r, s).
             if r < 0 then Ok (None, s) else push_args as p pt stackbase sp1 (ustack @ [sp1]) s))"

definition put_words :: "uint64 list \<Rightarrow> uchar list" where
  "put_words ws = concat (map (put_le 8 (replicate 8 0) 0) ws)"

text \<open>\<^verbatim>\<open>safestrcpy()\<close> into a name field: at most \<open>n - 1\<close> bytes and a NUL; the bytes after it stay.\<close>

definition safestrcpy_bytes :: "uchar list \<Rightarrow> uchar list \<Rightarrow> nat \<Rightarrow> uchar list" where
  "safestrcpy_bytes old t n = (let u = take (n - 1) (takeWhile (\<lambda>c. c \<noteq> 0) t) in u @ [0] @ drop (length u + 1) old)"

text \<open>The last element of a path, for \<^verbatim>\<open>p->name\<close>.\<close>

definition last_elem :: "uchar list \<Rightarrow> uchar list" where
  "last_elem path = rev (takeWhile (\<lambda>c. c \<noteq> slash) (rev path))"

definition kexec_bad :: "nat \<Rightarrow> uint64 \<Rightarrow> uint64 \<Rightarrow> nat option \<Rightarrow> 'a fstate_scheme \<Rightarrow> (int \<times> 'a fstate_scheme) res" where
  "kexec_bad p pt psz ip s =
     bindR (if pt \<noteq> 0 then on_ph (proc_freepagetable pt psz) s else Ok s) (\<lambda>s.
     bindR (case ip of None \<Rightarrow> Ok s | Some i \<Rightarrow> bindR (iunlockput p i s) (end_op p)) (\<lambda>s. Ok (-1, s)))"

text \<open>The second half: stack, arguments and the switch to the new image, whose first \<open>psz\<close> bytes are loaded.\<close>

definition kexec_stack :: "nat \<Rightarrow> uchar list \<Rightarrow> uchar list list \<Rightarrow> uint64 \<Rightarrow> uint64 \<Rightarrow> uint64 \<Rightarrow> 'a fstate_scheme \<Rightarrow> (int \<times> 'a fstate_scheme) res" where
  "kexec_stack p path argv entry pt psz s =
     (let oldsz = sz (procs s p); psz = PGROUNDUP psz in
      bindR (with_ph (\<lambda>h. uvmalloc h pt psz (psz + (USERSTACK + 1) * PGSIZE) PTE_W) s) (\<lambda>(sz1, s).
      if sz1 = 0 then kexec_bad p pt psz None s
      else bindR (on_ph (\<lambda>h. uvmclear h pt (sz1 - (USERSTACK + 1) * PGSIZE)) s) (\<lambda>s.
        let stackbase = sz1 - USERSTACK * PGSIZE in
        bindR (push_args argv p pt stackbase sz1 [] s) (\<lambda>(r, s).
        case r of None \<Rightarrow> kexec_bad p pt sz1 None s
        | Some (sp0, ustack) \<Rightarrow>
          let sp1 = sp0 - of_nat ((length ustack + 1) * 8); sp1 = sp1 - sp1 mod 16 in
          if sp1 < stackbase then kexec_bad p pt sz1 None s
          else bindR (copyout_pt p pt sp1 (put_words (ustack @ [0])) s) (\<lambda>(r, s).
            if r < 0 then kexec_bad p pt sz1 None s
            else let s = store_tf p tf_a1 sp1 s; oldpt = pagetable (procs s p);
                     s = upd_proc p (\<lambda>x. x\<lparr>pname := safestrcpy_bytes (pname x) (last_elem path) 16, pagetable := pt, sz := sz1\<rparr>) s;
                     s = store_tf p tf_sp sp1 (store_tf p tf_epc entry s)
                 in bindR (on_ph (proc_freepagetable oldpt oldsz) s) (\<lambda>s. Ok (int (length ustack), s)))))))"

definition kexec :: "nat \<Rightarrow> uchar list \<Rightarrow> uchar list list \<Rightarrow> 'a fstate_scheme \<Rightarrow> (int \<times> 'a fstate_scheme) res" where
  "kexec p path argv s =
     bindR (begin_op s) (\<lambda>s.
     bindR (namei p path s) (\<lambda>(r, s).
     case r of None \<Rightarrow> bindR (end_op p s) (\<lambda>s. Ok (-1, s))
     | Some ip \<Rightarrow>
       bindR (ilock p ip s) (\<lambda>s.
       bindR (readi p ip (Local []) 0 (of_nat elfhdr_size) s) (\<lambda>(r, bs, s).
       let elf = get_elfhdr bs in
       if r \<noteq> of_nat elfhdr_size \<or> e_magic elf \<noteq> ELF_MAGIC then kexec_bad p 0 0 (Some ip) s
       else bindR (with_ph (proc_pagetable (trampoline s) (trapframe (procs s p))) s) (\<lambda>(pt, s).
         if pt = 0 then kexec_bad p 0 0 (Some ip) s
         else bindR (load_segments (unat (e_phnum elf)) p ip pt (ucast (e_phoff elf)) 0 s) (\<lambda>(ok, psz, s).
           if \<not> ok then kexec_bad p pt psz (Some ip) s
           else bindR (iunlockput p ip s) (\<lambda>s.
                bindR (end_op p s) (kexec_stack p path argv (e_entry elf) pt psz))))))))"

end
