(* ===== verification/Proc_Life.thy ===== *)
theory Proc_Life
  imports Exec
begin

text \<open>
  The life of a process: \<^verbatim>\<open>userinit()\<close>, \<^verbatim>\<open>kfork()\<close>, \<^verbatim>\<open>kexit()\<close> and \<^verbatim>\<open>kwait()\<close> of \<^verbatim>\<open>kernel/proc.c\<close>. \<^verbatim>\<open>kexit()\<close> is modelled up to its
  \<^verbatim>\<open>sched()\<close>, from which it does not come back. \<^verbatim>\<open>kwait()\<close> is \<open>Blocked\<close> where it sleeps.
\<close>

definition userinit :: "'a fstate_scheme \<Rightarrow> 'a fstate_scheme res" where
  "userinit s =
     bindR (allocproc s) (\<lambda>(r, s).
     bindR (deref r) (\<lambda>p.
     bindR (namei p [slash] (s\<lparr>initproc := Some p\<rparr>)) (\<lambda>(ip, s).
     Ok (upd_proc p (\<lambda>x. x\<lparr>cwd := ip, ready_since := 0, state := RUNNABLE\<rparr>) s))))"

definition copy_trapframe :: "nat \<Rightarrow> nat \<Rightarrow> 'a kstate_scheme \<Rightarrow> 'a kstate_scheme" where
  "copy_trapframe p np s =
     s\<lparr>ph := (ph s)\<lparr>pmem := store_bytes (pmem (ph s)) (trapframe (procs s np))
       (load_bytes (pmem (ph s)) (trapframe (procs s p)) tf_size)\<rparr>\<rparr>"

definition fork_fd :: "nat \<Rightarrow> nat \<Rightarrow> nat \<Rightarrow> 'a kernel_scheme \<Rightarrow> 'a kernel_scheme res" where
  "fork_fd p np i s =
     (case ofile (procs s p) i of None \<Rightarrow> Ok s
      | Some f \<Rightarrow> bindR (filedup f s) (\<lambda>s. Ok (upd_proc np (\<lambda>x. x\<lparr>ofile := (ofile x)(i := Some f)\<rparr>) s)))"

definition kfork :: "nat \<Rightarrow> 'a kernel_scheme \<Rightarrow> (int \<times> 'a kernel_scheme) res" where
  "kfork p s =
     bindR (allocproc s) (\<lambda>(r, s).
     case r of None \<Rightarrow> Ok (-1, s)
     | Some np \<Rightarrow>
       bindR (with_ph (\<lambda>h. uvmcopy h (pagetable (procs s p)) (pagetable (procs s np)) (sz (procs s p))) s) (\<lambda>(r, s).
       if r < 0 then bindR (freeproc np s) (\<lambda>s. Ok (-1, s))
       else let s = upd_proc np (\<lambda>x. x\<lparr>sz := sz (procs s p)\<rparr>) s;
                s = store_tf np tf_a0 0 (copy_trapframe p np s)
            in bindR (foldR (fork_fd p np) [0..<NOFILE] s) (\<lambda>s.
               bindR (deref (cwd (procs s p))) (\<lambda>ip.
               let s = idup ip s;
                   s = upd_proc np (\<lambda>x. x\<lparr>cwd := Some ip, pname := safestrcpy_bytes (pname x) (pname (procs s p)) 16\<rparr>) s;
                   n = pid (procs s np);
                   s = upd_proc np (\<lambda>x. x\<lparr>parent := Some p\<rparr>) s;
                   s = upd_proc np (\<lambda>x. x\<lparr>priority := priority (procs s p), ready_since := 0, state := RUNNABLE\<rparr>) s
               in Ok (n, s)))))"

definition exit_fd :: "nat \<Rightarrow> nat \<Rightarrow> 'a kernel_scheme \<Rightarrow> 'a kernel_scheme res" where
  "exit_fd p fd s =
     (case ofile (procs s p) fd of None \<Rightarrow> Ok s
      | Some f \<Rightarrow> bindR (fileclose p f s) (\<lambda>s. Ok (upd_proc p (\<lambda>x. x\<lparr>ofile := (ofile x)(fd := None)\<rparr>) s)))"

definition kexit :: "nat \<Rightarrow> int \<Rightarrow> 'a kernel_scheme \<Rightarrow> 'a kernel_scheme res" where
  "kexit p status s =
     (if initproc s = Some p then Panic ''init exiting''
      else bindR (foldR (exit_fd p) [0..<NOFILE] s) (\<lambda>s.
           bindR (begin_op s) (\<lambda>s.
           bindR (deref (cwd (procs s p))) (\<lambda>ip.
           bindR (iput p ip s) (\<lambda>s.
           bindR (end_op p s) (\<lambda>s.
           let s = reparent p (upd_proc p (\<lambda>x. x\<lparr>cwd := None\<rparr>) s);
               s = wakeup (Some p) (case parent (procs s p) of None \<Rightarrow> NoChan | Some q \<Rightarrow> ChanProc q) s
           in Ok (upd_proc p (\<lambda>x. x\<lparr>xstate := status, state := ZOMBIE\<rparr>) s)))))))"

definition kwait :: "nat \<Rightarrow> uint64 \<Rightarrow> 'a kstate_scheme \<Rightarrow> (int \<times> 'a kstate_scheme) res" where
  "kwait p addr s =
     (case find (\<lambda>i. parent (procs s i) = Some p \<and> state (procs s i) = ZOMBIE) [0..<NPROC] of
        Some pp \<Rightarrow>
          let n = pid (procs s pp) in
          bindR (if addr \<noteq> 0 then either_copyout p True addr (put32 (replicate 4 0) 0 (word_of_int (xstate (procs s pp)))) s
                 else Ok (0, s)) (\<lambda>(r, s).
          if r < 0 then Ok (-1, s) else bindR (freeproc pp s) (\<lambda>s. Ok (n, s)))
      | None \<Rightarrow>
          if (\<forall>i\<in>set [0..<NPROC]. parent (procs s i) \<noteq> Some p) \<or> killed s p \<noteq> 0 then Ok (-1, s)
          else Blocked ''kwait'')"

end
