(* ===== verification/Sysproc.thy ===== *)
theory Sysproc
  imports Proc_Life
begin

text \<open>
  The process system calls of \<^verbatim>\<open>kernel/sysproc.c\<close>. A system call returns the value for \<^verbatim>\<open>a0\<close>; \<^verbatim>\<open>sys_exit()\<close> does not
  return, which is \<open>None\<close>.
\<close>

definition SBRK_EAGER :: int where [simp]: "SBRK_EAGER = 1"

definition sys_exit :: "nat \<Rightarrow> 'a kernel_scheme \<Rightarrow> (uint64 option \<times> 'a kernel_scheme) res" where
  "sys_exit p s = bindR (argint p 0 s) (\<lambda>n. bindR (kexit p n s) (\<lambda>s. Ok (None, s)))"

definition sys_getpid :: "nat \<Rightarrow> 'a kernel_scheme \<Rightarrow> (uint64 \<times> 'a kernel_scheme) res" where
  "sys_getpid p s = Ok (of_int (pid (procs s p)), s)"

definition sys_fork :: "nat \<Rightarrow> 'a kernel_scheme \<Rightarrow> (uint64 \<times> 'a kernel_scheme) res" where
  "sys_fork p s = bindR (kfork p s) (\<lambda>(r, s). Ok (of_int r, s))"

definition sys_wait :: "nat \<Rightarrow> 'a kernel_scheme \<Rightarrow> (uint64 \<times> 'a kernel_scheme) res" where
  "sys_wait p s = bindR (argaddr p 0 s) (\<lambda>addr. bindR (kwait p addr s) (\<lambda>(r, s). Ok (of_int r, s)))"

definition sys_sbrk :: "nat \<Rightarrow> 'a kernel_scheme \<Rightarrow> (uint64 \<times> 'a kernel_scheme) res" where
  "sys_sbrk p s =
     bindR (argint p 0 s) (\<lambda>n.
     bindR (argint p 1 s) (\<lambda>t.
     let addr = sz (procs s p) in
     if t = SBRK_EAGER \<or> n < 0
     then bindR (growproc p n s) (\<lambda>(r, s). if r < 0 then Ok (-1, s) else Ok (addr, s))
     else if addr + of_int n < addr then Ok (-1, s)
     else if addr + of_int n > TRAPFRAME then Ok (-1, s)
     else Ok (addr, upd_proc p (\<lambda>x. x\<lparr>sz := sz x + of_int n\<rparr>) s)))"

text \<open>
  One evaluation of the loop of \<^verbatim>\<open>sys_pause()\<close>, which started at tick \<open>ticks0\<close>: it is done, or the process is
  killed, or it sleeps.
\<close>

definition pause_iter :: "nat \<Rightarrow> uint \<Rightarrow> int \<Rightarrow> 'a kernel_scheme \<Rightarrow> (uint64 \<times> 'a kernel_scheme) res" where
  "pause_iter p ticks0 n s =
     (if ticks s - ticks0 < word_of_int n
      then if killed s p \<noteq> 0 then Ok (-1, s) else Blocked ''sys_pause''
      else Ok (0, s))"

definition sys_pause :: "nat \<Rightarrow> 'a kernel_scheme \<Rightarrow> (uint64 \<times> 'a kernel_scheme) res" where
  "sys_pause p s = bindR (argint p 0 s) (\<lambda>n. pause_iter p (ticks s) (if n < 0 then 0 else n) s)"

definition sys_kill :: "nat \<Rightarrow> 'a kernel_scheme \<Rightarrow> (uint64 \<times> 'a kernel_scheme) res" where
  "sys_kill p s = bindR (argint p 0 s) (\<lambda>n. let (r, s) = kkill n s in Ok (of_int r, s))"

definition sys_uptime :: "nat \<Rightarrow> 'a kernel_scheme \<Rightarrow> (uint64 \<times> 'a kernel_scheme) res" where
  "sys_uptime p s = Ok (ucast (ticks s), s)"

definition sys_setpriority :: "nat \<Rightarrow> 'a kernel_scheme \<Rightarrow> (uint64 \<times> 'a kernel_scheme) res" where
  "sys_setpriority p s =
     bindR (argint p 0 s) (\<lambda>n.
     if n < PRIORITY_MIN \<or> n > PRIORITY_MAX then Ok (-1, s)
     else Ok (0, upd_proc p (\<lambda>x. x\<lparr>priority := n\<rparr>) s))"

end
