(* ===== verification/Sysfile.thy ===== *)
theory Sysfile
  imports Sysproc
begin

text \<open>The file system calls of \<^verbatim>\<open>kernel/sysfile.c\<close>. A jump to a label is a call of the definition named after it.\<close>

definition O_RDONLY :: uint where [simp]: "O_RDONLY = 0x000"
definition O_WRONLY :: uint where [simp]: "O_WRONLY = 0x001"
definition O_RDWR :: uint where [simp]: "O_RDWR = 0x002"
definition O_CREATE :: uint where [simp]: "O_CREATE = 0x200"
definition O_TRUNC :: uint where [simp]: "O_TRUNC = 0x400"

section \<open>File descriptors\<close>

definition argfd :: "nat \<Rightarrow> nat \<Rightarrow> 'a kernel_scheme \<Rightarrow> (nat \<times> nat) option res" where
  "argfd p n s =
     bindR (argint p n s) (\<lambda>fd.
     if fd < 0 \<or> fd \<ge> int NOFILE then Ok None
     else Ok (map_option (\<lambda>f. (nat fd, f)) (ofile (procs s p) (nat fd))))"

definition set_fd :: "nat \<Rightarrow> nat \<Rightarrow> nat option \<Rightarrow> 'a kernel_scheme \<Rightarrow> 'a kernel_scheme" where
  "set_fd p fd f s = upd_proc p (\<lambda>x. x\<lparr>ofile := (ofile x)(fd := f)\<rparr>) s"

definition fdalloc :: "nat \<Rightarrow> nat \<Rightarrow> 'a kernel_scheme \<Rightarrow> nat option \<times> 'a kernel_scheme" where
  "fdalloc p f s =
     (case find (\<lambda>fd. ofile (procs s p) fd = None) [0..<NOFILE] of
        None \<Rightarrow> (None, s) | Some fd \<Rightarrow> (Some fd, set_fd p fd (Some f) s))"

definition sys_dup :: "nat \<Rightarrow> 'a kernel_scheme \<Rightarrow> (uint64 \<times> 'a kernel_scheme) res" where
  "sys_dup p s =
     bindR (argfd p 0 s) (\<lambda>a.
     case a of None \<Rightarrow> Ok (-1, s)
     | Some (_, f) \<Rightarrow>
       let (r, s) = fdalloc p f s in
       case r of None \<Rightarrow> Ok (-1, s) | Some fd \<Rightarrow> bindR (filedup f s) (\<lambda>s. Ok (of_nat fd, s)))"

definition sys_read :: "'a kernel_scheme devsw \<Rightarrow> nat \<Rightarrow> 'a kernel_scheme \<Rightarrow> (uint64 \<times> 'a kernel_scheme) res" where
  "sys_read dv p s =
     bindR (argaddr p 1 s) (\<lambda>addr.
     bindR (argint p 2 s) (\<lambda>n.
     bindR (argfd p 0 s) (\<lambda>a.
     case a of None \<Rightarrow> Ok (-1, s) | Some (_, f) \<Rightarrow> bindR (fileread dv p f addr n s) (\<lambda>(r, s). Ok (of_int r, s)))))"

definition sys_write :: "'a kernel_scheme devsw \<Rightarrow> nat \<Rightarrow> 'a kernel_scheme \<Rightarrow> (uint64 \<times> 'a kernel_scheme) res" where
  "sys_write dv p s =
     bindR (argaddr p 1 s) (\<lambda>addr.
     bindR (argint p 2 s) (\<lambda>n.
     bindR (argfd p 0 s) (\<lambda>a.
     case a of None \<Rightarrow> Ok (-1, s) | Some (_, f) \<Rightarrow> bindR (filewrite dv p f addr n s) (\<lambda>(r, s). Ok (of_int r, s)))))"

definition sys_close :: "nat \<Rightarrow> 'a kernel_scheme \<Rightarrow> (uint64 \<times> 'a kernel_scheme) res" where
  "sys_close p s =
     bindR (argfd p 0 s) (\<lambda>a.
     case a of None \<Rightarrow> Ok (-1, s)
     | Some (fd, f) \<Rightarrow> bindR (fileclose p f (set_fd p fd None s)) (\<lambda>s. Ok (0, s)))"

definition sys_fstat :: "nat \<Rightarrow> 'a kernel_scheme \<Rightarrow> (uint64 \<times> 'a kernel_scheme) res" where
  "sys_fstat p s =
     bindR (argaddr p 1 s) (\<lambda>st.
     bindR (argfd p 0 s) (\<lambda>a.
     case a of None \<Rightarrow> Ok (-1, s) | Some (_, f) \<Rightarrow> bindR (filestat p f st s) (\<lambda>(r, s). Ok (of_int r, s))))"

section \<open>Names\<close>

text \<open>Every error path of the calls below ends its transaction and returns -1.\<close>

definition fail_op :: "nat \<Rightarrow> 'a kernel_scheme \<Rightarrow> (uint64 \<times> 'a kernel_scheme) res" where
  "fail_op p s = bindR (end_op p s) (\<lambda>s. Ok (-1, s))"

definition fail_put :: "nat \<Rightarrow> nat \<Rightarrow> 'a kernel_scheme \<Rightarrow> (uint64 \<times> 'a kernel_scheme) res" where
  "fail_put p ip s = bindR (iunlockput p ip s) (fail_op p)"

definition add_nlink :: "nat \<Rightarrow> nat \<Rightarrow> ushort \<Rightarrow> 'a kernel_scheme \<Rightarrow> 'a kernel_scheme res" where
  "add_nlink p ip d s = iupdate p ip (upd_inode ip (\<lambda>x. x\<lparr>inlink := inlink x + d\<rparr>) s)"

definition sys_link_bad :: "nat \<Rightarrow> nat \<Rightarrow> 'a kernel_scheme \<Rightarrow> (uint64 \<times> 'a kernel_scheme) res" where
  "sys_link_bad p ip s = bindR (ilock p ip s) (\<lambda>s. bindR (add_nlink p ip (-1) s) (fail_put p ip))"

definition sys_link :: "nat \<Rightarrow> 'a kernel_scheme \<Rightarrow> (uint64 \<times> 'a kernel_scheme) res" where
  "sys_link p s =
     bindR (argstr p 0 MAXPATH s) (\<lambda>(r0, old).
     if r0 < 0 then Ok (-1, s)
     else bindR (argstr p 1 MAXPATH s) (\<lambda>(r1, new).
     if r1 < 0 then Ok (-1, s)
     else bindR (begin_op s) (\<lambda>s.
     bindR (namei p old s) (\<lambda>(r, s).
     case r of None \<Rightarrow> fail_op p s
     | Some ip \<Rightarrow>
       bindR (ilock p ip s) (\<lambda>s.
       if itype (itable s ip) = T_DIR then fail_put p ip s
       else bindR (add_nlink p ip 1 s) (\<lambda>s.
            bindR (iunlock p ip s) (\<lambda>s.
            bindR (nameiparent p new s) (\<lambda>(r, s).
            case r of None \<Rightarrow> sys_link_bad p ip s
            | Some (dp, name) \<Rightarrow>
              bindR (ilock p dp s) (\<lambda>s.
              bindR (if idev (itable s dp) \<noteq> idev (itable s ip) then Ok (-1, s) else dirlink p dp name (inum (itable s ip)) s) (\<lambda>(r, s).
              bindR (iunlockput p dp s) (\<lambda>s.
              if r < 0 then sys_link_bad p ip s
              else bindR (iput p ip s) (\<lambda>s. bindR (end_op p s) (\<lambda>s. Ok (0, s)))))))))))))) "

primrec isdirempty_loop :: "nat \<Rightarrow> nat \<Rightarrow> uint list \<Rightarrow> 'a fstate_scheme \<Rightarrow> (bool \<times> 'a fstate_scheme) res" where
  "isdirempty_loop p dp [] s = Ok (True, s)"
| "isdirempty_loop p dp (off # offs) s =
     bindR (readi p dp (Local []) off (of_nat dirent_size) s) (\<lambda>(r, bs, s).
     if r \<noteq> of_nat dirent_size then Panic ''isdirempty: readi''
     else if de_inum (get_dirent bs) \<noteq> 0 then Ok (False, s) else isdirempty_loop p dp offs s)"

definition isdirempty :: "nat \<Rightarrow> nat \<Rightarrow> 'a fstate_scheme \<Rightarrow> (bool \<times> 'a fstate_scheme) res" where
  "isdirempty p dp s = isdirempty_loop p dp (drop 2 (dir_offs (isize (itable s dp)))) s"

definition dot :: "uchar list" where [simp]: "dot = [46]"
definition dotdot :: "uchar list" where [simp]: "dotdot = [46, 46]"

text \<open>The part of \<^verbatim>\<open>sys_unlink()\<close> that removes the entry at \<open>off\<close> of the locked directory \<open>dp\<close>, naming the locked inode \<open>ip\<close>.\<close>

definition unlink_entry :: "nat \<Rightarrow> nat \<Rightarrow> nat \<Rightarrow> uint \<Rightarrow> 'a kernel_scheme \<Rightarrow> (uint64 \<times> 'a kernel_scheme) res" where
  "unlink_entry p dp ip off s =
     bindR (writei p dp (Local (replicate dirent_size 0)) off (of_nat dirent_size) s) (\<lambda>(r, s).
     if r \<noteq> of_nat dirent_size then Panic ''unlink: writei''
     else bindR (if itype (itable s ip) = T_DIR then add_nlink p dp (-1) s else Ok s) (\<lambda>s.
          bindR (iunlockput p dp s) (\<lambda>s.
          bindR (add_nlink p ip (-1) s) (\<lambda>s.
          bindR (iunlockput p ip s) (\<lambda>s.
          bindR (end_op p s) (\<lambda>s. Ok (0, s)))))))"

definition sys_unlink :: "nat \<Rightarrow> 'a kernel_scheme \<Rightarrow> (uint64 \<times> 'a kernel_scheme) res" where
  "sys_unlink p s =
     bindR (argstr p 0 MAXPATH s) (\<lambda>(r0, path).
     if r0 < 0 then Ok (-1, s)
     else bindR (begin_op s) (\<lambda>s.
     bindR (nameiparent p path s) (\<lambda>(r, s).
     case r of None \<Rightarrow> fail_op p s
     | Some (dp, name) \<Rightarrow>
       bindR (ilock p dp s) (\<lambda>s.
       if namecmp name dot = 0 \<or> namecmp name dotdot = 0 then fail_put p dp s
       else bindR (dirlookup p dp name s) (\<lambda>(r, s).
         case r of None \<Rightarrow> fail_put p dp s
         | Some (ip, off) \<Rightarrow>
           bindR (ilock p ip s) (\<lambda>s.
           if sint (inlink (itable s ip)) < 1 then Panic ''unlink: nlink < 1''
           else bindR (if itype (itable s ip) = T_DIR then isdirempty p ip s else Ok (True, s)) (\<lambda>(e, s).
                if \<not> e then bindR (iunlockput p ip s) (fail_put p dp)
                else unlink_entry p dp ip off s)))))))"

definition create_fail :: "nat \<Rightarrow> nat \<Rightarrow> nat \<Rightarrow> 'a kernel_scheme \<Rightarrow> (nat option \<times> 'a kernel_scheme) res" where
  "create_fail p ip dp s =
     bindR (iupdate p ip (upd_inode ip (\<lambda>x. x\<lparr>inlink := 0\<rparr>) s)) (\<lambda>s.
     bindR (iunlockput p ip s) (\<lambda>s.
     bindR (iunlockput p dp s) (\<lambda>s. Ok (None, s))))"

definition create_new :: "nat \<Rightarrow> nat \<Rightarrow> uchar list \<Rightarrow> ushort \<Rightarrow> ushort \<Rightarrow> ushort \<Rightarrow> 'a kernel_scheme \<Rightarrow> (nat option \<times> 'a kernel_scheme) res" where
  "create_new p dp name type maj mnr s =
     bindR (ialloc p (idev (itable s dp)) type s) (\<lambda>(r, s).
     case r of None \<Rightarrow> bindR (iunlockput p dp s) (\<lambda>s. Ok (None, s))
     | Some ip \<Rightarrow>
       bindR (ilock p ip s) (\<lambda>s.
       bindR (iupdate p ip (upd_inode ip (\<lambda>x. x\<lparr>imajor := maj, iminor := mnr, inlink := 1\<rparr>) s)) (\<lambda>s.
       bindR (if type = T_DIR
              then bindR (dirlink p ip dot (inum (itable s ip)) s) (\<lambda>(r, s).
                   if r < 0 then Ok (r, s) else dirlink p ip dotdot (inum (itable s dp)) s)
              else Ok (0, s)) (\<lambda>(r, s).
       if r < 0 then create_fail p ip dp s
       else bindR (dirlink p dp name (inum (itable s ip)) s) (\<lambda>(r, s).
         if r < 0 then create_fail p ip dp s
         else bindR (if type = T_DIR then add_nlink p dp 1 s else Ok s) (\<lambda>s.
              bindR (iunlockput p dp s) (\<lambda>s. Ok (Some ip, s))))))))"

definition create :: "nat \<Rightarrow> uchar list \<Rightarrow> ushort \<Rightarrow> ushort \<Rightarrow> ushort \<Rightarrow> 'a kernel_scheme \<Rightarrow> (nat option \<times> 'a kernel_scheme) res" where
  "create p path type maj mnr s =
     bindR (nameiparent p path s) (\<lambda>(r, s).
     case r of None \<Rightarrow> Ok (None, s)
     | Some (dp, name) \<Rightarrow>
       bindR (ilock p dp s) (\<lambda>s.
       bindR (dirlookup p dp name s) (\<lambda>(r, s).
       case r of Some (ip, _) \<Rightarrow>
         bindR (iunlockput p dp s) (\<lambda>s.
         bindR (ilock p ip s) (\<lambda>s.
         if type = T_FILE \<and> (itype (itable s ip) = T_FILE \<or> itype (itable s ip) = T_DEVICE) then Ok (Some ip, s)
         else bindR (iunlockput p ip s) (\<lambda>s. Ok (None, s))))
       | None \<Rightarrow> create_new p dp name type maj mnr s)))"

text \<open>The second half of \<^verbatim>\<open>sys_open()\<close>: \<open>ip\<close> is found or created, and locked.\<close>

definition open_inode :: "nat \<Rightarrow> uint \<Rightarrow> nat \<Rightarrow> 'a kernel_scheme \<Rightarrow> (uint64 \<times> 'a kernel_scheme) res" where
  "open_inode p omode ip s =
     (let x = itable s ip in
      if itype x = T_DEVICE \<and> (sint (imajor x) < 0 \<or> sint (imajor x) \<ge> int NDEV) then fail_put p ip s
      else let (f, s) = filealloc s in
        case f of None \<Rightarrow> fail_put p ip s
        | Some f \<Rightarrow>
          let (fd, s) = fdalloc p f s in
          case fd of None \<Rightarrow> bindR (fileclose p f s) (fail_put p ip)
          | Some fd \<Rightarrow>
            let s = (if itype x = T_DEVICE then upd_file f (\<lambda>y. y\<lparr>ftype := FD_DEVICE, fmajor := imajor x\<rparr>) s
                     else upd_file f (\<lambda>y. y\<lparr>ftype := FD_INODE, foff := 0\<rparr>) s);
                s = upd_file f (\<lambda>y. y\<lparr>fip := ip, readable := (omode AND O_WRONLY = 0),
                      writable := (omode AND O_WRONLY \<noteq> 0 \<or> omode AND O_RDWR \<noteq> 0)\<rparr>) s
            in bindR (if omode AND O_TRUNC \<noteq> 0 \<and> itype x = T_FILE then itrunc p ip s else Ok s) (\<lambda>s.
               bindR (iunlock p ip s) (\<lambda>s.
               bindR (end_op p s) (\<lambda>s. Ok (of_nat fd, s)))))"

definition sys_open :: "nat \<Rightarrow> 'a kernel_scheme \<Rightarrow> (uint64 \<times> 'a kernel_scheme) res" where
  "sys_open p s =
     bindR (argint p 1 s) (\<lambda>n.
     let omode = word_of_int n in
     bindR (argstr p 0 MAXPATH s) (\<lambda>(r0, path).
     if r0 < 0 then Ok (-1, s)
     else bindR (begin_op s) (\<lambda>s.
     if omode AND O_CREATE \<noteq> 0
     then bindR (create p path T_FILE 0 0 s) (\<lambda>(r, s).
          case r of None \<Rightarrow> fail_op p s | Some ip \<Rightarrow> open_inode p omode ip s)
     else bindR (namei p path s) (\<lambda>(r, s).
          case r of None \<Rightarrow> fail_op p s
          | Some ip \<Rightarrow>
            bindR (ilock p ip s) (\<lambda>s.
            if itype (itable s ip) = T_DIR \<and> omode \<noteq> O_RDONLY then fail_put p ip s
            else open_inode p omode ip s)))))"

definition finish_create :: "nat \<Rightarrow> nat option \<times> 'a kernel_scheme \<Rightarrow> (uint64 \<times> 'a kernel_scheme) res" where
  "finish_create p = (\<lambda>(r, s).
     case r of None \<Rightarrow> fail_op p s
     | Some ip \<Rightarrow> bindR (iunlockput p ip s) (\<lambda>s. bindR (end_op p s) (\<lambda>s. Ok (0, s))))"

definition sys_mkdir :: "nat \<Rightarrow> 'a kernel_scheme \<Rightarrow> (uint64 \<times> 'a kernel_scheme) res" where
  "sys_mkdir p s =
     bindR (begin_op s) (\<lambda>s.
     bindR (argstr p 0 MAXPATH s) (\<lambda>(r0, path).
     if r0 < 0 then fail_op p s else bindR (create p path T_DIR 0 0 s) (finish_create p)))"

definition sys_mknod :: "nat \<Rightarrow> 'a kernel_scheme \<Rightarrow> (uint64 \<times> 'a kernel_scheme) res" where
  "sys_mknod p s =
     bindR (begin_op s) (\<lambda>s.
     bindR (argint p 1 s) (\<lambda>maj.
     bindR (argint p 2 s) (\<lambda>mnr.
     bindR (argstr p 0 MAXPATH s) (\<lambda>(r0, path).
     if r0 < 0 then fail_op p s
     else bindR (create p path T_DEVICE (word_of_int maj) (word_of_int mnr) s) (finish_create p)))))"

definition sys_chdir :: "nat \<Rightarrow> 'a kernel_scheme \<Rightarrow> (uint64 \<times> 'a kernel_scheme) res" where
  "sys_chdir p s =
     bindR (begin_op s) (\<lambda>s.
     bindR (argstr p 0 MAXPATH s) (\<lambda>(r0, path).
     if r0 < 0 then fail_op p s
     else bindR (namei p path s) (\<lambda>(r, s).
       case r of None \<Rightarrow> fail_op p s
       | Some ip \<Rightarrow>
         bindR (ilock p ip s) (\<lambda>s.
         if itype (itable s ip) \<noteq> T_DIR then fail_put p ip s
         else bindR (iunlock p ip s) (\<lambda>s.
              bindR (deref (cwd (procs s p))) (\<lambda>old.
              bindR (iput p old s) (\<lambda>s.
              bindR (end_op p s) (\<lambda>s. Ok (0, upd_proc p (\<lambda>x. x\<lparr>cwd := Some ip\<rparr>) s)))))))))"

section \<open>exec and pipe\<close>

text \<open>
  The argument loop of \<^verbatim>\<open>sys_exec()\<close>, with \<open>k\<close> slots of \<^verbatim>\<open>argv\<close> left: the pages allocated so far, newest last, each
  with the string in it, and whether the end of the user's array was reached.
\<close>

definition store_str :: "uint64 \<Rightarrow> uchar list \<Rightarrow> 'a kernel_scheme \<Rightarrow> 'a kernel_scheme" where
  "store_str a t s = s\<lparr>ph := (ph s)\<lparr>pmem := store_bytes (pmem (ph s)) a (t @ [0])\<rparr>\<rparr>"

primrec exec_args :: "nat \<Rightarrow> nat \<Rightarrow> uint64 \<Rightarrow> (uint64 \<times> uchar list) list \<Rightarrow> 'a kernel_scheme \<Rightarrow>
    (bool \<times> (uint64 \<times> uchar list) list \<times> 'a kernel_scheme) res" where
  "exec_args 0 p uargv args s = Ok (False, args, s)"
| "exec_args (Suc k) p uargv args s =
     bindR (fetchaddr p (uargv + 8 * of_nat (length args)) s) (\<lambda>(r, uarg, s).
     if r < 0 then Ok (False, args, s)
     else if uarg = 0 then Ok (True, args, s)
     else let (a, h) = kalloc (ph s); s = s\<lparr>ph := h\<rparr> in
       if a = 0 then Ok (False, args, s)
       else bindR (fetchstr p uarg 4096 s) (\<lambda>(r, t).
            if r < 0 then Ok (False, args @ [(a, [])], s)
            else exec_args k p uargv (args @ [(a, t)]) (store_str a t s)))"

definition free_args :: "(uint64 \<times> uchar list) list \<Rightarrow> 'a kernel_scheme \<Rightarrow> 'a kernel_scheme res" where
  "free_args args s = foldR (\<lambda>(a, t). on_ph (\<lambda>h. kfree h a)) args s"

definition sys_exec :: "nat \<Rightarrow> 'a kernel_scheme \<Rightarrow> (uint64 \<times> 'a kernel_scheme) res" where
  "sys_exec p s =
     bindR (argaddr p 1 s) (\<lambda>uargv.
     bindR (argstr p 0 MAXPATH s) (\<lambda>(r0, path).
     if r0 < 0 then Ok (-1, s)
     else bindR (exec_args MAXARG p uargv [] s) (\<lambda>(ok, args, s).
       if ok
       then bindR (kexec p path (map snd args) s) (\<lambda>(ret, s). bindR (free_args args s) (\<lambda>s. Ok (of_int ret, s)))
       else bindR (free_args args s) (\<lambda>s. Ok (-1, s)))))"

definition sys_pipe :: "nat \<Rightarrow> 'a kernel_scheme \<Rightarrow> (uint64 \<times> 'a kernel_scheme) res" where
  "sys_pipe p s =
     bindR (argaddr p 0 s) (\<lambda>fdarray.
     bindR (pipealloc p s) (\<lambda>(r, s).
     case r of None \<Rightarrow> Ok (-1, s)
     | Some (rfile, wfile) \<Rightarrow>
       let close2 = (\<lambda>s. bindR (fileclose p rfile s) (\<lambda>s. bindR (fileclose p wfile s) (\<lambda>s. Ok (-1, s))));
           (fd0, s) = fdalloc p rfile s in
       case fd0 of None \<Rightarrow> close2 s
       | Some fd0 \<Rightarrow>
         let (fd1, s) = fdalloc p wfile s in
         case fd1 of None \<Rightarrow> close2 (set_fd p fd0 None s)
         | Some fd1 \<Rightarrow>
           bindR (either_copyout p True fdarray (put32 (replicate 4 0) 0 (of_nat fd0)) s) (\<lambda>(r, s).
           bindR (if r < 0 then Ok (r, s) else either_copyout p True (fdarray + 4) (put32 (replicate 4 0) 0 (of_nat fd1)) s) (\<lambda>(r, s).
           if r < 0 then close2 (set_fd p fd1 None (set_fd p fd0 None s)) else Ok (0, s)))))"

end
