(* ===== verification/Trap.thy ===== *)
theory Trap
  imports Sysfile Scheduler
begin

text \<open>
  System-call dispatch (\<^verbatim>\<open>kernel/syscall.c\<close>, \<^verbatim>\<open>kernel/syscall.h\<close>) and traps (\<^verbatim>\<open>kernel/trap.c\<close>, and \<^verbatim>\<open>forkret()\<close> of \<^verbatim>\<open>kernel/proc.c\<close>).
  The control registers a handler reads and writes are a record. Device interrupts other than the
  clock are the argument \<open>devs\<close> of \<^verbatim>\<open>devintr()\<close>: what serving the claimed interrupt does to the state. What
  other threads do between the \<^verbatim>\<open>yield()\<close> of a handler and its return is the argument \<open>sw\<close>.
\<close>

section \<open>Dispatch\<close>

definition SYS_fork :: int where [simp]: "SYS_fork = 1"
definition SYS_exit :: int where [simp]: "SYS_exit = 2"
definition SYS_wait :: int where [simp]: "SYS_wait = 3"
definition SYS_pipe :: int where [simp]: "SYS_pipe = 4"
definition SYS_read :: int where [simp]: "SYS_read = 5"
definition SYS_kill :: int where [simp]: "SYS_kill = 6"
definition SYS_exec :: int where [simp]: "SYS_exec = 7"
definition SYS_fstat :: int where [simp]: "SYS_fstat = 8"
definition SYS_chdir :: int where [simp]: "SYS_chdir = 9"
definition SYS_dup :: int where [simp]: "SYS_dup = 10"
definition SYS_getpid :: int where [simp]: "SYS_getpid = 11"
definition SYS_sbrk :: int where [simp]: "SYS_sbrk = 12"
definition SYS_pause :: int where [simp]: "SYS_pause = 13"
definition SYS_uptime :: int where [simp]: "SYS_uptime = 14"
definition SYS_open :: int where [simp]: "SYS_open = 15"
definition SYS_write :: int where [simp]: "SYS_write = 16"
definition SYS_mknod :: int where [simp]: "SYS_mknod = 17"
definition SYS_unlink :: int where [simp]: "SYS_unlink = 18"
definition SYS_link :: int where [simp]: "SYS_link = 19"
definition SYS_mkdir :: int where [simp]: "SYS_mkdir = 20"
definition SYS_close :: int where [simp]: "SYS_close = 21"
definition SYS_sync :: int where [simp]: "SYS_sync = 22"
definition SYS_setpriority :: int where [simp]: "SYS_setpriority = 23"

text \<open>The table \<^verbatim>\<open>syscalls\<close>. A call that returns gives \<open>Some\<close> value for \<^verbatim>\<open>a0\<close>.\<close>

definition returns :: "(uint64 \<times> 'k) res \<Rightarrow> (uint64 option \<times> 'k) res" where
  "returns r = bindR r (\<lambda>(v, s). Ok (Some v, s))"

definition syscalls :: "'a kernel_scheme devsw \<Rightarrow> int \<Rightarrow> (nat \<Rightarrow> 'a kernel_scheme \<Rightarrow> (uint64 option \<times> 'a kernel_scheme) res) option" where
  "syscalls dv = map_of [
     (SYS_fork, \<lambda>p s. returns (sys_fork p s)),
     (SYS_exit, sys_exit),
     (SYS_wait, \<lambda>p s. returns (sys_wait p s)),
     (SYS_pipe, \<lambda>p s. returns (sys_pipe p s)),
     (SYS_read, \<lambda>p s. returns (sys_read dv p s)),
     (SYS_kill, \<lambda>p s. returns (sys_kill p s)),
     (SYS_exec, \<lambda>p s. returns (sys_exec p s)),
     (SYS_fstat, \<lambda>p s. returns (sys_fstat p s)),
     (SYS_chdir, \<lambda>p s. returns (sys_chdir p s)),
     (SYS_dup, \<lambda>p s. returns (sys_dup p s)),
     (SYS_getpid, \<lambda>p s. returns (sys_getpid p s)),
     (SYS_sbrk, \<lambda>p s. returns (sys_sbrk p s)),
     (SYS_pause, \<lambda>p s. returns (sys_pause p s)),
     (SYS_uptime, \<lambda>p s. returns (sys_uptime p s)),
     (SYS_open, \<lambda>p s. returns (sys_open p s)),
     (SYS_write, \<lambda>p s. returns (sys_write dv p s)),
     (SYS_mknod, \<lambda>p s. returns (sys_mknod p s)),
     (SYS_unlink, \<lambda>p s. returns (sys_unlink p s)),
     (SYS_link, \<lambda>p s. returns (sys_link p s)),
     (SYS_mkdir, \<lambda>p s. returns (sys_mkdir p s)),
     (SYS_close, \<lambda>p s. returns (sys_close p s)),
     (SYS_sync, \<lambda>p s. returns (bindR (sys_sync s) (\<lambda>s. Ok (0, s)))),
     (SYS_setpriority, \<lambda>p s. returns (sys_setpriority p s))]"

text \<open>\<^verbatim>\<open>syscall()\<close>; the flag says that it returns.\<close>

definition syscall :: "'a kernel_scheme devsw \<Rightarrow> nat \<Rightarrow> 'a kernel_scheme \<Rightarrow> (bool \<times> 'a kernel_scheme) res" where
  "syscall dv p s =
     (let num = sint (ucast (load_tf s p tf_a7) :: uint) in
      case syscalls dv num of
        None \<Rightarrow> Ok (True, store_tf p tf_a0 (-1) s)
      | Some f \<Rightarrow> bindR (f p s) (\<lambda>(r, s).
          case r of None \<Rightarrow> Ok (False, s) | Some v \<Rightarrow> Ok (True, store_tf p tf_a0 v s)))"

section \<open>Traps\<close>

definition SSTATUS_SPP :: uint64 where [simp]: "SSTATUS_SPP = 0x100"
definition SSTATUS_SPIE :: uint64 where [simp]: "SSTATUS_SPIE = 0x20"
definition SSTATUS_SIE :: uint64 where [simp]: "SSTATUS_SIE = 0x2"

text \<open>The hart's registers, and the addresses of the trap vectors and of \<^verbatim>\<open>usertrap()\<close>, which the linker chooses.\<close>

record csrs =
  hartid :: uint64
  sstatus :: uint64
  sepc :: uint64
  scause :: uint64
  stval :: uint64
  stvec :: uint64
  satp :: uint64

record vectors =
  kernelvec :: uint64
  uservec :: uint64
  userret :: uint64
  usertrap_pc :: uint64

definition trapinithart :: "vectors \<Rightarrow> csrs \<Rightarrow> csrs" where
  "trapinithart v c = c\<lparr>stvec := kernelvec v\<rparr>"

definition prepare_return :: "vectors \<Rightarrow> nat \<Rightarrow> csrs \<times> 'a kstate_scheme \<Rightarrow> csrs \<times> 'a kstate_scheme" where
  "prepare_return v p = (\<lambda>(c, s).
     let c = c\<lparr>sstatus := sstatus c AND NOT SSTATUS_SIE\<rparr>;
         c = c\<lparr>stvec := TRAMPOLINE + (uservec v - trampoline s)\<rparr>;
         s = store_tf p tf_kernel_satp (satp c) s;
         s = store_tf p tf_kernel_sp (kstack (procs s p) + PGSIZE) s;
         s = store_tf p tf_kernel_trap (usertrap_pc v) s;
         s = store_tf p tf_kernel_hartid (hartid c) s;
         x = (sstatus c AND NOT SSTATUS_SPP) OR SSTATUS_SPIE
     in (c\<lparr>sstatus := x, sepc := load_tf s p tf_epc\<rparr>, s))"

definition devintr :: "('a kernel_scheme \<Rightarrow> 'a kernel_scheme) \<Rightarrow> nat option \<Rightarrow> csrs \<Rightarrow> 'a kernel_scheme \<Rightarrow> int \<times> 'a kernel_scheme" where
  "devintr devs me c s =
     (if scause c = 0x8000000000000009 then (1, devs s)
      else if scause c = 0x8000000000000005 then (2, clockintr (unat (hartid c)) me s)
      else (0, s))"

text \<open>
  How a trap from user space ends: back to user space with the given \<^verbatim>\<open>satp\<close>, or the process has exited.
\<close>

datatype trap_end = ToUser uint64 | Gone

text \<open>The middle of \<^verbatim>\<open>usertrap()\<close>, by cause: the device number, or nothing when the process has exited.\<close>

definition usertrap_cause :: "'a kernel_scheme devsw \<Rightarrow> ('a kernel_scheme \<Rightarrow> 'a kernel_scheme) \<Rightarrow> nat \<Rightarrow> csrs \<Rightarrow> 'a kernel_scheme \<Rightarrow>
    (int option \<times> 'a kernel_scheme) res" where
  "usertrap_cause dv devs p c s =
     (let x = procs s p in
      if scause c = 8
      then if killed s p \<noteq> 0 then bindR (kexit p (-1) s) (\<lambda>s. Ok (None, s))
           else bindR (syscall dv p (store_tf p tf_epc (load_tf s p tf_epc + 4) s)) (\<lambda>(ret, s). Ok (if ret then Some 0 else None, s))
      else let (which_dev, s) = devintr devs (Some p) c s in
        if which_dev \<noteq> 0 then Ok (Some which_dev, s)
        else bindR (if scause c = 15 then with_ph (\<lambda>h. cowfault h (pagetable x) (stval c)) s else Ok (0, s)) (\<lambda>(pa, s).
             if pa \<noteq> 0 then Ok (Some 0, s)
             else bindR (if scause c = 15 \<or> scause c = 13
                         then with_ph (\<lambda>h. vmfault (sz x) (pagetable x) h (pagetable x) (stval c)) s else Ok (0, s)) (\<lambda>(pa, s).
                  if pa \<noteq> 0 then Ok (Some 0, s) else Ok (Some 0, setkilled p s))))"

definition usertrap :: "vectors \<Rightarrow> 'a kernel_scheme devsw \<Rightarrow> ('a kernel_scheme \<Rightarrow> 'a kernel_scheme) \<Rightarrow> ('a kernel_scheme \<Rightarrow> 'a kernel_scheme) \<Rightarrow>
    nat \<Rightarrow> csrs \<times> 'a kernel_scheme \<Rightarrow> (trap_end \<times> csrs \<times> 'a kernel_scheme) res" where
  "usertrap v dv devs sw p = (\<lambda>(c, s).
     if sstatus c AND SSTATUS_SPP \<noteq> 0 then Panic ''usertrap: not from user mode''
     else let c = c\<lparr>stvec := kernelvec v\<rparr>; s = store_tf p tf_epc (sepc c) s;
              c1 = (if scause c = 8 \<and> killed s p = 0 then c\<lparr>sstatus := sstatus c OR SSTATUS_SIE\<rparr> else c) in
       bindR (usertrap_cause dv devs p c s) (\<lambda>(which_dev, s).
       case which_dev of None \<Rightarrow> Ok (Gone, c1, s)
       | Some w \<Rightarrow>
         if killed s p \<noteq> 0 then bindR (kexit p (-1) s) (\<lambda>s. Ok (Gone, c1, s))
         else let s = (if w = 2 then sw (upd_proc p make_runnable s) else s);
                  (c, s) = prepare_return v p (c1, s)
              in Ok (ToUser (MAKE_SATP (pagetable (procs s p))), c, s)))"

definition kerneltrap :: "('a kernel_scheme \<Rightarrow> 'a kernel_scheme) \<Rightarrow> ('a kernel_scheme \<Rightarrow> csrs \<times> 'a kernel_scheme) \<Rightarrow>
    nat option \<Rightarrow> csrs \<times> 'a kernel_scheme \<Rightarrow> (csrs \<times> 'a kernel_scheme) res" where
  "kerneltrap devs sw me = (\<lambda>(c, s).
     if sstatus c AND SSTATUS_SPP = 0 then Panic ''kerneltrap: not from supervisor mode''
     else if sstatus c AND SSTATUS_SIE \<noteq> 0 then Panic ''kerneltrap: interrupts enabled''
     else let (which_dev, s) = devintr devs me c s in
       if which_dev = 0 then Panic ''kerneltrap''
       else let (c', s) = (case me of Some p \<Rightarrow> if which_dev = 2 then sw (upd_proc p make_runnable s) else (c, s) | None \<Rightarrow> (c, s))
            in Ok (c'\<lparr>sepc := sepc c, sstatus := sstatus c\<rparr>, s))"

text \<open>
  The first code a new process runs. \<open>first\<close> is the static variable; the first process of all starts the file
  system and loads \<^verbatim>\<open>/init\<close>.
\<close>

definition init_path :: "uchar list" where
  "init_path = [47, 105, 110, 105, 116]"

definition forkret :: "vectors \<Rightarrow> nat \<Rightarrow> bool \<Rightarrow> csrs \<times> 'a kernel_scheme \<Rightarrow> (uint64 \<times> bool \<times> csrs \<times> 'a kernel_scheme) res" where
  "forkret v p first = (\<lambda>(c, s).
     bindR (if first
            then bindR (fsinit p ROOTDEV s) (\<lambda>s.
                 bindR (kexec p init_path [init_path] s) (\<lambda>(r, s).
                 let s = store_tf p tf_a0 (of_int r) s in
                 if load_tf s p tf_a0 = -1 then Panic ''exec'' else Ok s))
            else Ok s) (\<lambda>s.
     let (c, s) = prepare_return v p (c, s) in
     Ok (MAKE_SATP (pagetable (procs s p)), False, c, s)))"

end
