(* ===== verification/Fs_Block.thy ===== *)
theory Fs_Block
  imports Fs Log_Props
begin

text \<open>
  The two ways the file system uses a block inside a transaction: read it, or change it through the log. Both
  are stated on the logical disk \<open>lblk\<close>, what a reader of a block sees; they carry the proofs about inodes, the
  bitmap and file contents.
\<close>

section \<open>What the block layer leaves alone\<close>

text \<open>
  \<open>fs_only s s'\<close>: processes may have been woken and the cache and the log differ; the disk, the memory, the
  inode table and everything else are the same.
\<close>

definition fs_only :: "'a lstate_scheme \<Rightarrow> 'a lstate_scheme \<Rightarrow> bool" where
  "fs_only s s' \<longleftrightarrow> woken s s' \<and> s' = s\<lparr>procs := procs s', bufs := bufs s', lru := lru s', lg := lg s'\<rparr>"

lemma fs_only_refl [simp]: "fs_only s s"
  by (simp add: fs_only_def)

lemma fs_only_cases:
  assumes "fs_only s s'"
  obtains P B L G where "s' = s\<lparr>procs := P, bufs := B, lru := L, lg := G\<rparr>" "woken s s'"
  using assms unfolding fs_only_def by blast

lemma fs_only_trans: "fs_only s s1 \<Longrightarrow> fs_only s1 s2 \<Longrightarrow> fs_only s s2"
proof -
  assume a: "fs_only s s1" "fs_only s1 s2"
  obtain P B L G where 1: "s1 = s\<lparr>procs := P, bufs := B, lru := L, lg := G\<rparr>" "woken s s1" using a(1) by (rule fs_only_cases)
  obtain P' B' L' G' where 2: "s2 = s1\<lparr>procs := P', bufs := B', lru := L', lg := G'\<rparr>" "woken s1 s2" using a(2) by (rule fs_only_cases)
  have "woken s s2" using 1(2) 2(2) by (rule woken_trans)
  then show ?thesis unfolding fs_only_def using 1(1) 2(1) by simp
qed

lemma fs_only_io: "io_only s s' \<Longrightarrow> disk s' = disk s \<Longrightarrow> dtrace s' = dtrace s \<Longrightarrow> fs_only s s'"
proof -
  assume a: "io_only s s'" "disk s' = disk s" "dtrace s' = dtrace s"
  then obtain P B L where "s' = s\<lparr>procs := P, bufs := B, lru := L, disk := disk s, dtrace := dtrace s\<rparr>"
    unfolding io_only_def by metis
  then have e: "s' = s\<lparr>procs := P, bufs := B, lru := L\<rparr>" by simp
  then show ?thesis using a(1) unfolding fs_only_def io_only_def by simp
qed

lemma fs_only_fields:
  assumes "fs_only s s'"
  shows "disk s' = disk s" "dtrace s' = dtrace s" "ph s' = ph s" "ticks s' = ticks s" "mypid s' p = mypid s p"
proof -
  obtain P B L G where e: "s' = s\<lparr>procs := P, bufs := B, lru := L, lg := G\<rparr>" and w: "woken s s'" using assms by (rule fs_only_cases)
  show "disk s' = disk s" "dtrace s' = dtrace s" "ph s' = ph s" "ticks s' = ticks s" by (simp_all add: e)
  show "mypid s' p = mypid s p" using w by (rule woken_mypid)
qed

lemma fs_only_inodes:
  fixes s :: "'a fstate_scheme"
  assumes "fs_only s s'"
  shows "itable s' = itable s" "sb s' = sb s"
proof -
  obtain P B L G where "s' = s\<lparr>procs := P, bufs := B, lru := L, lg := G\<rparr>" using assms by (rule fs_only_cases)
  then show "itable s' = itable s" "sb s' = sb s" by simp_all
qed

lemma fs_only_upd_log: "fs_only s (upd_log f s)"
  by (simp add: fs_only_def upd_log_def woken_def)

section \<open>The inode table is no part of the cache\<close>

lemma held_cong:
  assumes "bufs s' = bufs s" "lru s' = lru s" "disk s' = disk s" "mypid s' p = mypid s p"
  shows "held p P H s' = held p P H s" "lblk s' = lblk s" "cached s' b i = cached s b i"
proof -
  have c: "cached s' b i = cached s b i" for b i unfolding cached_def assms ..
  then show "cached s' b i = cached s b i" .
  have "bio_inv s' = bio_inv s" unfolding bio_inv_def c assms ..
  then show "held p P H s' = held p P H s" unfolding held_def c assms by simp
  show "lblk s' = lblk s" by (rule ext) (simp only: lblk_def assms)
qed

lemma upd_inode_fields [simp]:
  "bufs (upd_inode ip f s) = bufs s" "lru (upd_inode ip f s) = lru s" "disk (upd_inode ip f s) = disk s"
  "dtrace (upd_inode ip f s) = dtrace s" "lg (upd_inode ip f s) = lg s" "procs (upd_inode ip f s) = procs s"
  "ph (upd_inode ip f s) = ph s" "sb (upd_inode ip f s) = sb s" "itable (upd_inode ip f s) = (itable s)(ip := f (itable s ip))"
  "mypid (upd_inode ip f s) p = mypid s p"
  by (simp_all add: upd_inode_def mypid_def)

lemma upd_inode_cache [simp]:
  "held p P H (upd_inode ip f s) = held p P H s" "lblk (upd_inode ip f s) = lblk s" "cached (upd_inode ip f s) b i = cached s b i"
  "log_inv p H (upd_inode ip f s) = log_inv p H s"
  using held_cong [of "upd_inode ip f s" s] by (simp_all add: log_inv_def)

section \<open>Inside a transaction\<close>

text \<open>
  \<open>txn p k s\<close>: process \<open>p\<close> runs an operation, holds no buffer, and may log \<open>k\<close> more blocks with a cache large enough
  to read two more and to commit.
\<close>

definition txn :: "nat \<Rightarrow> nat \<Rightarrow> 'a lstate_scheme \<Rightarrow> bool" where
  "txn p k s \<longleftrightarrow> log_inv p {} s \<and> 1 \<le> outstanding (lg s) \<and> nat (lhn (lg s)) + k + 2 \<le> NBUF"

definition log_bound :: "nat \<Rightarrow> 'a lstate_scheme \<Rightarrow> 'a lstate_scheme \<Rightarrow> bool" where
  "log_bound k s s' \<longleftrightarrow> lhn (lg s') \<le> lhn (lg s) + int k \<and> outstanding (lg s') = outstanding (lg s) \<and> lstart (lg s') = lstart (lg s)"

lemma log_inv_lhn: "log_inv p H s \<Longrightarrow> 0 \<le> lhn (lg s)"
  by (simp add: log_inv_def lg_wf_def)

lemma log_inv_room:
  assumes "log_inv p H s" and "nat (lhn (lg s)) + card H < NBUF"
  shows "card (pinned (log_pins (lg s))) + card H < NBUF"
  using assms card_log_pins [of "lg s"] by (simp add: log_inv_def)

lemma io_only_log_inv:
  assumes io: "io_only s s'" and inv: "log_inv p H s" and h: "held p (log_pins (lg s)) H' s'" and d: "disk s' = disk s"
  shows "log_inv p H' s'" "lg s' = lg s"
proof -
  show l: "lg s' = lg s" using io_only_lg [OF io] .
  show "log_inv p H' s'" using inv h d l by (simp add: log_inv_def)
qed

text \<open>Reading a block: the buffer holds its contents; releasing it again changes nothing.\<close>

lemma block_read:
  assumes inv: "log_inv p H s" and b: "b \<notin> H" and room: "nat (lhn (lg s)) + card H < NBUF"
  obtains i s1 where "bread p ROOTDEV b s = Ok (i, s1)" "bdata (bufs s1 i) = lblk s b" "log_inv p (insert b H) s1" "cached s1 b i"
    "lblk s1 = lblk s" "fs_only s s1" "lg s1 = lg s" "log_pins (lg s) b = 0 \<longrightarrow> lblk s b = disk s b"
proof -
  have h: "held p (log_pins (lg s)) H s" using inv by (rule log_inv_held)
  obtain i s1 where r: "bread p ROOTDEV b s = Ok (i, s1)" "cached s1 b i" "bdata (bufs s1 i) = lblk s b"
    "held p (log_pins (lg s)) (insert b H) s1" "lblk s1 = lblk s" "disk s1 = disk s" "dtrace s1 = dtrace s" "io_only s s1"
    "log_pins (lg s) b = 0 \<Longrightarrow> lblk s b = disk s b"
    by (rule held_bread [OF h b log_inv_room [OF inv room]]) blast
  note l = io_only_log_inv [OF r(8) inv r(4,6)]
  show thesis by (rule that [OF r(1,3) l(1) r(2,5) fs_only_io [OF r(8,6,7)] l(2)]) (use r(9) in blast)
qed

lemma block_release:
  assumes inv: "log_inv p H s" and b: "b \<in> H" "cached s b i" and clean: "log_pins (lg s) b = 0 \<longrightarrow> lblk s b = disk s b"
  obtains s' where "brelse p i s = Ok s'" "log_inv p (H - {b}) s'" "lblk s' = lblk s" "fs_only s s'" "lg s' = lg s"
    "\<And>b' j. cached s' b' j = cached s b' j"
proof -
  have h: "held p (log_pins (lg s)) H s" using inv by (rule log_inv_held)
  obtain s' where r: "brelse p i s = Ok s'" "held p (log_pins (lg s)) (H - {b}) s'" "lblk s' = lblk s" "io_only s s'"
    "\<And>b' j. cached s' b' j = cached s b' j" "disk s' = disk s" "dtrace s' = dtrace s"
    by (rule held_brelse [OF h b]) (use clean in blast)+
  note l = io_only_log_inv [OF r(4) inv r(2,6)]
  show thesis by (rule that [OF r(1) l(1) r(3) fs_only_io [OF r(4,6,7)] l(2) r(5)])
qed

text \<open>Changing a block that is held: the change goes to the log, and the block is pinned until the commit.\<close>

lemma block_log:
  assumes inv: "log_inv p H s" and b: "b \<in> H" "cached s b i" "b \<notin> log_area (lstart (lg s))"
    and n: "lhn (lg s) < int LOGBLOCKS" "1 \<le> outstanding (lg s)"
  obtains s' where "log_write i (set_bdata i d s) = Ok s'" "log_inv p H s'" "lblk s' = (lblk s)(b := d)" "fs_only s s'" "log_bound 1 s s'"
    "\<And>b' j. cached s' b' j = cached s b' j" "log_pins (lg s') b = 1"
    "pinned (log_pins (lg s)) \<subseteq> pinned (log_pins (lg s'))"
proof -
  let ?s = "set_bdata i d s"
  note hs = held_set [OF log_inv_held [OF inv] b(1,2), of d]
  have lg0: "lg ?s = lg s" by (simp add: set_bdata_def upd_buf_def)
  have inv0: "log_inv p H ?s" using inv hs(1,5) by (simp add: log_inv_def lg0)
  obtain s' where w: "log_write i ?s = Ok s'" "log_inv p H s'" "lblk s' = lblk ?s" "disk s' = disk ?s" "dtrace s' = dtrace ?s"
    "\<And>b' j. cached s' b' j = cached ?s b' j"
    "lhblock (lg s') ` {..<nat (lhn (lg s'))} = insert b (lhblock (lg ?s) ` {..<nat (lhn (lg ?s))})"
    "lhn (lg s') \<le> lhn (lg ?s) + 1" "outstanding (lg s') = outstanding (lg ?s)" "lstart (lg s') = lstart (lg ?s)"
    "\<exists>f. io_only (upd_log f ?s) s'"
    using log_write_spec [OF inv0 b(1) _ _, of i] b(2,3) n hs(4) unfolding lg0 by metis
  obtain f where f: "io_only (upd_log f ?s) s'" using w(11) by blast
  have "fs_only (upd_log f ?s) s'" using f w(4,5) by (intro fs_only_io) simp_all
  moreover have "fs_only s ?s" using hs(3,5,6) by (rule fs_only_io)
  ultimately have fo: "fs_only s s'" using fs_only_upd_log fs_only_trans by blast
  have pin: "log_pins (lg s') b' = of_bool (b' = b \<or> b' \<in> lhblock (lg s) ` {..<nat (lhn (lg s))})" for b'
    unfolding log_pins_def w(7) lg0 by simp
  show thesis
  proof (rule that [OF w(1,2) _ fo])
    show "log_bound 1 s s'" using w(8-10) by (simp add: log_bound_def lg0)
    show "lblk s' = (lblk s)(b := d)" using w(3) hs(2) by simp
    show "cached s' b' j = cached s b' j" for b' j using w(6) hs(4) by simp
    show "log_pins (lg s') b = 1" using pin by simp
    show "pinned (log_pins (lg s)) \<subseteq> pinned (log_pins (lg s'))" unfolding pinned_def pin by (auto simp: log_pins_def)
  qed
qed

lemma block_log_release:
  assumes inv: "log_inv p H s" and b: "b \<in> H" "cached s b i" "b \<notin> log_area (lstart (lg s))"
    and n: "lhn (lg s) < int LOGBLOCKS" "1 \<le> outstanding (lg s)"
  obtains s' where "log_brelse p i (set_bdata i d s) = Ok s'" "log_inv p (H - {b}) s'" "lblk s' = (lblk s)(b := d)" "fs_only s s'"
    "log_bound 1 s s'" "\<And>b' j. cached s' b' j = cached s b' j" "pinned (log_pins (lg s)) \<subseteq> pinned (log_pins (lg s'))"
proof -
  obtain s1 where w: "log_write i (set_bdata i d s) = Ok s1" "log_inv p H s1" "lblk s1 = (lblk s)(b := d)" "fs_only s s1" "log_bound 1 s s1"
    "\<And>b' j. cached s1 b' j = cached s b' j" "log_pins (lg s1) b = 1" "pinned (log_pins (lg s)) \<subseteq> pinned (log_pins (lg s1))"
    by (rule block_log [OF assms, of d]) (rule that)
  have c1: "cached s1 b i" and cl: "log_pins (lg s1) b = 0 \<longrightarrow> lblk s1 b = disk s1 b" using w(6,7) b(2) by simp_all
  obtain s2 where r: "brelse p i s1 = Ok s2" "log_inv p (H - {b}) s2" "lblk s2 = lblk s1" "fs_only s1 s2" "lg s2 = lg s1"
    "\<And>b' j. cached s2 b' j = cached s1 b' j"
    by (rule block_release [OF w(2) b(1) c1 cl]) (rule that)
  show thesis
    by (rule that [of s2]) (use w r fs_only_trans [OF w(4) r(4)] in \<open>simp_all add: log_brelse_def log_bound_def\<close>)
qed

lemma txnD:
  assumes "txn p k s"
  shows "log_inv p {} s" "1 \<le> outstanding (lg s)" "nat (lhn (lg s)) + k + 2 \<le> NBUF" "lhn (lg s) < int LOGBLOCKS"
  using assms log_inv_lhn [of p "{}" s] by (auto simp: txn_def)

lemma txn_log_bound:
  assumes "txn p (j + k) s" and "log_inv p {} s'" and "log_bound j s s'"
  shows "txn p k s'"
  using assms log_inv_lhn [OF assms(2)] by (auto simp: txn_def log_bound_def)

text \<open>The whole of a read, and the whole of a change.\<close>

lemma block_peek:
  assumes t: "txn p k s"
  obtains i s1 s2 where "bread p ROOTDEV b s = Ok (i, s1)" "bdata (bufs s1 i) = lblk s b" "fs_only s s1" "brelse p i s1 = Ok s2"
    "txn p k s2" "lblk s2 = lblk s" "fs_only s s2" "lg s2 = lg s"
proof -
  note d = txnD [OF t]
  obtain i s1 where r: "bread p ROOTDEV b s = Ok (i, s1)" "bdata (bufs s1 i) = lblk s b" "log_inv p (insert b {}) s1" "cached s1 b i"
    "lblk s1 = lblk s" "fs_only s s1" "lg s1 = lg s" "log_pins (lg s) b = 0 \<longrightarrow> lblk s b = disk s b"
    by (rule block_read [OF d(1), of b]) (use d(3) in auto)
  have "log_pins (lg s1) b = 0 \<longrightarrow> lblk s1 b = disk s1 b" using r(5,7,8) fs_only_fields(1) [OF r(6)] by simp
  then obtain s2 where r2: "brelse p i s1 = Ok s2" "log_inv p (insert b {} - {b}) s2" "lblk s2 = lblk s1" "fs_only s1 s2" "lg s2 = lg s1"
    by (rule block_release [OF r(3) insertI1 r(4)])
  have "txn p k s2" using r2(2,5) r(7) t by (simp add: txn_def)
  then show thesis using that [OF r(1,2,6) r2(1)] r r2 fs_only_trans [OF r(6) r2(4)] by simp
qed

lemma block_modify:
  assumes t: "txn p (Suc k) s" and b: "b \<notin> log_area (lstart (lg s))"
  obtains i s1 where "bread p ROOTDEV b s = Ok (i, s1)" "bdata (bufs s1 i) = lblk s b" "fs_only s s1"
    "\<forall>d. \<exists>s2. log_brelse p i (set_bdata i d s1) = Ok s2 \<and> txn p k s2 \<and> lblk s2 = (lblk s)(b := d) \<and> fs_only s s2 \<and> log_bound 1 s s2"
proof -
  note d = txnD [OF t]
  obtain i s1 where r: "bread p ROOTDEV b s = Ok (i, s1)" "bdata (bufs s1 i) = lblk s b" "log_inv p (insert b {}) s1" "cached s1 b i"
    "lblk s1 = lblk s" "fs_only s s1" "lg s1 = lg s"
    by (rule block_read [OF d(1), of b]) (use d(3) in auto)
  have "\<exists>s2. log_brelse p i (set_bdata i e s1) = Ok s2 \<and> txn p k s2 \<and> lblk s2 = (lblk s)(b := e) \<and> fs_only s s2 \<and> log_bound 1 s s2" for e
  proof -
    obtain s2 where w: "log_brelse p i (set_bdata i e s1) = Ok s2" "log_inv p (insert b {} - {b}) s2" "lblk s2 = (lblk s1)(b := e)"
      "fs_only s1 s2" "log_bound 1 s1 s2"
      by (rule block_log_release [OF r(3) _ r(4), of e]) (use b d r(7) in simp_all)
    have lb: "log_bound 1 s s2" using w(5) r(7) by (simp add: log_bound_def)
    have "txn p k s2" by (rule txn_log_bound [OF _ _ lb]) (use t w(2) in simp_all)
    then show ?thesis using w(1,3) r(5) fs_only_trans [OF r(6) w(4)] lb by auto
  qed
  then show thesis using that [OF r(1,2,6)] by blast
qed

definition zero_inode :: inode where
  "zero_inode = \<lparr>idev = 0, inum = 0, iref = 0, ilk = initsleeplock, ivalid = False, itype = 0, imajor = 0, iminor = 0, inlink = 0,
     isize = 0, iaddrs = replicate (NDIRECT + 1) 0\<rparr>"

text \<open>A machine in its first operation on the disk \<open>d\<close>, with nothing cached or logged.\<close>

definition idle_fs :: "(uint \<Rightarrow> block) \<Rightarrow> (nat \<Rightarrow> inode) \<Rightarrow> fstate" where
  "idle_fs d it = \<lparr>ph = boot_phys, procs = (\<lambda>_. zero_proc), nextpid = 1, initproc = None, ticks = 0,
     trampoline = 0, forkret_pc = 0, bufs = (\<lambda>_. zero_buf), lru = [0..<NBUF], disk = d, dtrace = [], lg = open_log 0 (\<lambda>_. 0),
     sb = \<lparr>sb_magic = FSMAGIC, sb_size = 2000, sb_nblocks = 1954, sb_ninodes = 200, sb_nlog = 31, sb_logstart = 2,
     sb_inodestart = 33, sb_bmapstart = 46\<rparr>, itable = it\<rparr>"

lemma idle_simps [simp]:
  "disk (idle_fs d it) = d" "itable (idle_fs d it) = it" "lg (idle_fs d it) = open_log 0 (\<lambda>_. 0)"
  "sb_size (sb (idle_fs d it)) = 2000" "sb_inodestart (sb (idle_fs d it)) = 33" "sb_bmapstart (sb (idle_fs d it)) = 46"
  "lstart (open_log 0 (\<lambda>_. 0)) = 2"
  by (simp_all add: idle_fs_def open_log_def)

lemma idle_bio: "\<not> cached (idle_fs d it) b i" "bio_inv (idle_fs d it)"
proof -
  show c: "\<not> cached (idle_fs d it) b i" for b i by (simp add: cached_def idle_fs_def zero_buf_def)
  show "bio_inv (idle_fs d it)"
    by (rule bio_invI) (auto simp: c, auto simp: idle_fs_def zero_buf_def initsleeplock_def)
qed

lemma idle_lblk [simp]: "lblk (idle_fs d it) = d"
  by (rule ext) (subst lblk_miss, simp_all add: idle_bio)

lemma idle_txn:
  assumes "get32 (d 2) 0 = 0" "length (d 2) = BSIZE" and "k + 2 \<le> NBUF"
  shows "txn p k (idle_fs d it)"
proof -
  have "held p (\<lambda>_. 0) {} (idle_fs d it)" by (rule heldI) (auto simp: idle_bio, auto simp: idle_fs_def zero_buf_def)
  moreover have "log_pins (open_log 0 (\<lambda>_. 0)) = (\<lambda>_. 0)" by (auto simp: log_pins_def open_log_def fun_eq_iff)
  ultimately show ?thesis using assms by (simp add: txn_def log_inv_def lg_wf_def hdr_n_def open_log_def)
qed

end
