(* ===== verification/Pipe_Props.thy ===== *)
theory Pipe_Props
  imports Fs_Block Pipe
begin

text \<open>
  What \<^verbatim>\<open>pipewrite()\<close> and \<^verbatim>\<open>piperead()\<close> do, between the memory of the calling process and the queue of bytes in
  the pipe: no byte is lost, duplicated or reordered, and the pipe never holds more than \<^verbatim>\<open>PIPESIZE\<close> bytes.
\<close>

section \<open>One byte to and from user memory\<close>

definition space_ok :: "uint64 set \<Rightarrow> (uint64 \<Rightarrow> int) \<Rightarrow> nat \<Rightarrow> 'a kstate_scheme \<Rightarrow> bool" where
  "space_ok R X p s \<longleftrightarrow> vm_inv (ph s) R X \<and> (\<forall>x. 0 \<le> X x) \<and> pagetable (procs s p) \<in> R \<and> sz (procs s p) \<le> TRAPFRAME"

lemma copyin_byte:
  assumes "space_ok R X p s"
  obtains ret bs h where "either_copyin p True a 1 s = Ok (ret, bs, s\<lparr>ph := h\<rparr>)" "space_ok R X p (s\<lparr>ph := h\<rparr>)"
    "view_ext (ph s) R (pagetable (procs s p)) h"
    "ret = 0 \<and> (\<exists>b. bs = [b] \<and> uview (pmem h) (pagetable (procs s p)) a = Some b) \<or>
     ret = -1 \<and> uview (pmem (ph s)) (pagetable (procs s p)) a = None"
proof -
  let ?r = "pagetable (procs s p)"
  have a: "vm_inv (ph s) R X" "\<forall>x. 0 \<le> X x" "?r \<in> R" "sz (procs s p) \<le> TRAPFRAME" using assms by (auto simp: space_ok_def)
  obtain ret bs h where c: "copyin_loop 2 (sz (procs s p)) ?r (ph s) ?r a 1 = Ok (ret, bs, h)" "vm_inv h R X" "view_ext (ph s) R ?r h"
    "reads h ?r a bs" "ret = 0 \<and> length bs = 1 \<or> ret = -1" "(\<forall>i<1. uview (pmem (ph s)) ?r (a + of_nat i) \<noteq> None) \<longrightarrow> ret = 0"
    using copyin_vm [OF a(1,3,4), of 1 2 a] by auto
  have e: "either_copyin p True a 1 s = Ok (ret, bs, s\<lparr>ph := h\<rparr>)"
    by (simp only: either_copyin_def copyin_def one_add_one c(1)) simp
  have "ret = 0 \<and> (\<exists>b. bs = [b] \<and> uview (pmem h) ?r a = Some b) \<or> ret = -1 \<and> uview (pmem (ph s)) ?r a = None"
  proof (cases "ret = 0")
    case True
    then obtain b where "bs = [b]" using c(5) by (auto simp: length_Suc_conv)
    then show ?thesis using True c(4) by (simp add: reads_def)
  next
    case False
    then show ?thesis using c(5,6) by auto
  qed
  then show thesis using that [OF e _ c(3)] c(2) a by (simp add: space_ok_def)
qed

lemma copyout_byte:
  assumes "space_ok R X p s"
  obtains ret h where "either_copyout p True a [b] s = Ok (ret, s\<lparr>ph := h\<rparr>)" "space_ok R X p (s\<lparr>ph := h\<rparr>)"
    "ret = 0 \<or> ret = -1" "ret = 0 \<longrightarrow> uview (pmem h) (pagetable (procs s p)) a = Some b"
    "\<forall>r'\<in>R. r' \<noteq> pagetable (procs s p) \<longrightarrow> uview (pmem h) r' = uview (pmem (ph s)) r'"
    "\<forall>va c. va \<noteq> a \<longrightarrow> uview (pmem (ph s)) (pagetable (procs s p)) va = Some c \<longrightarrow> uview (pmem h) (pagetable (procs s p)) va = Some c"
proof -
  let ?r = "pagetable (procs s p)"
  have a: "vm_inv (ph s) R X" "\<And>x. 0 \<le> X x" "?r \<in> R" "sz (procs s p) \<le> TRAPFRAME" using assms by (auto simp: space_ok_def)
  obtain ret n h where c: "copyout_loop 2 (sz (procs s p)) ?r (ph s) ?r a [b] = Ok (ret, h)" "vm_inv h R X"
    "n \<le> 1" "written (ph s) R ?r a (take n [b]) h" "ret = 0 \<and> n = 1 \<or> ret = -1"
    using copyout_vm [OF a, of "[b]" 2 a] by auto
  note w = writtenD [OF c(4)]
  show thesis
  proof (rule that [of ret h])
    show "either_copyout p True a [b] s = Ok (ret, s\<lparr>ph := h\<rparr>)"
      using c(1) by (simp add: either_copyout_def with_ph_def copyout_def numeral_2_eq_2)
    show "space_ok R X p (s\<lparr>ph := h\<rparr>)" using c(2) a by (simp add: space_ok_def)
    show "ret = 0 \<or> ret = -1" using c(5) by auto
    show "ret = 0 \<longrightarrow> uview (pmem h) ?r a = Some b" using w(2) [of a] c(5) by auto
    show "\<forall>r'\<in>R. r' \<noteq> ?r \<longrightarrow> uview (pmem h) r' = uview (pmem (ph s)) r'" using w(1) by blast
    have "\<not> unat (va - a) < length (take n [b])" if "va \<noteq> a" for va
      using that c(3) by (cases n) (auto simp: unat_eq_zero)
    then show "\<forall>va c. va \<noteq> a \<longrightarrow> uview (pmem (ph s)) ?r va = Some c \<longrightarrow> uview (pmem h) ?r va = Some c" using w(3) by blast
  qed
qed

lemma pipe_put_fields [simp]: "readopen (pipe_put c P) = readopen P" "writeopen (pipe_put c P) = writeopen P"
  "readopen (pipe_drop P) = readopen P" "writeopen (pipe_drop P) = writeopen P"
  by (simp_all add: pipe_put_def pipe_drop_def)

lemma upd_pipe_simps [simp]:
  "pipes (upd_pipe a g s) = (pipes s)(a := g (pipes s a))" "procs (upd_pipe a g s) = procs s" "ph (upd_pipe a g s) = ph s"
  by (simp_all add: upd_pipe_def)

lemma space_ok_upd_pipe [simp]: "space_ok R X p (upd_pipe a g s) = space_ok R X p s"
  by (simp add: space_ok_def)

section \<open>Writing\<close>

text \<open>The loop with room for all \<open>k\<close> bytes, a reader, and a caller that is not killed.\<close>

lemma pipewrite_loop_ok:
  fixes s :: "'a kernel_scheme"
  assumes "space_ok R X p s" and "pipe_inv (pipes s pi)" and "readopen (pipes s pi)" and "killed s p = 0"
    and "length (pipe_bytes (pipes s pi)) + k \<le> PIPESIZE"
  shows "\<exists>n bs h P. pipewrite_loop k p pi addr i s = Ok (True, i + int n, s\<lparr>ph := h, pipes := (pipes s)(pi := P)\<rparr>) \<and>
     length bs = n \<and> n \<le> k \<and> pipe_inv P \<and> pipe_bytes P = pipe_bytes (pipes s pi) @ bs \<and>
     space_ok R X p (s\<lparr>ph := h\<rparr>) \<and> view_ext (ph s) R (pagetable (procs s p)) h \<and>
     (\<forall>j<n. uview (pmem h) (pagetable (procs s p)) (addr + of_int (i + int j)) = Some (bs ! j)) \<and>
     (n < k \<longrightarrow> uview (pmem (ph s)) (pagetable (procs s p)) (addr + of_int (i + int n)) = None)"
  using assms
proof (induction k arbitrary: s i)
  case 0
  show ?case by (intro exI [of _ 0] exI [of _ "[]"] exI [of _ "ph s"] exI [of _ "pipes s pi"]) (use 0 in simp)
next
  case (Suc k)
  let ?r = "pagetable (procs s p)" and ?a = "addr + of_int i"
  have nf: "\<not> pipe_full (pipes s pi)" using pr.full_iff [OF Suc.prems(2)] Suc.prems(5) by auto
  obtain ret bs1 h1 where c: "either_copyin p True ?a 1 s = Ok (ret, bs1, s\<lparr>ph := h1\<rparr>)" "space_ok R X p (s\<lparr>ph := h1\<rparr>)"
    "view_ext (ph s) R ?r h1"
    "ret = 0 \<and> (\<exists>b. bs1 = [b] \<and> uview (pmem h1) ?r ?a = Some b) \<or> ret = -1 \<and> uview (pmem (ph s)) ?r ?a = None"
    by (rule copyin_byte [OF Suc.prems(1), of ?a])
  show ?case
  proof (cases "ret = 0")
    case False
    then have u: "ret = -1" "uview (pmem (ph s)) ?r ?a = None" using c(4) by auto
    have "pipewrite_loop (Suc k) p pi addr i s = Ok (True, i + int 0, s\<lparr>ph := h1, pipes := (pipes s)(pi := pipes s pi)\<rparr>)"
      using nf Suc.prems(3,4) c(1) u(1) by simp
    then show ?thesis using c u Suc.prems(2)
      by (intro exI [of _ 0] exI [of _ "[]"] exI [of _ h1] exI [of _ "pipes s pi"]) simp
  next
    case True
    then obtain b where b: "bs1 = [b]" "uview (pmem h1) ?r ?a = Some b" using c(4) by auto
    let ?s = "upd_pipe pi (pipe_put b) (s\<lparr>ph := h1\<rparr>)"
    have put: "pipe_inv (pipe_put b (pipes s pi))" "pipe_bytes (pipe_put b (pipes s pi)) = pipe_bytes (pipes s pi) @ [b]"
      using pr.put_ok [OF Suc.prems(2) nf] by auto
    have pre: "space_ok R X p ?s" "pipe_inv (pipes ?s pi)" "readopen (pipes ?s pi)" "killed ?s p = 0"
      "length (pipe_bytes (pipes ?s pi)) + k \<le> PIPESIZE"
      using c(2) put Suc.prems(3-5) by (simp_all add: killed_def)
    obtain n bs h P where w: "pipewrite_loop k p pi addr (i + 1) ?s = Ok (True, i + 1 + int n, ?s\<lparr>ph := h, pipes := (pipes ?s)(pi := P)\<rparr>)"
      "length bs = n" "n \<le> k" "pipe_inv P" "pipe_bytes P = pipe_bytes (pipes ?s pi) @ bs" "space_ok R X p (?s\<lparr>ph := h\<rparr>)"
      "view_ext (ph ?s) R (pagetable (procs ?s p)) h"
      "\<forall>j<n. uview (pmem h) (pagetable (procs ?s p)) (addr + of_int (i + 1 + int j)) = Some (bs ! j)"
      "n < k \<longrightarrow> uview (pmem (ph ?s)) (pagetable (procs ?s p)) (addr + of_int (i + 1 + int n)) = None"
      using Suc.IH [OF pre, of "i + 1"] by blast
    have step: "pipewrite_loop (Suc k) p pi addr i s = pipewrite_loop k p pi addr (i + 1) ?s"
      using nf Suc.prems(3,4) c(1) True b(1) by simp
    have st: "?s\<lparr>ph := h, pipes := (pipes ?s)(pi := P)\<rparr> = s\<lparr>ph := h, pipes := (pipes s)(pi := P)\<rparr>" by (simp add: upd_pipe_def)
    have ve: "view_ext (ph s) R ?r h" using view_ext_trans [OF c(3)] w(7) by simp
    show ?thesis
    proof (intro exI [of _ "Suc n"] exI [of _ "b # bs"] exI [of _ h] exI [of _ P] conjI)
      show "pipewrite_loop (Suc k) p pi addr i s = Ok (True, i + int (Suc n), s\<lparr>ph := h, pipes := (pipes s)(pi := P)\<rparr>)"
        unfolding step w(1) st by simp
      show "space_ok R X p (s\<lparr>ph := h\<rparr>)" using w(6) by (simp add: space_ok_def)
      show "pipe_bytes P = pipe_bytes (pipes s pi) @ b # bs" using w(5) put(2) by simp
      have "uview (pmem h) ?r ?a = Some b" using w(7) b(2) by (simp add: view_ext_def)
      moreover have "uview (pmem h) ?r (addr + of_int (i + int (Suc j))) = Some (bs ! j)" if "j < n" for j
        using w(8) that by (simp add: add.assoc [symmetric])
      ultimately show "\<forall>j<Suc n. uview (pmem h) ?r (addr + of_int (i + int j)) = Some ((b # bs) ! j)"
        by (auto simp: less_Suc_eq_0_disj simp del: of_int_add of_nat_Suc)
      have "uview (pmem h1) ?r (addr + of_int (i + int (Suc n))) = None" if "n < k" using w(9) that by (simp add: add.assoc [symmetric])
      then show "Suc n < Suc k \<longrightarrow> uview (pmem (ph s)) ?r (addr + of_int (i + int (Suc n))) = None"
        using c(3) unfolding view_ext_def by (metis Suc_less_SucD option.exhaust)
    qed (use w ve in auto)
  qed
qed

section \<open>Reading\<close>

lemma shift_neq:
  assumes "j \<le> 512"
  shows "(a :: uint64) + of_int i \<noteq> a + of_int (i + 1 + int j)"
proof
  assume "a + of_int i = a + of_int (i + 1 + int j)"
  then have "(of_nat (Suc j) :: uint64) = 0" by simp
  then have "unat (of_nat (Suc j) :: uint64) = 0" by simp
  moreover have "unat (of_nat (Suc j) :: uint64) = Suc j"
    using assms by (simp only: unat_of_nat take_bit_nat_eq_self_iff) simp
  ultimately show False by simp
qed

lemma piperead_loop_ok:
  fixes s :: "'a kernel_scheme"
  assumes "space_ok R X p s" and "pipe_inv (pipes s pi)" and "0 \<le> i"
  shows "\<exists>n ret h P. piperead_loop k p pi addr i s = Ok (ret, s\<lparr>ph := h, pipes := (pipes s)(pi := P)\<rparr>) \<and>
     n \<le> k \<and> n \<le> length (pipe_bytes (pipes s pi)) \<and> (ret = i + int n \<or> i = 0 \<and> n = 0 \<and> ret = -1) \<and>
     pipe_inv P \<and> pipe_bytes P = drop n (pipe_bytes (pipes s pi)) \<and> writeopen P = writeopen (pipes s pi) \<and> readopen P = readopen (pipes s pi) \<and>
     space_ok R X p (s\<lparr>ph := h\<rparr>) \<and>
     (\<forall>j<n. uview (pmem h) (pagetable (procs s p)) (addr + of_int (i + int j)) = Some (pipe_bytes (pipes s pi) ! j)) \<and>
     (\<forall>r'\<in>R. r' \<noteq> pagetable (procs s p) \<longrightarrow> uview (pmem h) r' = uview (pmem (ph s)) r') \<and>
     (\<forall>va c. (\<forall>j\<le>n. va \<noteq> addr + of_int (i + int j)) \<longrightarrow> uview (pmem (ph s)) (pagetable (procs s p)) va = Some c \<longrightarrow>
        uview (pmem h) (pagetable (procs s p)) va = Some c)"
    (is "\<exists>n ret h P. ?Q k i s n ret h P")
  using assms
proof (induction k arbitrary: s i)
  case 0
  show ?case by (intro exI [of _ 0] exI [of _ i] exI [of _ "ph s"] exI [of _ "pipes s pi"]) (use 0 in simp)
next
  case (Suc k)
  let ?r = "pagetable (procs s p)" and ?a = "addr + of_int i" and ?b = "pipe_peek (pipes s pi)"
  show ?case
  proof (cases "pipe_empty (pipes s pi)")
    case True
    then have "piperead_loop (Suc k) p pi addr i s = Ok (i, s\<lparr>ph := ph s, pipes := (pipes s)(pi := pipes s pi)\<rparr>)" by simp
    then show ?thesis
      by (intro exI [of _ 0] exI [of _ i] exI [of _ "ph s"] exI [of _ "pipes s pi"]) (use Suc.prems in simp)
  next
    case ne: False
    have d: "pipe_inv (pipe_drop (pipes s pi))" "pipe_bytes (pipes s pi) = ?b # pipe_bytes (pipe_drop (pipes s pi))"
      using pr.drop_ok [OF Suc.prems(2) ne] by auto
    obtain ret1 h1 where c: "either_copyout p True ?a [?b] s = Ok (ret1, s\<lparr>ph := h1\<rparr>)" "space_ok R X p (s\<lparr>ph := h1\<rparr>)"
      "ret1 = 0 \<or> ret1 = -1" "ret1 = 0 \<longrightarrow> uview (pmem h1) ?r ?a = Some ?b"
      "\<forall>r'\<in>R. r' \<noteq> ?r \<longrightarrow> uview (pmem h1) r' = uview (pmem (ph s)) r'"
      "\<forall>va c. va \<noteq> ?a \<longrightarrow> uview (pmem (ph s)) ?r va = Some c \<longrightarrow> uview (pmem h1) ?r va = Some c"
      by (rule copyout_byte [OF Suc.prems(1), of ?a ?b])
    show ?thesis
    proof (cases "ret1 = 0")
      case False
      then have "piperead_loop (Suc k) p pi addr i s =
          Ok (if i = 0 then -1 else i, s\<lparr>ph := h1, pipes := (pipes s)(pi := pipes s pi)\<rparr>)" using ne c(1,3) by simp
      then show ?thesis using c Suc.prems(2)
        by (intro exI [of _ 0] exI [of _ "if i = 0 then -1 else i"] exI [of _ h1] exI [of _ "pipes s pi"]) simp
    next
      case ok: True
      let ?s = "upd_pipe pi pipe_drop (s\<lparr>ph := h1\<rparr>)"
      have pre: "space_ok R X p ?s" "pipe_inv (pipes ?s pi)" "0 \<le> i + 1" using c(2) d(1) Suc.prems(3) by simp_all
      obtain n ret h P where w: "piperead_loop k p pi addr (i + 1) ?s = Ok (ret, ?s\<lparr>ph := h, pipes := (pipes ?s)(pi := P)\<rparr>)"
        "n \<le> k" "n \<le> length (pipe_bytes (pipes ?s pi))" "ret = i + 1 + int n \<or> i + 1 = 0 \<and> n = 0 \<and> ret = -1"
        "pipe_inv P" "pipe_bytes P = drop n (pipe_bytes (pipes ?s pi))" "writeopen P = writeopen (pipes ?s pi)"
        "readopen P = readopen (pipes ?s pi)" "space_ok R X p (?s\<lparr>ph := h\<rparr>)"
        "\<forall>j<n. uview (pmem h) (pagetable (procs ?s p)) (addr + of_int (i + 1 + int j)) = Some (pipe_bytes (pipes ?s pi) ! j)"
        "\<forall>r'\<in>R. r' \<noteq> pagetable (procs ?s p) \<longrightarrow> uview (pmem h) r' = uview (pmem (ph ?s)) r'"
        "\<forall>va c. (\<forall>j\<le>n. va \<noteq> addr + of_int (i + 1 + int j)) \<longrightarrow> uview (pmem (ph ?s)) (pagetable (procs ?s p)) va = Some c \<longrightarrow>
          uview (pmem h) (pagetable (procs ?s p)) va = Some c"
        using Suc.IH [OF pre] by blast
      have step: "piperead_loop (Suc k) p pi addr i s = piperead_loop k p pi addr (i + 1) ?s" using ne c(1) ok by simp
      have st: "?s\<lparr>ph := h, pipes := (pipes ?s)(pi := P)\<rparr> = s\<lparr>ph := h, pipes := (pipes s)(pi := P)\<rparr>" by (simp add: upd_pipe_def)
      have n512: "n \<le> 512" using w(3) pr.bound [OF pre(2)] by simp
      have ret: "ret = i + int (Suc n)" using w(4) Suc.prems(3) by simp
      have "uview (pmem (ph ?s)) (pagetable (procs ?s p)) ?a = Some ?b" using c(4) ok by simp
      moreover have "\<forall>j\<le>n. ?a \<noteq> addr + of_int (i + 1 + int j)" using n512 shift_neq le_trans by blast
      ultimately have "uview (pmem h) (pagetable (procs ?s p)) ?a = Some ?b" using w(12) by blast
      then have here: "uview (pmem h) ?r ?a = Some ?b" by simp
      have later: "uview (pmem h) ?r (addr + of_int (i + int (Suc j))) = Some (pipe_bytes (pipes s pi) ! Suc j)" if "j < n" for j
        using w(10) that d(2) by (simp add: add.assoc [symmetric])
      show ?thesis
      proof (intro exI [of _ "Suc n"] exI [of _ ret] exI [of _ h] exI [of _ P] conjI)
        show "piperead_loop (Suc k) p pi addr i s = Ok (ret, s\<lparr>ph := h, pipes := (pipes s)(pi := P)\<rparr>)"
          unfolding step w(1) st ..
        show "space_ok R X p (s\<lparr>ph := h\<rparr>)" using w(9) by (simp add: space_ok_def)
        show "\<forall>j<Suc n. uview (pmem h) ?r (addr + of_int (i + int j)) = Some (pipe_bytes (pipes s pi) ! j)"
          using here later d(2) by (auto simp: less_Suc_eq_0_disj simp del: of_int_add of_nat_Suc)
        show "\<forall>r'\<in>R. r' \<noteq> ?r \<longrightarrow> uview (pmem h) r' = uview (pmem (ph s)) r'" using w(11) c(5) by simp
        show "\<forall>va c. (\<forall>j\<le>Suc n. va \<noteq> addr + of_int (i + int j)) \<longrightarrow> uview (pmem (ph s)) ?r va = Some c \<longrightarrow> uview (pmem h) ?r va = Some c"
        proof (intro allI impI)
          fix va x
          assume o: "\<forall>j\<le>Suc n. va \<noteq> addr + of_int (i + int j)" and v: "uview (pmem (ph s)) ?r va = Some x"
          have "va \<noteq> ?a" using o [rule_format, of 0] by simp
          then have "uview (pmem h1) ?r va = Some x" using v c(6) by blast
          moreover have "va \<noteq> addr + of_int (i + 1 + int j)" if "j \<le> n" for j using o [rule_format, of "Suc j"] that by (simp add: add.assoc)
          ultimately show "uview (pmem h) ?r va = Some x" using w(12) by simp
        qed
      qed (use w ret d(2) in auto)
    qed
  qed
qed

section \<open>The two calls\<close>

text \<open>C23. \<^verbatim>\<open>pipewrite()\<close> with room for all \<open>n\<close> bytes, a reader and a live caller always returns. It appends to the pipe exactly
  the bytes the caller sees at \<^verbatim>\<open>addr\<close>, in order; it stops early only at an address the caller cannot read, and
  returns the number of bytes appended. The memory invariant and every other process's memory are kept.\<close>

theorem pipewrite_appends:
  fixes s :: "'a kernel_scheme"
  assumes "space_ok R X p s" and "pipe_inv (pipes s pi)" and "readopen (pipes s pi)" and "killed s p = 0"
    and "0 \<le> n" and "length (pipe_bytes (pipes s pi)) + nat n \<le> PIPESIZE"
  shows "\<exists>i bs s'. pipewrite p pi addr n s = Ok (i, s') \<and> i = int (length bs) \<and> i \<le> n \<and>
     pipe_inv (pipes s' pi) \<and> pipe_bytes (pipes s' pi) = pipe_bytes (pipes s pi) @ bs \<and>
     (\<forall>j<length bs. uview (pmem (ph s')) (pagetable (procs s p)) (addr + of_nat j) = Some (bs ! j)) \<and>
     (i < n \<longrightarrow> uview (pmem (ph s)) (pagetable (procs s p)) (addr + of_int i) = None) \<and>
     vm_inv (ph s') R X \<and> view_ext (ph s) R (pagetable (procs s p)) (ph s')"
proof -
  obtain k bs h P where w: "pipewrite_loop (nat n) p pi addr 0 s = Ok (True, 0 + int k, s\<lparr>ph := h, pipes := (pipes s)(pi := P)\<rparr>)"
    "length bs = k" "k \<le> nat n" "pipe_inv P" "pipe_bytes P = pipe_bytes (pipes s pi) @ bs"
    "space_ok R X p (s\<lparr>ph := h\<rparr>)" "view_ext (ph s) R (pagetable (procs s p)) h"
    "\<forall>j<k. uview (pmem h) (pagetable (procs s p)) (addr + of_int (0 + int j)) = Some (bs ! j)"
    "k < nat n \<longrightarrow> uview (pmem (ph s)) (pagetable (procs s p)) (addr + of_int (0 + int k)) = None"
    using pipewrite_loop_ok [OF assms(1-4,6)] by blast
  have "pipewrite p pi addr n s = Ok (int k, wakeup (Some p) (ChanNread pi) (s\<lparr>ph := h, pipes := (pipes s)(pi := P)\<rparr>))"
    by (simp add: pipewrite_def w(1))
  then show ?thesis using w(2-) assms(5)
    by (intro exI [of _ "int k"] exI [of _ bs] exI [of _ "wakeup (Some p) (ChanNread pi) (s\<lparr>ph := h, pipes := (pipes s)(pi := P)\<rparr>)"])
       (auto simp: wakeup_eq space_ok_def)
qed


section \<open>Concrete instances\<close>

text \<open>A kernel at rest with the given memory, in which every process has the given page table.\<close>

definition quiet_kernel :: "phys \<Rightarrow> uint64 \<Rightarrow> kernel" where
  "quiet_kernel h r = \<lparr>ph = h, procs = (\<lambda>_. zero_proc\<lparr>pagetable := r, sz := 4096\<rparr>), nextpid = 1, initproc = None, ticks = 0,
     trampoline = 0, forkret_pc = 0, bufs = (\<lambda>_. zero_buf), lru = [0..<NBUF], disk = (\<lambda>_. replicate BSIZE 0), dtrace = [],
     lg = open_log 0 (\<lambda>_. 0), sb = \<lparr>sb_magic = FSMAGIC, sb_size = 2000, sb_nblocks = 1954, sb_ninodes = 200, sb_nlog = 31, sb_logstart = 2,
     sb_inodestart = 33, sb_bmapstart = 46\<rparr>, itable = (\<lambda>_. zero_inode),
     ftable = (\<lambda>_. \<lparr>ftype = FD_NONE, fref = 0, readable = False, writable = False, fpipe = 0, fip = 0, foff = 0, fmajor = 0\<rparr>),
     pipes = (\<lambda>_. pipe_init)\<rparr>"

lemma quiet_simps [simp]:
  "ph (quiet_kernel h r) = h" "procs (quiet_kernel h r) = (\<lambda>_. zero_proc\<lparr>pagetable := r, sz := 4096\<rparr>)"
  "pipes (quiet_kernel h r) = (\<lambda>_. pipe_init)" "killed (quiet_kernel h r) p = 0"
  by (simp_all add: quiet_kernel_def killed_def zero_proc_def)

lemma quiet_space: "vm_inv h R (\<lambda>_. 0) \<Longrightarrow> r \<in> R \<Longrightarrow> space_ok R (\<lambda>_. 0) p (quiet_kernel h r)"
  by (simp add: space_ok_def zero_proc_def)

lemma pipe_init_ok [simp]: "pipe_inv pipe_init" "pipe_bytes pipe_init = []" "readopen pipe_init" "writeopen pipe_init"
  by (simp_all add: pipe_init_def pipe_inv_def pipe_bytes_def)

lemma visible_page0:
  assumes "umap m r 0 = Some e" and "bit e 4" and "a < 4096"
  shows "uview m r a \<noteq> None"
  using assms PGROUNDDOWN_plus [of 0 a] by (simp add: uview_def pgaligned_def)

theorem pipewrite_appends_witness:
  "\<exists>(s :: kernel) s' bs. pipewrite 0 0x87000000 10 3 s = Ok (3, s') \<and> length bs = 3 \<and> pipe_bytes (pipes s' 0x87000000) = bs"
proof (rule two_spaces)
  fix h old new e
  assume a: "vm_inv h {old, new} (\<lambda>_. 0)" "umap (pmem h) old 0 = Some e" "bit e 4"
  let ?s = "quiet_kernel h old"
  have "\<exists>i bs s'. pipewrite 0 0x87000000 10 3 ?s = Ok (i, s') \<and> i = int (length bs) \<and> i \<le> 3 \<and>
     pipe_inv (pipes s' 0x87000000) \<and> pipe_bytes (pipes s' 0x87000000) = pipe_bytes (pipes ?s 0x87000000) @ bs \<and>
     (\<forall>j<length bs. uview (pmem (ph s')) (pagetable (procs ?s 0)) (10 + of_nat j) = Some (bs ! j)) \<and>
     (i < 3 \<longrightarrow> uview (pmem (ph ?s)) (pagetable (procs ?s 0)) (10 + of_int i) = None) \<and>
     vm_inv (ph s') {old, new} (\<lambda>_. 0) \<and> view_ext (ph ?s) {old, new} (pagetable (procs ?s 0)) (ph s')"
    by (rule pipewrite_appends) (use quiet_space [OF a(1)] in simp_all)
  then obtain i bs s' where w: "pipewrite 0 0x87000000 10 3 ?s = Ok (i, s')" "i = int (length bs)" "i \<le> 3"
    "pipe_bytes (pipes s' 0x87000000) = bs" "i < 3 \<longrightarrow> uview (pmem h) old (10 + of_int i) = None" by auto
  have "i = 3"
  proof (rule ccontr)
    assume "i \<noteq> 3"
    moreover have "0 \<le> i" using w(2) by simp
    ultimately have "i = 0 \<or> i = 1 \<or> i = 2" using w(3) by presburger
    then have "uview (pmem h) old (10 + of_int i) \<noteq> None"
      using visible_page0 [OF a(2,3), of 10] visible_page0 [OF a(2,3), of 11] visible_page0 [OF a(2,3), of 12] by auto
    then show False using w(2,3,5) \<open>i \<noteq> 3\<close> by simp
  qed
  then show ?thesis using w by auto
qed


end
