(* ===== verification/Proc_Mem.thy ===== *)
theory Proc_Mem
  imports Proc_Life
begin

text \<open>
  The memory of processes: what \<^verbatim>\<open>proc_pagetable()\<close>, \<^verbatim>\<open>allocproc()\<close>, \<^verbatim>\<open>freeproc()\<close> and \<^verbatim>\<open>kfork()\<close> do to page tables, pages and
  reference counts.
\<close>

unbundle bit_operations_syntax

section \<open>The two kernel pages of an address space\<close>

lemma kernel_va:
  "pgaligned TRAMPOLINE" "TRAMPOLINE < MAXVA" "\<not> user_va TRAMPOLINE" "pgaligned TRAPFRAME" "TRAPFRAME < MAXVA" "\<not> user_va TRAPFRAME"
  "TRAMPOLINE \<noteq> TRAPFRAME"
  by (simp_all add: pgaligned_def user_va_def MAXVA_def TRAMPOLINE_def TRAPFRAME_def)

text \<open>The physical page at a user address.\<close>

definition upages :: "mem \<Rightarrow> uint64 \<Rightarrow> uint64 \<Rightarrow> uint64 option" where
  "upages m r va = map_option PTE2PA (umap m r va)"

text \<open>\<open>same_user s R X s'\<close>: the page tables of \<open>R\<close> map the same user pages with the same contents, and the kernel's own pages are kept.\<close>

definition same_user :: "phys \<Rightarrow> uint64 set \<Rightarrow> (uint64 \<Rightarrow> int) \<Rightarrow> phys \<Rightarrow> bool" where
  "same_user s R X s' \<longleftrightarrow> kend s' = kend s \<and>
     (\<forall>r\<in>R. upages (pmem s') r = upages (pmem s) r \<and> uview (pmem s') r = uview (pmem s) r \<and> kpte (pmem s') r = kpte (pmem s) r) \<and>
     agree {x. ram s x \<and> 1 \<le> X x} (pmem s) (pmem s')"

lemma same_user_refl [simp]: "same_user s R X s"
  by (simp add: same_user_def)

lemma same_userD:
  assumes "same_user s R X s'"
  shows "kend s' = kend s" "r \<in> R \<Longrightarrow> upages (pmem s') r = upages (pmem s) r" "r \<in> R \<Longrightarrow> uview (pmem s') r = uview (pmem s) r"
    "r \<in> R \<Longrightarrow> kpte (pmem s') r = kpte (pmem s) r" "agree {x. ram s x \<and> 1 \<le> X x} (pmem s) (pmem s')" "ram s' x = ram s x"
  using assms ram_cong [of s' s] by (simp_all add: same_user_def)

lemma same_user_None: "same_user s R X s' \<Longrightarrow> r \<in> R \<Longrightarrow> umap (pmem s') r va = None \<longleftrightarrow> umap (pmem s) r va = None"
  using same_userD(2) [of s R X s' r] by (auto simp: upages_def fun_eq_iff dest: spec [of _ va])

lemma same_user_trans:
  assumes "same_user s R X s1" and "same_user s1 R X s2"
  shows "same_user s R X s2"
proof -
  note d1 = same_userD [OF assms(1)] and d2 = same_userD [OF assms(2)]
  have "agree {x. ram s x \<and> 1 \<le> X x} (pmem s1) (pmem s2)" using d2(5) unfolding d1(6) .
  then have "agree {x. ram s x \<and> 1 \<le> X x} (pmem s) (pmem s2)" using d1(5) agree_trans by blast
  then show ?thesis using d1(1-4) d2(1-4) by (simp add: same_user_def)
qed

lemma same_user_mono: "same_user s R X s' \<Longrightarrow> S \<subseteq> R \<Longrightarrow> (\<And>x. 1 \<le> Y x \<Longrightarrow> 1 \<le> X x) \<Longrightarrow> same_user s S Y s'"
  unfolding same_user_def by (auto elim!: agree_subset)

lemma frame0_same_user:
  assumes inv: "vm_inv s R X" and f: "frame0 s R {} s'" and S: "S \<subseteq> R"
    and um: "\<And>r va. r \<in> S \<Longrightarrow> umap (pmem s') r va = umap (pmem s) r va" "\<And>r va. r \<in> S \<Longrightarrow> kpte (pmem s') r va = kpte (pmem s) r va"
  shows "same_user s S X s'"
proof -
  have "uview (pmem s') r va = uview (pmem s) r va" if "r \<in> S" for r va
    by (rule uview_frame0 [OF inv f]) (use that S um in auto)
  moreover have "agree {x. ram s x \<and> 1 \<le> X x} (pmem s) (pmem s')"
    unfolding agree_def using frame_byte0 [OF f] owned_page [OF inv] by auto
  ultimately show ?thesis using um frame_kend [OF f] by (auto simp: same_user_def upages_def fun_eq_iff)
qed

text \<open>Removing one of the two kernel mappings.\<close>

lemma unmap_kernel_vm:
  assumes inv: "vm_inv s R X" and r: "r \<in> R" and va: "pgaligned va" "va < MAXVA" "\<not> user_va va"
  obtains s' where "uvmunmap s r va 1 False = Ok s'" "vm_inv s' R X" "same_user s (R - {r}) X s'"
    "\<And>va'. umap (pmem s') r va' = umap (pmem s) r va'" "uview (pmem s') r = uview (pmem s) r"
    "\<And>va'. kpte (pmem s') r va' AND PTE_V = (if va' = va then 0 else kpte (pmem s) r va' AND PTE_V)" "kend s' = kend s"
    "agree {x. ram s x \<and> 1 \<le> X x} (pmem s) (pmem s')"
proof -
  have nx: "va < va + 4096" "\<not> va + 4096 < va + 4096" using va(2)
    by (simp_all add: MAXVA_def word_less_nat_alt unat_word_ariths)
  show thesis
  proof (rule walk_vm [OF inv r va(2)])
    assume w: "walk s r va False = Ok (0, s)" "pte 2 (pmem s) r va = 0"
    then have "uvmunmap s r va 1 False = Ok s"
      using va(1) nx by (simp add: uvmunmap_def pgaligned_def eval_nat_numeral)
    then show thesis by (rule that) (use inv w va in \<open>auto simp: kpte_def\<close>)
  next
    fix a
    assume w: "walk s r va False = Ok (a, s)" "a \<noteq> 0" "slot 2 (pmem s) r va = Some a" "load64 (pmem s) a = pte 2 (pmem s) r va"
    show thesis
    proof (cases "pte 2 (pmem s) r va AND PTE_V = 0")
      case True
      then have "uvmunmap s r va 1 False = Ok s"
        using va(1) nx w by (simp add: uvmunmap_def pgaligned_def eval_nat_numeral)
      then show thesis by (rule that) (use inv True va in \<open>auto simp: kpte_def\<close>)
    next
      case False
      define s' where "s' = s\<lparr>pmem := store64 (pmem s) a 0\<rparr>"
      have u: "uvmunmap s r va 1 False = Ok s'"
        using va(1) nx w False by (simp add: uvmunmap_def pgaligned_def eval_nat_numeral s'_def)
      have ok: "user_va va \<Longrightarrow> (0 :: uint64) AND PTE_V \<noteq> 0 \<Longrightarrow> mapped_ok s R 0"
        "\<not> user_va va \<Longrightarrow> (0 :: uint64) AND PTE_V \<noteq> 0 \<Longrightarrow> (0 :: uint64) AND PTE_U = 0"
        "None = (if user_va va \<and> (0 :: uint64) AND PTE_V \<noteq> 0 then Some 0 else None)" by simp_all
      note st = store_pte_vm [OF inv r w(3) va(1,2) ok(1,2) s'_def ok(3)]
      have n: "umap (pmem s) r va = None" using va(3) by (simp add: umap_def)
      have um: "umap (pmem s') r' va' = umap (pmem s) r' va'" if "r' \<in> R" for r' va' using st(2) [of r' va'] that n by simp
      note fs = frame_store [OF st(3,4,7)]
      have f0: "frame0 s R {} s'" using fs(1) by simp
      have k: "kpte (pmem s') r' va' = (if r' = r \<and> va' = va then 0 else kpte (pmem s) r' va')" if "r' \<in> R" for r' va'
        using fs(3) [of r' va'] that va by simp
      have "vm_inv s' R X" using st(1) n by (simp add: refs_def)
      moreover have "same_user s (R - {r}) X s'" by (rule frame0_same_user [OF inv f0]) (use um k in auto)
      moreover have "uview (pmem s') r = uview (pmem s) r"
        by (rule ext, rule uview_frame0 [OF inv f0 r]) (use um r in auto)
      ultimately show thesis using that [OF u] um [OF r] k [OF r] by (auto simp: same_user_def s'_def)
    qed
  qed
qed

text \<open>Above the user's addresses a table maps nothing but the trampoline and the trapframe.\<close>

definition top_ok :: "mem \<Rightarrow> uint64 \<Rightarrow> bool" where
  "top_ok m r \<longleftrightarrow> (\<forall>va. kpte m r va AND PTE_V \<noteq> 0 \<longrightarrow> va = TRAMPOLINE \<or> va = TRAPFRAME)"

lemma uvmfree_same_user:
  assumes inv: "vm_inv s R X" and X: "\<And>x. 0 \<le> X x" and r: "r \<in> R" and sz: "z \<le> TRAPFRAME"
    and um: "\<And>va e. umap (pmem s) r va = Some e \<Longrightarrow> va < z" and k: "\<And>va. kpte (pmem s) r va AND PTE_V = 0"
  obtains s' where "uvmfree s r z = Ok s'" "vm_inv s' (R - {r}) X" "same_user s (R - {r}) X s'"
proof -
  have "\<exists>s'. uvmfree s r z = Ok s' \<and> vm_inv s' (R - {r}) X \<and>
    (\<forall>r'\<in>R - {r}. umap (pmem s') r' = umap (pmem s) r' \<and> uview (pmem s') r' = uview (pmem s) r' \<and> kpte (pmem s') r' = kpte (pmem s) r') \<and>
    agree {x. ram s x \<and> 1 \<le> X x} (pmem s) (pmem s') \<and> kend s' = kend s"
    by (rule uvmfree_vm [OF inv X r sz]) (use um k in auto)
  then obtain s' where "uvmfree s r z = Ok s'" "vm_inv s' (R - {r}) X"
    "\<forall>r'\<in>R - {r}. umap (pmem s') r' = umap (pmem s) r' \<and> uview (pmem s') r' = uview (pmem s) r' \<and> kpte (pmem s') r' = kpte (pmem s) r'"
    "agree {x. ram s x \<and> 1 \<le> X x} (pmem s) (pmem s')" "kend s' = kend s"
    by (elim exE conjE) (rule that)
  then show thesis using that [of s'] by (simp add: same_user_def upages_def fun_eq_iff)
qed

lemma proc_freepagetable_vm:
  assumes inv: "vm_inv s R X" and X: "\<And>x. 0 \<le> X x" and r: "r \<in> R" and sz: "z \<le> TRAPFRAME"
    and all: "\<And>va e. umap (pmem s) r va = Some e \<Longrightarrow> va < z" and top: "top_ok (pmem s) r"
  obtains s' where "proc_freepagetable r z s = Ok s'" "vm_inv s' (R - {r}) X" "same_user s (R - {r}) X s'"
proof -
  obtain s1 where 1: "uvmunmap s r TRAMPOLINE 1 False = Ok s1" "vm_inv s1 R X" "same_user s (R - {r}) X s1"
    "\<And>va'. umap (pmem s1) r va' = umap (pmem s) r va'"
    "\<And>va'. kpte (pmem s1) r va' AND PTE_V = (if va' = TRAMPOLINE then 0 else kpte (pmem s) r va' AND PTE_V)"
    by (rule unmap_kernel_vm [OF inv r kernel_va(1-3)]) (rule that)
  obtain s2 where 2: "uvmunmap s1 r TRAPFRAME 1 False = Ok s2" "vm_inv s2 R X" "same_user s1 (R - {r}) X s2"
    "\<And>va'. umap (pmem s2) r va' = umap (pmem s1) r va'"
    "\<And>va'. kpte (pmem s2) r va' AND PTE_V = (if va' = TRAPFRAME then 0 else kpte (pmem s1) r va' AND PTE_V)"
    by (rule unmap_kernel_vm [OF 1(2) r kernel_va(4-6)]) (rule that)
  have k: "kpte (pmem s2) r va AND PTE_V = 0" for va using 2(5) [of va] 1(5) [of va] top by (auto simp: top_ok_def)
  have um: "va < z" if "umap (pmem s2) r va = Some e" for va e using that 2(4) 1(4) all by simp
  obtain s3 where 3: "uvmfree s2 r z = Ok s3" "vm_inv s3 (R - {r}) X" "same_user s2 (R - {r}) X s3"
    by (rule uvmfree_same_user [OF 2(2) X r sz]) (use um k in auto)
  have "same_user s (R - {r}) X s3" by (rule same_user_trans [OF same_user_trans [OF 1(3) 2(3)] 3(3)])
  then show thesis using that [of s3] 1(1) 2(1) 3(1,2) by (simp add: proc_freepagetable_def)
qed

lemma kernel_perm: "PTE_R OR PTE_X < (1024 :: uint64)" "PTE_R OR PTE_W < (1024 :: uint64)"
  "(PTE_R OR PTE_X) AND PTE_U = (0 :: uint64)" "(PTE_R OR PTE_W) AND PTE_U = (0 :: uint64)"
  by simp_all

text \<open>Mapping one of the two kernel pages.\<close>

lemma map_kernel_vm:
  assumes inv: "vm_inv s R X" and r: "r \<in> R" and va: "pgaligned va" "va < MAXVA" "\<not> user_va va" and free: "kpte (pmem s) r va AND PTE_V = 0"
    and pa: "pgaligned pa" "pa < 2 ^ 56" "perm < 1024" "perm AND PTE_U = 0"
  obtains (fail) s' where "mappages s r va PGSIZE pa perm = Ok (-1, s')" "vm_inv s' R X" "same_user s R X s'" "nfree s \<le> 1"
  | (mapped) s' where "mappages s r va PGSIZE pa perm = Ok (0, s')" "vm_inv s' R X" "same_user s (R - {r}) X s'"
      "umap (pmem s') r = umap (pmem s) r"
      "\<And>va'. kpte (pmem s') r va' = (if va' = va then PA2PTE pa OR perm OR PTE_V else kpte (pmem s) r va')" "nfree s \<le> nfree s' + 2"
proof -
  have free': "pte 2 (pmem s) r va AND PTE_V = 0" using free va by (simp add: kpte_def)
  have o: "user_va va \<longrightarrow> mapped_ok s R (PA2PTE pa OR perm OR PTE_V)" "\<not> user_va va \<longrightarrow> perm AND PTE_U = 0"
    "None = (if user_va va then Some (PA2PTE pa OR perm OR PTE_V) else None)" using va pa by simp_all
  show thesis
  proof (rule mappages_vm [OF inv r va(1,2) free' pa(1-3) o])
    fix s'
    assume a: "mappages s r va PGSIZE pa perm = Ok (-1, s')" "vm_inv s' R X" "frame s R {} s'"
      "\<And>r'. r' \<in> R \<Longrightarrow> umap (pmem s') r' = umap (pmem s) r'" "nfree s \<le> 1"
    have "same_user s R X s'" by (rule frame0_same_user [OF inv frame_frame0 [OF a(3)]]) (use a(4) frame_kpte [OF a(3)] in auto)
    then show thesis using fail a(1,2,5) by blast
  next
    fix s'
    assume a: "mappages s r va PGSIZE pa perm = Ok (0, s')" "vm_inv s' R (\<lambda>x. X x - refs None x)"
      "\<And>r' va'. r' \<in> R \<Longrightarrow> umap (pmem s') r' va' = (if r' = r \<and> va' = va then None else umap (pmem s) r' va')" "frame0 s R {} s'"
      "\<And>r' va'. r' \<in> R \<Longrightarrow> kpte (pmem s') r' va' = (if r' = r \<and> va' = va \<and> \<not> user_va va
         then PA2PTE pa OR perm OR PTE_V else kpte (pmem s) r' va')" "nfree s \<le> nfree s' + 2"
    have n: "umap (pmem s) r va = None" using va(3) by (simp add: umap_def)
    have "same_user s (R - {r}) X s'" by (rule frame0_same_user [OF inv a(4)]) (use a(3,5) in auto)
    moreover have "umap (pmem s') r = umap (pmem s) r" using a(3) [OF r] n by (simp add: fun_eq_iff)
    ultimately show thesis using mapped [of s'] a(1,2,6) a(5) [OF r] va(3) by (simp add: refs_def)
  qed
qed

lemma proc_pagetable_vm:
  assumes inv: "vm_inv s R X" and X: "\<And>x. 0 \<le> X x" and tr: "pgaligned tr" "tr < 2 ^ 56" and tf: "pgaligned tf" "tf < 2 ^ 56"
  obtains (fail) s' where "proc_pagetable tr tf s = Ok (0, s')" "vm_inv s' R X" "same_user s R X s'" "nfree s \<le> 4"
  | (new) pt s' where "proc_pagetable tr tf s = Ok (pt, s')" "pt \<noteq> 0" "pt \<notin> R" "vm_inv s' (insert pt R) X" "same_user s R X s'"
      "\<And>va. umap (pmem s') pt va = None" "top_ok (pmem s') pt" "nfree s \<le> nfree s' + 5"
proof (rule uvmcreate_vm [OF inv])
  assume "uvmcreate s = (0, s)" "freelist s = 0"
  then show thesis using fail [of s] inv nfree_pos [OF vm_invD(1) [OF inv]] by (simp add: proc_pagetable_def)
next
  fix p s1
  assume c: "uvmcreate s = (p, s1)" "p \<noteq> 0" "vm_inv s1 (insert p R) X" "p \<notin> R" "frame s R {} s1"
    "\<And>r. r \<in> R \<Longrightarrow> umap (pmem s1) r = umap (pmem s) r" "\<And>va. umap (pmem s1) p va = None" "\<And>va. kpte (pmem s1) p va = 0" "nfree s = nfree s1 + 1"
  let ?R = "insert p R"
  have R: "?R - {p} = R" using c(4) by auto
  have u1: "same_user s R X s1" by (rule frame0_same_user [OF inv frame_frame0 [OF c(5)]]) (use c(6) frame_kpte [OF c(5)] in auto)
  have free: thesis if "vm_inv s2 ?R X" "same_user s R X s2" "\<And>va. umap (pmem s2) p va = None" "\<And>va. kpte (pmem s2) p va AND PTE_V = 0"
    "proc_pagetable tr tf s = bindR (uvmfree s2 p 0) (\<lambda>h. Ok (0, h))" "nfree s \<le> 4" for s2
  proof -
    note h = that
    obtain s3 where 3: "uvmfree s2 p 0 = Ok s3" "vm_inv s3 (?R - {p}) X" "same_user s2 (?R - {p}) X s3"
      by (rule uvmfree_same_user [OF h(1) X insertI1, of 0]) (use h(3,4) in auto)
    show thesis by (rule fail [of s3]) (use h(5,6) 3 same_user_trans [OF h(2)] R in auto)
  qed
  have k1: "kpte (pmem s1) p TRAMPOLINE AND PTE_V = 0" using c(8) by simp
  show thesis
  proof (rule map_kernel_vm [OF c(3) insertI1 kernel_va(1-3) k1 tr kernel_perm(1,3)])
    fix s2
    assume m: "mappages s1 p TRAMPOLINE PGSIZE tr (PTE_R OR PTE_X) = Ok (-1, s2)" "vm_inv s2 ?R X" "same_user s1 ?R X s2" "nfree s1 \<le> 1"
    have "same_user s R X s2" by (rule same_user_trans [OF u1 same_user_mono [OF m(3)]]) auto
    then show thesis
      using free [OF m(2)] same_userD(4) [OF m(3) insertI1] same_user_None [OF m(3) insertI1] c(1,2,7-9) m(1,4) by (simp add: proc_pagetable_def)
  next
    fix s2
    assume m: "mappages s1 p TRAMPOLINE PGSIZE tr (PTE_R OR PTE_X) = Ok (0, s2)" "vm_inv s2 ?R X" "same_user s1 (?R - {p}) X s2"
      "umap (pmem s2) p = umap (pmem s1) p"
      "\<And>va'. kpte (pmem s2) p va' = (if va' = TRAMPOLINE then PA2PTE tr OR (PTE_R OR PTE_X) OR PTE_V else kpte (pmem s1) p va')" "nfree s1 \<le> nfree s2 + 2"
    have u2: "same_user s R X s2" using same_user_trans [OF u1] m(3) R by simp
    have k2: "kpte (pmem s2) p TRAPFRAME AND PTE_V = 0" using m(5) c(8) kernel_va(7) by auto
    show thesis
    proof (rule map_kernel_vm [OF m(2) insertI1 kernel_va(4-6) k2 tf kernel_perm(2,4)])
      fix s3
      assume n: "mappages s2 p TRAPFRAME PGSIZE tf (PTE_R OR PTE_W) = Ok (-1, s3)" "vm_inv s3 ?R X" "same_user s2 ?R X s3" "nfree s2 \<le> 1"
      have u3: "same_user s R X s3" by (rule same_user_trans [OF u2 same_user_mono [OF n(3)]]) auto
      obtain s4 where 4: "uvmunmap s3 p TRAMPOLINE 1 False = Ok s4" "vm_inv s4 ?R X" "same_user s3 (?R - {p}) X s4"
        "\<And>va'. umap (pmem s4) p va' = umap (pmem s3) p va'"
        "\<And>va'. kpte (pmem s4) p va' AND PTE_V = (if va' = TRAMPOLINE then 0 else kpte (pmem s3) p va' AND PTE_V)"
        by (rule unmap_kernel_vm [OF n(2) insertI1 kernel_va(1-3)]) (rule that)
      show thesis
      proof (rule free [OF 4(2)])
        show "same_user s R X s4" using same_user_trans [OF u3] 4(3) R by simp
        show "umap (pmem s4) p va = None" for va using 4(4) same_user_None [OF n(3) insertI1] m(4) c(7) by simp
        show "kpte (pmem s4) p va AND PTE_V = 0" for va
          using 4(5) [of va] same_userD(4) [OF n(3) insertI1] m(5) [of va] c(8) [of va] by auto
        show "proc_pagetable tr tf s = bindR (uvmfree s4 p 0) (\<lambda>h. Ok (0, h))" using c(1,2) m(1) n(1) 4(1) by (simp add: proc_pagetable_def)
      qed (use c(9) m(6) n(4) in simp)
    next
      fix s3
      assume n: "mappages s2 p TRAPFRAME PGSIZE tf (PTE_R OR PTE_W) = Ok (0, s3)" "vm_inv s3 ?R X" "same_user s2 (?R - {p}) X s3"
        "umap (pmem s3) p = umap (pmem s2) p"
        "\<And>va'. kpte (pmem s3) p va' = (if va' = TRAPFRAME then PA2PTE tf OR (PTE_R OR PTE_W) OR PTE_V else kpte (pmem s2) p va')" "nfree s2 \<le> nfree s3 + 2"
      show thesis
      proof (rule new [of p s3])
        show "proc_pagetable tr tf s = Ok (p, s3)" using c(1,2) m(1) n(1) by (simp add: proc_pagetable_def)
        show "same_user s R X s3" using same_user_trans [OF u2] n(3) R by simp
        show "umap (pmem s3) p va = None" for va using n(4) m(4) c(7) by simp
        show "top_ok (pmem s3) p" unfolding top_ok_def using n(5) m(5) c(8) by auto
      qed (use c(2,4,9) m(6) n(2,6) in simp_all)
    qed
  qed
qed

section \<open>Pages of the kernel's own\<close>

lemma kalloc_same_user:
  assumes inv: "vm_inv s R X" and k: "kalloc s = (p, s')" "p \<noteq> 0"
  shows "same_user s R X s'"
proof -
  note a = kalloc_vm [OF inv k]
  have ag: "agree (tables (pmem s) R) (pmem s) (pmem s')" using a(9) by (rule agree_subset) (use a(7) in auto)
  have f: "frame s R {} s'" by (rule frame_tables [OF ag vm_invD(2) [OF inv] a(2)])
  have "umap (pmem s') r = umap (pmem s) r" if "r \<in> R" for r by (rule forest_agree(3) [OF vm_invD(2) [OF inv] ag that])
  then show ?thesis by (intro frame0_same_user [OF inv frame_frame0 [OF f]]) (use frame_kpte [OF f] in auto)
qed

lemma kfree_same_user:
  assumes inv: "vm_inv s R X" and p: "ram s p" "1 \<le> X p"
  obtains s' where "kfree s p = Ok s'" "vm_inv s' R (X(p := X p - 1))" "same_user s R (X(p := X p - 1)) s'"
proof -
  obtain s' where k: "kfree s p = Ok s'" "vm_inv s' R (X(p := X p - 1))" "keeps s {p} s'" "1 < rc s p \<Longrightarrow> keeps s {} s'"
    "agree (- {p}) (pmem s) (pmem s')" "agree (tables (pmem s) R) (pmem s) (pmem s')"
    by (rule kfree_vm [OF inv p]) (rule that)
  define P where "P = {x. x = p \<and> rc s x = 1}"
  have "keeps s P s'"
  proof (cases "rc s p = 1")
    case False
    then have "1 < rc s p" using owned_page(1) [OF inv p] by simp
    then show ?thesis using keeps_weaken [OF k(4)] by blast
  qed (use k(3) in \<open>simp add: P_def conj_commute cong: conj_cong\<close>)
  then have f: "frame s R P s'" by (rule frame_tables [OF k(6) vm_invD(2) [OF inv]])
  have um: "umap (pmem s') r = umap (pmem s) r" if "r \<in> R" for r by (rule forest_agree(3) [OF vm_invD(2) [OF inv] k(6) that])
  have nm: "PTE2PA e \<notin> P" if "r \<in> R" "umap (pmem s) r va = Some e" for r va e
  proof
    assume "PTE2PA e \<in> P"
    then have e: "PTE2PA e = p" "rc s p = 1" by (auto simp: P_def)
    then have "0 < card (mappings (pmem s) R p)" using user_mappedD [OF inv user_mappedI [OF that]] by simp
    then show False using vm_invD(5) [OF inv p(1)] p(2) e(2) owned_page(2) [OF inv p] by simp
  qed
  have uv: "uview (pmem s') r va = uview (pmem s) r va" if "r \<in> R" for r va
    by (rule uview_frame [OF inv f that]) (use um [OF that] nm [OF that] in auto)
  have "agree {x. ram s x \<and> 1 \<le> (X(p := X p - 1)) x} (pmem s) (pmem s')"
  proof (cases "2 \<le> X p")
    case True
    then have "1 < rc s p" using vm_invD(5) [OF inv p(1)] owned_page(2) [OF inv p] by simp
    from k(4) [OF this] have "agree {x. ram s x \<and> 0 < rc s x} (pmem s) (pmem s')" by (simp add: keeps_def)
    then show ?thesis by (rule agree_subset) (use owned_page(1) [OF inv] p in \<open>auto split: if_splits\<close>)
  next
    case False
    then show ?thesis using p(2) by (intro agree_subset [OF k(5)]) auto
  qed
  then have "same_user s R (X(p := X p - 1)) s'"
    using um uv frame_kpte [OF f] frame_kend [OF frame_frame0 [OF f]] by (simp add: same_user_def upages_def fun_eq_iff)
  then show thesis using that k(1,2) by blast
qed

section \<open>The memory of all processes\<close>

text \<open>
  The page tables in use, and the references the slots hold to trapframe pages. \<open>proc_mem Y s\<close>: every page has exactly as many
  references as there are page-table pages, user mappings, trapframes and other owners \<open>Y\<close> of it; so no page is lost or freed
  while in use. Every process maps user pages only below its size, and no user page is a page of the kernel.
\<close>

definition roots :: "'a kstate_scheme \<Rightarrow> uint64 set" where
  "roots s = (\<lambda>i. pagetable (procs s i)) ` {..<NPROC} - {0}"

definition tf_refs :: "'a kstate_scheme \<Rightarrow> uint64 \<Rightarrow> int" where
  "tf_refs s x = int (card {i. i < NPROC \<and> trapframe (procs s i) = x \<and> x \<noteq> 0})"

definition slot_ok :: "phys \<Rightarrow> proc \<Rightarrow> bool" where
  "slot_ok h x \<longleftrightarrow>
     (if state x = UNUSED then pagetable x = 0 \<and> trapframe x = 0 \<and> sz x = 0
      else pagetable x \<noteq> 0 \<and> trapframe x \<noteq> 0 \<and> ram h (trapframe x) \<and> sz x \<le> TRAPFRAME \<and>
        (\<forall>va. umap (pmem h) (pagetable x) va \<noteq> None \<longrightarrow> va < sz x) \<and> top_ok (pmem h) (pagetable x))"

definition proc_mem :: "(uint64 \<Rightarrow> int) \<Rightarrow> 'a kstate_scheme \<Rightarrow> bool" where
  "proc_mem Y s \<longleftrightarrow> vm_inv (ph s) (roots s) (\<lambda>x. tf_refs s x + Y x) \<and> (\<forall>x. 0 \<le> Y x) \<and> (\<forall>i<NPROC. slot_ok (ph s) (procs s i)) \<and>
     (\<forall>i<NPROC. \<forall>j<NPROC. i \<noteq> j \<and> pagetable (procs s i) \<noteq> 0 \<longrightarrow> pagetable (procs s i) \<noteq> pagetable (procs s j)) \<and>
     (\<forall>r\<in>roots s. \<forall>va x. upages (pmem (ph s)) r va = Some x \<longrightarrow> tf_refs s x + Y x = 0) \<and>
     pgaligned (trampoline s) \<and> trampoline s < 2 ^ 56"

lemma tf_refs_nonneg [simp]: "0 \<le> tf_refs s x"
  by (simp add: tf_refs_def)

lemma tf_refs_cong: "(\<And>i. i < NPROC \<Longrightarrow> trapframe (procs s' i) = trapframe (procs s i)) \<Longrightarrow> tf_refs s' = tf_refs s"
  by (auto simp: tf_refs_def fun_eq_iff intro!: arg_cong [where f = card])

lemma roots_cong: "(\<And>i. i < NPROC \<Longrightarrow> pagetable (procs s' i) = pagetable (procs s i)) \<Longrightarrow> roots s' = roots s"
  by (auto simp: roots_def)

lemma tf_refs_upd:
  assumes "p < NPROC" and "procs s' = (procs s)(p := x)"
  shows "tf_refs s' y = tf_refs s y + of_bool (trapframe x = y \<and> y \<noteq> 0) - of_bool (trapframe (procs s p) = y \<and> y \<noteq> 0)"
proof -
  let ?A = "{i. i < NPROC \<and> i \<noteq> p \<and> trapframe (procs s i) = y \<and> y \<noteq> 0}"
  have f: "finite ?A" by simp
  have "{i. i < NPROC \<and> trapframe (procs s' i) = y \<and> y \<noteq> 0} = (if trapframe x = y \<and> y \<noteq> 0 then insert p ?A else ?A)"
    "{i. i < NPROC \<and> trapframe (procs s i) = y \<and> y \<noteq> 0} = (if trapframe (procs s p) = y \<and> y \<noteq> 0 then insert p ?A else ?A)"
    using assms by (auto split: if_splits)
  then show ?thesis using f unfolding tf_refs_def by simp
qed

lemma tf_refs_pos: "i < NPROC \<Longrightarrow> trapframe (procs s i) \<noteq> 0 \<Longrightarrow> 1 \<le> tf_refs s (trapframe (procs s i))"
  unfolding tf_refs_def by (subst of_nat_1 [symmetric], subst of_nat_le_iff) (auto simp: Suc_le_eq card_gt_0_iff)

definition owners :: "(uint64 \<Rightarrow> int) \<Rightarrow> 'a kstate_scheme \<Rightarrow> uint64 \<Rightarrow> int" where
  "owners Y s x = tf_refs s x + Y x"

lemma proc_memD:
  assumes "proc_mem Y s"
  shows "vm_inv (ph s) (roots s) (owners Y s)" "0 \<le> Y x" "0 \<le> owners Y s x" "i < NPROC \<Longrightarrow> slot_ok (ph s) (procs s i)"
    "i < NPROC \<Longrightarrow> j < NPROC \<Longrightarrow> i \<noteq> j \<Longrightarrow> pagetable (procs s i) \<noteq> 0 \<Longrightarrow> pagetable (procs s i) \<noteq> pagetable (procs s j)"
    "pgaligned (trampoline s)" "trampoline s < 2 ^ 56" "0 \<notin> roots s"
    "r \<in> roots s \<Longrightarrow> upages (pmem (ph s)) r va = Some y \<Longrightarrow> owners Y s y = 0"
proof -
  have "owners Y s = (\<lambda>x. tf_refs s x + Y x)" by (simp add: owners_def fun_eq_iff)
  then show "vm_inv (ph s) (roots s) (owners Y s)" using assms by (simp add: proc_mem_def)
  have y: "0 \<le> Y x" for x using assms by (simp add: proc_mem_def)
  then show "0 \<le> Y x" .
  show "0 \<le> owners Y s x" using y [of x] by (simp add: owners_def)
qed (use assms in \<open>auto simp: proc_mem_def roots_def owners_def\<close>)

lemma slot_ok_same:
  assumes "slot_ok h x" and "same_user h R X h'" and "state x \<noteq> UNUSED \<Longrightarrow> pagetable x \<in> R"
  shows "slot_ok h' x"
proof (cases "state x = UNUSED")
  case False
  then have r: "pagetable x \<in> R" using assms(3) by blast
  show ?thesis using assms(1) unfolding slot_ok_def top_ok_def same_user_None [OF assms(2) r] same_userD(4) [OF assms(2) r] same_userD(6) [OF assms(2)] .
qed (use assms(1) in \<open>simp add: slot_ok_def\<close>)

lemma roots_upd:
  assumes "proc_mem Y s" and "p < NPROC" and "procs s' = (procs s)(p := x)"
  shows "roots s' = (roots s - {pagetable (procs s p)}) \<union> ({pagetable x} - {0})"
  using proc_memD(5) [OF assms(1), of _ p] assms(2,3) unfolding roots_def by (fastforce split: if_splits)

lemma owners_upd:
  assumes "p < NPROC" and "procs s' = (procs s)(p := x)"
  shows "owners Y s' y = owners Y s y + of_bool (trapframe x = y \<and> y \<noteq> 0) - of_bool (trapframe (procs s p) = y \<and> y \<noteq> 0)"
  by (simp add: owners_def tf_refs_upd [OF assms])

text \<open>Changing one slot.\<close>

lemma proc_mem_upd:
  assumes pm: "proc_mem Y s" and p: "p < NPROC" and s': "procs s' = (procs s)(p := x)" "trampoline s' = trampoline s"
    and vm: "vm_inv (ph s') (roots s') (owners Y s')" and su: "same_user (ph s) (roots s - {pagetable (procs s p)}) X (ph s')"
    and ok: "slot_ok (ph s') x" and new: "pagetable x \<notin> roots s - {pagetable (procs s p)}"
    and iso: "\<And>r va y. r \<in> roots s' \<Longrightarrow> upages (pmem (ph s')) r va = Some y \<Longrightarrow> owners Y s' y = 0"
  shows "proc_mem Y s'"
proof -
  note d = proc_memD [OF pm]
  have other: "pagetable (procs s i) \<in> roots s - {pagetable (procs s p)}" if "i < NPROC" "i \<noteq> p" "pagetable (procs s i) \<noteq> 0" for i
    using that d(5) [OF that(1) p that(2,3)] by (auto simp: roots_def)
  have sl: "slot_ok (ph s') (procs s' i)" if "i < NPROC" for i
  proof (cases "i = p")
    case False
    have "pagetable (procs s i) \<noteq> 0" if "state (procs s i) \<noteq> UNUSED" using d(4) [OF \<open>i < NPROC\<close>] that by (simp add: slot_ok_def)
    then show ?thesis using slot_ok_same [OF d(4) [OF that] su] other [OF that False] s'(1) False by simp
  qed (use ok s' in simp)
  have dis: "pagetable (procs s' i) \<noteq> pagetable (procs s' j)"
    if "i < NPROC" "j < NPROC" "i \<noteq> j" "pagetable (procs s' i) \<noteq> 0" for i j
    using that d(5) [OF that(1-3)] other [OF that(1)] other [OF that(2)] new s'(1) by (auto split: if_splits)
  have "owners Y s' = (\<lambda>x. tf_refs s' x + Y x)" by (simp add: owners_def fun_eq_iff)
  then show ?thesis using vm d(2,6,7) s'(2) sl dis iso by (simp add: proc_mem_def owners_def)
qed

section \<open>Freeing a slot\<close>

definition free_slot :: "proc \<Rightarrow> proc" where
  "free_slot x = x\<lparr>trapframe := 0, pagetable := 0, sz := 0, pid := 0, parent := None, pname := (pname x)[0 := 0],
     chan := NoChan, pkilled := 0, xstate := 0, priority := DEFAULT_PRIORITY, ready_since := 0, state := UNUSED\<rparr>"

lemma freeproc_vm:
  assumes inv: "vm_inv (ph s) R X" and X: "\<And>x. 0 \<le> X x"
    and tf: "trapframe (procs s p) \<noteq> 0 \<Longrightarrow> ram (ph s) (trapframe (procs s p)) \<and> 1 \<le> X (trapframe (procs s p))"
    and pt: "pagetable (procs s p) \<noteq> 0 \<Longrightarrow> pagetable (procs s p) \<in> R \<and> sz (procs s p) \<le> TRAPFRAME \<and>
      (\<forall>va. umap (pmem (ph s)) (pagetable (procs s p)) va \<noteq> None \<longrightarrow> va < sz (procs s p)) \<and> top_ok (pmem (ph s)) (pagetable (procs s p))"
    and R: "0 \<notin> R"
  defines "X' \<equiv> \<lambda>x. X x - of_bool (trapframe (procs s p) = x \<and> x \<noteq> 0)"
  obtains h where "freeproc p s = Ok ((upd_proc p free_slot s)\<lparr>ph := h\<rparr>)" "vm_inv h (R - {pagetable (procs s p)}) X'"
    "same_user (ph s) (R - {pagetable (procs s p)}) X' h"
proof -
  let ?tf = "trapframe (procs s p)" and ?pt = "pagetable (procs s p)"
  obtain h1 where 1: "(if ?tf \<noteq> 0 then on_ph (\<lambda>h. kfree h ?tf) s else Ok s) = Ok (s\<lparr>ph := h1\<rparr>)" "vm_inv h1 R X'" "same_user (ph s) R X' h1"
  proof (cases "?tf = 0")
    case True
    then have "X' = X" by (auto simp: X'_def)
    then show thesis using that [of "ph s"] True inv by simp
  next
    case False
    obtain h1 where k: "kfree (ph s) ?tf = Ok h1" "vm_inv h1 R (X(?tf := X ?tf - 1))" "same_user (ph s) R (X(?tf := X ?tf - 1)) h1"
      by (rule kfree_same_user [OF inv]) (use tf False in auto)
    have "X(?tf := X ?tf - 1) = X'" using False by (auto simp: X'_def)
    then show thesis using that [of h1] k False by (simp add: on_ph_def)
  qed
  have X': "0 \<le> X' x" for x using X [of x] tf by (auto simp: X'_def)
  obtain h where 2: "(if ?pt \<noteq> 0 then proc_freepagetable ?pt (sz (procs s p)) h1 else Ok h1) = Ok h" "vm_inv h (R - {?pt}) X'" "same_user h1 (R - {?pt}) X' h"
  proof (cases "?pt = 0")
    case True
    then show thesis using that [of h1] 1(2) R by simp
  next
    case False
    note q = pt [OF False]
    have r: "?pt \<in> R" using q by simp
    have um: "va < sz (procs s p)" if "umap (pmem h1) ?pt va = Some e" for va e using q that same_user_None [OF 1(3) r, of va] by simp
    have top: "top_ok (pmem h1) ?pt" using q same_userD(4) [OF 1(3) r] by (simp add: top_ok_def)
    obtain h where "proc_freepagetable ?pt (sz (procs s p)) h1 = Ok h" "vm_inv h (R - {?pt}) X'" "same_user h1 (R - {?pt}) X' h"
      by (rule proc_freepagetable_vm [OF 1(2) X' r]) (use q um top in auto)
    then show thesis using that False by simp
  qed
  have "same_user (ph s) (R - {?pt}) X' h" by (rule same_user_trans [OF same_user_mono [OF 1(3)] 2(3)]) auto
  moreover have "freeproc p s = Ok ((upd_proc p free_slot s)\<lparr>ph := h\<rparr>)"
    unfolding freeproc_def 1(1) using 2(1) by (auto simp: on_ph_def upd_proc_def free_slot_def Let_def split: if_splits)
  ultimately show thesis using that 2(2) by blast
qed

lemma freeproc_mem:
  assumes pm: "proc_mem Y s" and p: "p < NPROC"
  obtains h where "freeproc p s = Ok ((upd_proc p free_slot s)\<lparr>ph := h\<rparr>)" "proc_mem Y ((upd_proc p free_slot s)\<lparr>ph := h\<rparr>)"
    "same_user (ph s) (roots s - {pagetable (procs s p)}) (owners Y ((upd_proc p free_slot s)\<lparr>ph := h\<rparr>)) h"
proof -
  note d = proc_memD [OF pm] and sl = proc_memD(4) [OF pm p]
  let ?x = "procs s p" and ?X = "\<lambda>y. owners Y s y - of_bool (trapframe (procs s p) = y \<and> y \<noteq> 0)"
  have tf: "ram (ph s) (trapframe ?x) \<and> 1 \<le> owners Y s (trapframe ?x)" if "trapframe ?x \<noteq> 0"
    using sl that tf_refs_pos [OF p that] d(2) [of "trapframe ?x"] by (auto simp: slot_ok_def owners_def split: if_splits)
  have pt: "pagetable ?x \<in> roots s \<and> sz ?x \<le> TRAPFRAME \<and> (\<forall>va. umap (pmem (ph s)) (pagetable ?x) va \<noteq> None \<longrightarrow> va < sz ?x) \<and>
      top_ok (pmem (ph s)) (pagetable ?x)" if "pagetable ?x \<noteq> 0"
    using sl that p by (auto simp: slot_ok_def roots_def split: if_splits)
  obtain h where h: "freeproc p s = Ok ((upd_proc p free_slot s)\<lparr>ph := h\<rparr>)" "vm_inv h (roots s - {pagetable ?x}) ?X"
    "same_user (ph s) (roots s - {pagetable ?x}) ?X h"
    using d(1,3) tf pt d(8) by (rule freeproc_vm)
  let ?s' = "(upd_proc p free_slot s)\<lparr>ph := h\<rparr>"
  have pr: "procs ?s' = (procs s)(p := free_slot ?x)" by (simp add: upd_proc_def)
  have rt: "roots ?s' = roots s - {pagetable ?x}" using roots_upd [OF pm p pr] by (simp add: free_slot_def)
  have ow: "owners Y ?s' = ?X" by (rule ext, subst owners_upd [OF p pr]) (simp add: free_slot_def)
  have iso: "?X y = 0" if "r \<in> roots s - {pagetable ?x}" "upages (pmem h) r va = Some y" for r va y
  proof -
    have o: "owners Y s y = 0" using d(9) [of r va y] that same_userD(2) [OF h(3) that(1)] by simp
    then have "trapframe ?x \<noteq> y \<or> y = 0" using tf by fastforce
    then show ?thesis using o by auto
  qed
  have "proc_mem Y ?s'"
    by (rule proc_mem_upd [OF pm p pr, where X = ?X]) (use h(2,3) rt ow d(8) iso in \<open>simp_all add: slot_ok_def free_slot_def upd_proc_def\<close>)
  then show thesis using that h(1,3) ow by simp
qed

section \<open>Allocating a slot\<close>

text \<open>The slot before its pages are allocated, and the slot when they are.\<close>

definition used_slot :: "int \<Rightarrow> proc \<Rightarrow> proc" where
  "used_slot n x = x\<lparr>pid := n, state := USED, priority := DEFAULT_PRIORITY, ready_since := 0\<rparr>"

definition new_slot :: "int \<Rightarrow> uint64 \<Rightarrow> uint64 \<Rightarrow> uint64 \<Rightarrow> proc \<Rightarrow> proc" where
  "new_slot n tf pt fpc x = (used_slot n x)\<lparr>trapframe := tf, pagetable := pt,
     pcontext := \<lparr>ra = fpc, sp = kstack x + PGSIZE, s_regs = replicate 12 0\<rparr>\<rparr>"

lemma kstate_order:
  "s\<lparr>procs := P, ph := h\<rparr> = s\<lparr>ph := h, procs := P\<rparr>" "s\<lparr>procs := P, nextpid := n\<rparr> = s\<lparr>nextpid := n, procs := P\<rparr>"
  "s\<lparr>ph := h, nextpid := n\<rparr> = s\<lparr>nextpid := n, ph := h\<rparr>"
  by simp_all

lemma allocproc_mem:
  assumes pm: "proc_mem Y s"
  obtains (full) "allocproc s = Ok (None, s)" "\<forall>i<NPROC. state (procs s i) \<noteq> UNUSED"
  | (nomem) p x h where "allocproc s = Ok (None, s\<lparr>procs := (procs s)(p := x), nextpid := nextpid s + 1, ph := h\<rparr>)" "p < NPROC"
      "state (procs s p) = UNUSED" "state x = UNUSED" "proc_mem Y (s\<lparr>procs := (procs s)(p := x), nextpid := nextpid s + 1, ph := h\<rparr>)"
      "same_user (ph s) (roots s) (owners Y s) h" "nfree (ph s) \<le> 5"
  | (new) p tf pt h where "allocproc s = Ok (Some p, s\<lparr>procs := (procs s)(p := new_slot (nextpid s) tf pt (forkret_pc s) (procs s p)), nextpid := nextpid s + 1, ph := h\<rparr>)"
      "p < NPROC" "state (procs s p) = UNUSED" "\<forall>j<p. state (procs s j) \<noteq> UNUSED" "pt \<notin> roots s" "tf \<noteq> 0" "pt \<noteq> 0" "owners Y s tf = 0" "ram (ph s) tf"
      "proc_mem Y (s\<lparr>procs := (procs s)(p := new_slot (nextpid s) tf pt (forkret_pc s) (procs s p)), nextpid := nextpid s + 1, ph := h\<rparr>)"
      "same_user (ph s) (roots s) (owners Y s) h" "\<And>va. umap (pmem h) pt va = None" "nfree (ph s) \<le> nfree h + 6"
proof (cases "find (\<lambda>i. state (procs s i) = UNUSED) [0..<NPROC]")
  case None
  then have "\<forall>i<NPROC. state (procs s i) \<noteq> UNUSED" unfolding find_upt_None .
  then show thesis using full None unfolding allocproc_def by simp
next
  case (Some p)
  note d = proc_memD [OF pm]
  have p: "p < NPROC" "state (procs s p) = UNUSED" "\<forall>j<p. state (procs s j) \<noteq> UNUSED" using Some by (auto simp: find_upt_Some)
  have e: "pagetable (procs s p) = 0" "trapframe (procs s p) = 0" "sz (procs s p) = 0" using d(4) [OF p(1)] p(2) by (simp_all add: slot_ok_def)
  have R: "roots s - {0} = roots s" using d(8) by simp
  let ?u = "used_slot (nextpid s) (procs s p)"
  obtain tf h1 where k: "kalloc (ph s) = (tf, h1)" by force
  define s1 where "s1 = s\<lparr>procs := (procs s)(p := ?u\<lparr>trapframe := tf\<rparr>), nextpid := nextpid s + 1, ph := h1\<rparr>"
  have al: "allocproc s = (if tf = 0 then bindR (freeproc p s1) (\<lambda>s. Ok (None, s))
      else bindR (with_ph (proc_pagetable (trampoline s) tf) s1) (\<lambda>(pt, s).
             let s = upd_proc p (\<lambda>x. x\<lparr>pagetable := pt\<rparr>) s in
             if pt = 0 then bindR (freeproc p s) (\<lambda>s. Ok (None, s))
             else Ok (Some p, upd_proc p (\<lambda>x. x\<lparr>pcontext := \<lparr>ra = forkret_pc s, sp = kstack x + PGSIZE, s_regs = replicate 12 0\<rparr>\<rparr>) s)))"
    unfolding allocproc_def Some by (simp add: allocpid_def k s1_def upd_proc_def used_slot_def kstate_order)
  have fail: thesis if h2: "vm_inv h2 (roots s) (\<lambda>y. owners Y s y + of_bool (tf = y \<and> y \<noteq> 0))" "same_user (ph s) (roots s) (owners Y s) h2" "tf \<noteq> 0 \<Longrightarrow> ram h2 tf"
    and a: "allocproc s = bindR (freeproc p (s1\<lparr>ph := h2\<rparr>)) (\<lambda>s. Ok (None, s))" and nf: "nfree (ph s) \<le> 5" for h2
  proof -
    let ?s2 = "s1\<lparr>ph := h2\<rparr>" and ?X2 = "\<lambda>y. owners Y s y + of_bool (tf = y \<and> y \<noteq> 0)" and ?x = "free_slot (?u\<lparr>trapframe := tf\<rparr>)"
    have x2: "procs ?s2 p = ?u\<lparr>trapframe := tf\<rparr>" "pagetable (procs ?s2 p) = 0" "trapframe (procs ?s2 p) = tf"
      using e by (simp_all add: s1_def used_slot_def)
    have Xe: "(\<lambda>y. ?X2 y - of_bool (trapframe (procs ?s2 p) = y \<and> y \<noteq> 0)) = owners Y s" unfolding x2(3) by simp
    have iv: "vm_inv (ph ?s2) (roots s) ?X2" using h2(1) by simp
    have X: "0 \<le> ?X2 y" for y using d(3) [of y] by simp
    have tf: "ram (ph ?s2) (trapframe (procs ?s2 p)) \<and> 1 \<le> ?X2 (trapframe (procs ?s2 p))" if "trapframe (procs ?s2 p) \<noteq> 0"
      using that h2(3) d(3) [of tf] unfolding x2(3) by simp
    let ?X3 = "\<lambda>y. ?X2 y - of_bool (trapframe (procs ?s2 p) = y \<and> y \<noteq> 0)"
    obtain h3 where f': "freeproc p ?s2 = Ok ((upd_proc p free_slot ?s2)\<lparr>ph := h3\<rparr>)" "vm_inv h3 (roots s - {pagetable (procs ?s2 p)}) ?X3"
      "same_user (ph ?s2) (roots s - {pagetable (procs ?s2 p)}) ?X3 h3"
      by (rule freeproc_vm [OF iv X tf]) (use x2(2) d(8) in auto)
    note f = f'(1) f'(2,3) [unfolded Xe]
    let ?s' = "s\<lparr>procs := (procs s)(p := ?x), nextpid := nextpid s + 1, ph := h3\<rparr>"
    have su: "same_user (ph s) (roots s) (owners Y s) h3" using same_user_trans [OF h2(2)] f(3) x2(2) R by simp
    have pr: "procs ?s' = (procs s)(p := ?x)" by simp
    have "roots ?s' = roots s" using roots_upd [OF pm p(1) pr] e R by (simp add: free_slot_def)
    moreover have "owners Y ?s' = owners Y s" by (rule ext, subst owners_upd [OF p(1) pr]) (simp add: e free_slot_def)
    ultimately have "proc_mem Y ?s'"
      by (intro proc_mem_upd [OF pm p(1) pr, where X = "owners Y s"]) (use f(2) su x2(2) R e d(8,9) same_userD(2) [OF su] in \<open>simp_all add: slot_ok_def free_slot_def\<close>)
    moreover have "allocproc s = Ok (None, ?s')" using a f(1) by (simp add: s1_def upd_proc_def kstate_order)
    ultimately show thesis using nomem [where p = p and x = ?x and h = h3] p su nf by (simp add: free_slot_def)
  qed
  show thesis
  proof (cases "tf = 0")
    case True
    then have "h1 = ph s" "freelist (ph s) = 0" using kalloc_None k by blast+
    then show thesis using fail [of h1] True al d(1) nfree_pos [OF vm_invD(1) [OF d(1)]] by (simp add: s1_def)
  next
    case False
    note ka = kalloc_vm [OF d(1) k False]
    let ?X1 = "(owners Y s)(tf := 1)"
    have X1: "0 \<le> ?X1 y" for y using d(3) by simp
    have X1e: "?X1 = (\<lambda>y. owners Y s y + of_bool (tf = y \<and> y \<noteq> 0))" using ka(5) False by auto
    have tf: "pgaligned tf" "tf < 2 ^ 56" using ram_pgaligned [OF ka(3)] ram_56 [OF ka(3)] by simp_all
    have su1: "same_user (ph s) (roots s) (owners Y s) h1" by (rule kalloc_same_user [OF d(1) k False])
    have mono: "same_user h1 (roots s) (owners Y s) h2" if "same_user h1 (roots s) ?X1 h2" for h2
      by (rule same_user_mono [OF that]) (use ka(5) in auto)
    have nf: "nfree (ph s) = nfree h1 + 1" by (rule kalloc_nfree [OF vm_invD(1) [OF d(1)] k False])
    show thesis
    proof (rule proc_pagetable_vm [OF ka(1) X1 d(6,7) tf])
      fix h2
      assume q: "proc_pagetable (trampoline s) tf h1 = Ok (0, h2)" "vm_inv h2 (roots s) ?X1" "same_user h1 (roots s) ?X1 h2" "nfree h1 \<le> 4"
      show thesis
      proof (rule fail [of h2])
        show "vm_inv h2 (roots s) (\<lambda>y. owners Y s y + of_bool (tf = y \<and> y \<noteq> 0))" using q(2) X1e by simp
        show "same_user (ph s) (roots s) (owners Y s) h2" by (rule same_user_trans [OF su1 mono [OF q(3)]])
        show "ram h2 tf" using ka(3) same_userD(6) [OF su1] same_userD(6) [OF q(3)] by simp
        have "upd_proc p (\<lambda>x. x\<lparr>pagetable := 0\<rparr>) (s1\<lparr>ph := h2\<rparr>) = s1\<lparr>ph := h2\<rparr>"
          by (rule upd_proc_same) (use e in \<open>simp add: s1_def used_slot_def\<close>)
        moreover have "with_ph (proc_pagetable (trampoline s) tf) s1 = Ok (0, s1\<lparr>ph := h2\<rparr>)" using q(1) by (simp add: with_ph_def s1_def)
        ultimately show "allocproc s = bindR (freeproc p (s1\<lparr>ph := h2\<rparr>)) (\<lambda>s. Ok (None, s))"
          using al False by simp
      qed (use nf q(4) in simp)
    next
      fix pt h2
      assume q: "proc_pagetable (trampoline s) tf h1 = Ok (pt, h2)" "pt \<noteq> 0" "pt \<notin> roots s" "vm_inv h2 (insert pt (roots s)) ?X1"
        "same_user h1 (roots s) ?X1 h2" "\<And>va. umap (pmem h2) pt va = None" "top_ok (pmem h2) pt" "nfree h1 \<le> nfree h2 + 5"
      let ?x = "new_slot (nextpid s) tf pt (forkret_pc s) (procs s p)"
      let ?s' = "s\<lparr>procs := (procs s)(p := ?x), nextpid := nextpid s + 1, ph := h2\<rparr>"
      have a: "allocproc s = Ok (Some p, ?s')"
        using al False q(1,2) by (simp add: with_ph_def s1_def upd_proc_def used_slot_def new_slot_def kstate_order)
      have su: "same_user (ph s) (roots s) (owners Y s) h2" by (rule same_user_trans [OF su1 mono [OF q(5)]])
      have pr: "procs ?s' = (procs s)(p := ?x)" by simp
      have rt: "roots ?s' = insert pt (roots s)" using roots_upd [OF pm p(1) pr] e R q(2) by (auto simp: new_slot_def)
      have ow: "owners Y ?s' = ?X1" unfolding X1e by (rule ext, subst owners_upd [OF p(1) pr]) (simp add: e new_slot_def)
      have rm: "ram h2 tf" using ka(3) same_userD(6) [OF su] by simp
      have ok: "slot_ok h2 ?x" using q(2,6,7) False rm e by (simp add: slot_ok_def new_slot_def used_slot_def)
      have iso: "?X1 y = 0" if r: "r \<in> insert pt (roots s)" and u: "upages (pmem h2) r va = Some y" for r va y
      proof -
        have rs: "r \<in> roots s" using r u q(6) [of va] by (auto simp: upages_def)
        then have u0: "upages (pmem (ph s)) r va = Some y" using u same_userD(2) [OF su rs] by simp
        then have "y \<noteq> tf" using ka(8) user_mappedI [OF rs] by (auto simp: upages_def)
        then show ?thesis using d(9) [OF rs u0] by simp
      qed
      have "proc_mem Y ?s'"
        by (rule proc_mem_upd [OF pm p(1) pr, where X = "owners Y s"]) (use q(3,4) rt ow su R e ok iso in \<open>simp_all add: new_slot_def\<close>)
      then show thesis using new [where p = p and tf = tf and pt = pt and h = h2] a p q(2,3,6,8) False ka(3,5) su nf by simp
    qed
  qed
qed

end
