(* ===== verification/Proc_Fork.thy ===== *)
theory Proc_Fork
  imports Proc_Mem Pipe_Props
begin

text \<open>
  \<^verbatim>\<open>kfork()\<close> of \<^verbatim>\<open>kernel/proc.c\<close> as a whole: the child's memory, registers, files and place in the process table.
\<close>

unbundle bit_operations_syntax

section \<open>The child's memory\<close>

lemma uvmcopy_proc:
  assumes inv: "vm_inv s R X" and X: "\<And>x. 0 \<le> X x" and r: "old \<in> R" "new \<in> R" "old \<noteq> new" and z: "z \<le> TRAPFRAME"
    and fresh: "\<And>va. umap (pmem s) new va = None" and all: "\<And>va. umap (pmem s) old va \<noteq> None \<Longrightarrow> va < z"
  obtains (copy) s' where "uvmcopy s old new z = Ok (0, s')" "vm_inv s' R X" "same_user s (R - {new}) X s'"
      "uview (pmem s') new = uview (pmem s) old" "upages (pmem s') new = upages (pmem s) old" "kpte (pmem s') new = kpte (pmem s) new"
  | (fail) s' where "uvmcopy s old new z = Ok (-1, s')" "vm_inv s' R X" "same_user s R X s'" "nfree s < 2 * (unat z div 4096 + 1)"
proof -
  have sh: "map_option PTE2PA (map_option f (umap (pmem s) r va)) = map_option PTE2PA (umap (pmem s) r va)"
    if "f = share_parent \<or> f = share_child" "r \<in> R" for f r va
  proof (cases "umap (pmem s) r va")
    case (Some e)
    have "ram s (PTE2PA e)" using vm_invD(4) [OF inv that(2) Some] by (simp add: mapped_ok_def)
    then show ?thesis using share_bits [of s e] Some that by auto
  qed simp
  have own: "agree {x. ram s x \<and> 1 \<le> X x} (pmem s) (pmem s')" if "frame s R {} s'" for s'
    unfolding agree_def using frame_byte [OF that] owned_page [OF inv] by auto
  consider (c) s' where "uvmcopy s old new z = Ok (0, s')" "copied s R X old new z s'"
    | (f) s' where "uvmcopy s old new z = Ok (-1, s')" "copy_failed s R X old s'" "nfree s < 2 * (unat z div 4096 + 1)"
    using uvmcopy_vm [OF inv X r z fresh] by blast
  then show thesis
  proof cases
    case c
    note d = copiedD [OF c(2)] and v = copied_view [OF inv r c(2) fresh]
    have up: "upages (pmem s') r = upages (pmem s) r" if "r \<in> R" "r \<noteq> new" for r
      using d(3) [OF that(1)] sh [of share_parent] that by (auto simp: upages_def fun_eq_iff)
    have un: "upages (pmem s') new va = upages (pmem s) old va" for va
      using d(3) [OF r(2), of va] sh [of share_child old va] r(1,3) fresh [of va] all [of va]
      by (cases "umap (pmem s) old va") (auto simp: upages_def split: if_splits)
    have vn: "uview (pmem s') new va = uview (pmem s) old va" for va
      using v(2) [of va] all [of "PGROUNDDOWN va"] by (auto simp: uview_def split: option.splits)
    have "same_user s (R - {new}) X s'"
      using up v(1) own [OF d(2)] frame_kpte [OF d(2)] frame_kend [OF frame_frame0 [OF d(2)]]
      unfolding same_user_def by (auto simp: fun_eq_iff)
    then show thesis using copy c(1) d(1) vn un frame_kpte [OF d(2) r(2)] by (simp add: fun_eq_iff)
  next
    case f
    have d: "vm_inv s' R X" "frame s R {} s'" "umap (pmem s') r va = umap (pmem s) r va \<or>
        umap (pmem s') r va = map_option share_parent (umap (pmem s) r va)" if "r \<in> R" for r va
      using f(2) that by (auto simp: copy_failed_def)
    note v = copy_failed_view [OF inv _ f(2)]
    have up: "upages (pmem s') r va = upages (pmem s) r va" if "r \<in> R" for r va
      using d(3) [OF that, of va] sh [of share_parent r va] that unfolding upages_def by auto
    have "same_user s R X s'"
      using up v own [OF d(2) [OF r(1)]] frame_kpte [OF d(2) [OF r(1)]] frame_kend [OF frame_frame0 [OF d(2) [OF r(1)]]]
      unfolding same_user_def by (auto simp: fun_eq_iff)
    then show thesis using fail f(1,3) d(1) [OF r(1)] by blast
  qed
qed

section \<open>The child's registers\<close>

text \<open>Writing to a page of the kernel's own.\<close>

lemma write_owned:
  assumes inv: "vm_inv s R X" and p: "ram s p" "1 \<le> X p" and ag: "agree (- {p}) (pmem s) m"
    and iso: "\<And>r va y. r \<in> R \<Longrightarrow> upages (pmem s) r va = Some y \<Longrightarrow> X y = 0"
  shows "vm_inv (s\<lparr>pmem := m\<rparr>) R X" "same_user s R (X(p := 0)) (s\<lparr>pmem := m\<rparr>)"
proof -
  note o = owned_page [OF inv p] and w = write_vm [OF inv owned_page [OF inv p] ag]
  show "vm_inv (s\<lparr>pmem := m\<rparr>) R X" by (rule w(1))
  have "agree (tables (pmem s) R) (pmem s) (pmem (s\<lparr>pmem := m\<rparr>))" using w(3) by simp
  then have f: "frame s R {p} (s\<lparr>pmem := m\<rparr>)" by (rule frame_tables [OF _ vm_invD(2) [OF inv] w(2)])
  have um: "umap m r = umap (pmem s) r" if "r \<in> R" for r by (rule forest_agree(3) [OF vm_invD(2) [OF inv] w(3) that])
  have "uview m r va = uview (pmem s) r va" if "r \<in> R" for r va
    using uview_frame [OF inv f that, of va] um [OF that] iso [OF that, of "PGROUNDDOWN va" p] p(2) by (auto simp: upages_def)
  moreover have "kpte m r = kpte (pmem s) r" if "r \<in> R" for r using frame_kpte [OF f that] by simp
  ultimately show "same_user s R (X(p := 0)) (s\<lparr>pmem := m\<rparr>)"
    using um agree_subset [OF ag] by (auto simp: same_user_def upages_def fun_eq_iff)
qed

definition fork_frame :: "mem \<Rightarrow> uint64 \<Rightarrow> uint64 \<Rightarrow> mem" where
  "fork_frame m tf ntf = store64 (store_bytes m ntf (load_bytes m tf tf_size)) (ntf + tf_a0) 0"

lemma tf_store: "store_tf np tf_a0 0 (copy_trapframe p np s) =
    s\<lparr>ph := (ph s)\<lparr>pmem := fork_frame (pmem (ph s)) (trapframe (procs s p)) (trapframe (procs s np))\<rparr>\<rparr>"
  by (simp add: store_tf_def copy_trapframe_def fork_frame_def)

lemma fork_frame_agree:
  assumes "pgaligned ntf"
  shows "agree (- {ntf}) m (fork_frame m tf ntf)"
proof -
  have "\<not> unat (a - ntf) < 288" if "PGROUNDDOWN a \<noteq> ntf" for a using in_page_iff [OF assms, of a] that by auto
  then have "agree (- {ntf}) m (store_bytes m ntf (load_bytes m tf tf_size))"
    by (auto simp: agree_def store_bytes_def load_bytes_def)
  moreover have "agree (- {ntf}) m' (store64 m' (ntf + tf_a0) 0)" for m'
    using agree_store64 [OF assms, of 14 "- {ntf}" m' 0] by simp
  ultimately show ?thesis unfolding fork_frame_def by (rule agree_trans)
qed

lemma fork_frame_load:
  assumes ntf: "pgaligned ntf" and tf: "pgaligned tf" and i: "i < 36"
  shows "load64 (fork_frame m tf ntf) (ntf + 8 * of_nat i) = (if i = 14 then 0 else load64 m (tf + 8 * of_nat i))"
proof -
  let ?m = "store_bytes m ntf (load_bytes m tf tf_size)"
  have a: "aligned8 (ntf + 8 * of_nat i)" "aligned8 (ntf + 8 * 14)" by (rule aligned8_slot [OF ntf])+
  have e: "ntf + 8 * 14 = ntf + 8 * of_nat i \<longleftrightarrow> i = 14"
    unfolding add_left_cancel using i by (auto simp: word_unat_eq_iff unat_word_ariths unat_of_nat)
  have "load64 ?m (ntf + 8 * of_nat i) = load64 m (tf + 8 * of_nat i)"
  proof (rule load64_cong)
    fix j :: nat
    assume j: "j < 8"
    have "unat (ntf + 8 * of_nat i + of_nat j - ntf) = 8 * i + j"
      using i j by (simp add: unat_word_ariths unat_of_nat)
    then show "?m (ntf + 8 * of_nat i + of_nat j) = m (tf + 8 * of_nat i + of_nat j)"
      using i j by (simp add: store_bytes_def load_bytes_def algebra_simps)
  qed
  then show ?thesis using load64_store64_aligned [OF a(2,1), of ?m 0] e by (simp add: fork_frame_def)
qed

section \<open>The child's files\<close>

text \<open>Every file the process has open is counted in the file table.\<close>

definition files_ok :: "nat \<Rightarrow> 'a kernel_scheme \<Rightarrow> bool" where
  "files_ok p s \<longleftrightarrow> (\<forall>fd<NOFILE. \<forall>f. ofile (procs s p) fd = Some f \<longrightarrow> 1 \<le> fref (ftable s f))"

definition merge_fds :: "nat list \<Rightarrow> (nat \<Rightarrow> nat option) \<Rightarrow> (nat \<Rightarrow> nat option) \<Rightarrow> nat \<Rightarrow> nat option" where
  "merge_fds l f g fd = (if fd \<in> set l \<and> f fd \<noteq> None then f fd else g fd)"

lemma merge_fds_simps: "merge_fds [] f g = g" "f fd = None \<Longrightarrow> merge_fds (fd # l) f g = merge_fds l f g"
  "f fd = Some x \<Longrightarrow> merge_fds l f (g(fd := Some x)) = merge_fds (fd # l) f g"
  by (auto simp: merge_fds_def fun_eq_iff)

lemma fork_fds:
  assumes "p \<noteq> np" and "\<forall>fd\<in>set l. \<forall>f. ofile (procs s p) fd = Some f \<longrightarrow> 1 \<le> fref (ftable s f)"
  shows "\<exists>F. foldR (fork_fd p np) l s = Ok (s\<lparr>procs := (procs s)(np := (procs s np)\<lparr>ofile := merge_fds l (ofile (procs s p)) (ofile (procs s np))\<rparr>), ftable := F\<rparr>)"
  using assms(2)
proof (induction l arbitrary: s)
  case Nil
  show ?case by (intro exI [of _ "ftable s"]) (simp add: merge_fds_simps)
next
  case (Cons fd l)
  show ?case
  proof (cases "ofile (procs s p) fd")
    case None
    then have e: "foldR (fork_fd p np) (fd # l) s = foldR (fork_fd p np) l s" by (simp add: fork_fd_def)
    show ?thesis unfolding e merge_fds_simps(2) [where f = "ofile (procs s p)", OF None] using Cons by simp
  next
    case (Some f)
    let ?s = "upd_proc np (\<lambda>x. x\<lparr>ofile := (ofile x)(fd := Some f)\<rparr>) (upd_file f (\<lambda>x. x\<lparr>fref := fref x + 1\<rparr>) s)"
    have r: "1 \<le> fref (ftable s f)" using Cons.prems Some by simp
    have e: "foldR (fork_fd p np) (fd # l) s = foldR (fork_fd p np) l ?s" using Some r by (simp add: fork_fd_def filedup_def)
    have "\<forall>fd\<in>set l. \<forall>f. ofile (procs ?s p) fd = Some f \<longrightarrow> 1 \<le> fref (ftable ?s f)"
      using Cons.prems assms(1) r by (auto simp: upd_proc_def upd_file_def)
    from Cons.IH [OF this] obtain F where F: "foldR (fork_fd p np) l ?s = Ok (?s\<lparr>procs := (procs ?s)(np := (procs ?s np)\<lparr>ofile :=
        merge_fds l (ofile (procs ?s p)) (ofile (procs ?s np))\<rparr>), ftable := F\<rparr>)" ..
    have "ofile (procs ?s p) = ofile (procs s p)" "ofile (procs ?s np) = (ofile (procs s np))(fd := Some f)"
      using assms(1) by (simp_all add: upd_proc_def upd_file_def)
    then show ?thesis unfolding e F using merge_fds_simps(3) [of "ofile (procs s p)", OF Some] by (intro exI [of _ F]) (simp add: upd_proc_def upd_file_def fun_upd_same del: fun_upd_apply)
  qed
qed

section \<open>The steps of kfork\<close>

lemma kfork_run:
  assumes al: "allocproc s = Ok (Some np, s1)" and np: "p \<noteq> np" and same: "procs s1 p = procs s p"
    and cp: "uvmcopy (ph s1) (pagetable (procs s p)) (pagetable (procs s1 np)) (sz (procs s p)) = Ok (0, h2)"
    and f: "files_ok p s1" and ip: "cwd (procs s p) = Some ip"
  obtains s' where "kfork p s = Ok (pid (procs s1 np), s')"
    "procs s' = (procs s1)(np := (procs s1 np)\<lparr>sz := sz (procs s p),
       ofile := merge_fds [0..<NOFILE] (ofile (procs s p)) (ofile (procs s1 np)), cwd := Some ip,
       pname := safestrcpy_bytes (pname (procs s1 np)) (pname (procs s p)) 16, parent := Some p,
       priority := priority (procs s p), ready_since := 0, state := RUNNABLE\<rparr>)"
    "ph s' = h2\<lparr>pmem := fork_frame (pmem h2) (trapframe (procs s p)) (trapframe (procs s1 np))\<rparr>" "trampoline s' = trampoline s1"
proof -
  define s4 where "s4 = store_tf np tf_a0 0 (copy_trapframe p np (upd_proc np (\<lambda>x. x\<lparr>sz := sz (procs s p)\<rparr>) (s1\<lparr>ph := h2\<rparr>)))"
  have s4: "procs s4 = (procs s1)(np := (procs s1 np)\<lparr>sz := sz (procs s p)\<rparr>)" "ftable s4 = ftable s1" "trampoline s4 = trampoline s1"
    "ph s4 = h2\<lparr>pmem := fork_frame (pmem h2) (trapframe (procs s p)) (trapframe (procs s1 np))\<rparr>"
    unfolding s4_def tf_store using np same by (simp_all add: upd_proc_def)
  have "\<forall>fd\<in>set [0..<NOFILE]. \<forall>f. ofile (procs s4 p) fd = Some f \<longrightarrow> 1 \<le> fref (ftable s4 f)"
    using f np by (simp add: files_ok_def s4)
  from fork_fds [OF np this] obtain F where F: "foldR (fork_fd p np) [0..<NOFILE] s4 = Ok (s4\<lparr>procs := (procs s4)(np := (procs s4 np)\<lparr>ofile :=
      merge_fds [0..<NOFILE] (ofile (procs s4 p)) (ofile (procs s4 np))\<rparr>), ftable := F\<rparr>)" ..
  define s5 where "s5 = s4\<lparr>procs := (procs s4)(np := (procs s4 np)\<lparr>ofile := merge_fds [0..<NOFILE] (ofile (procs s4 p)) (ofile (procs s4 np))\<rparr>), ftable := F\<rparr>"
  have s5: "procs s5 p = procs s p" "ph s5 = ph s4" "trampoline s5 = trampoline s1"
    "procs s5 = (procs s1)(np := (procs s1 np)\<lparr>sz := sz (procs s p), ofile := merge_fds [0..<NOFILE] (ofile (procs s p)) (ofile (procs s1 np))\<rparr>)"
    using np same by (simp_all add: s5_def s4 fun_eq_iff)
  have w: "with_ph (\<lambda>h. uvmcopy h (pagetable (procs s1 p)) (pagetable (procs s1 np)) (sz (procs s1 p))) s1 = Ok (0, s1\<lparr>ph := h2\<rparr>)"
    using cp same by (simp add: with_ph_def)
  have z: "sz (procs (s1\<lparr>ph := h2\<rparr>) p) = sz (procs s p)" using same by simp
  have k: "kfork p s = bindR (deref (cwd (procs s5 p))) (\<lambda>ip.
               let s = idup ip s5;
                   s = upd_proc np (\<lambda>x. x\<lparr>cwd := Some ip, pname := safestrcpy_bytes (pname x) (pname (procs s p)) 16\<rparr>) s;
                   n = pid (procs s np);
                   s = upd_proc np (\<lambda>x. x\<lparr>parent := Some p\<rparr>) s;
                   s = upd_proc np (\<lambda>x. x\<lparr>priority := priority (procs s p), ready_since := 0, state := RUNNABLE\<rparr>) s
               in Ok (n, s))"
    by (simp only: kfork_def al bindR.simps prod.case option.case w Let_def z s4_def [symmetric] F s5_def [symmetric] less_irrefl if_False)
  define s' where "s' = upd_proc np (\<lambda>x. x\<lparr>priority := priority (procs s p), ready_since := 0, state := RUNNABLE\<rparr>) (upd_proc np (\<lambda>x. x\<lparr>parent := Some p\<rparr>)
     (upd_proc np (\<lambda>x. x\<lparr>cwd := Some ip, pname := safestrcpy_bytes (pname x) (pname (procs s p)) 16\<rparr>) (idup ip s5)))"
  have i: "procs (idup ip s5) = procs s5" "ph (idup ip s5) = ph s5" "trampoline (idup ip s5) = trampoline s5" by (simp_all add: idup_def upd_inode_def)
  have "kfork p s = Ok (pid (procs s1 np), s')"
    unfolding k s5(1) ip deref_def option.case bindR.simps Let_def s'_def using np s5(1) by (simp add: i s5(4))
  moreover have "procs s' = (procs s1)(np := (procs s1 np)\<lparr>sz := sz (procs s p),
       ofile := merge_fds [0..<NOFILE] (ofile (procs s p)) (ofile (procs s1 np)), cwd := Some ip,
       pname := safestrcpy_bytes (pname (procs s1 np)) (pname (procs s p)) 16, parent := Some p,
       priority := priority (procs s p), ready_since := 0, state := RUNNABLE\<rparr>)"
    unfolding s'_def upd_proc_def by (simp add: i s5(4) fun_upd_same del: fun_upd_apply)
  moreover have "ph s' = ph s4" "trampoline s' = trampoline s1" unfolding s'_def by (simp_all add: i s5 upd_proc_def)
  ultimately show thesis using that s4(4) by simp
qed

lemma kfork_copy_failed:
  assumes al: "allocproc s = Ok (Some np, s1)" and same: "procs s1 p = procs s p"
    and cp: "uvmcopy (ph s1) (pagetable (procs s p)) (pagetable (procs s1 np)) (sz (procs s p)) = Ok (-1, h2)"
  shows "kfork p s = bindR (freeproc np (s1\<lparr>ph := h2\<rparr>)) (\<lambda>s. Ok (-1, s))"
  unfolding kfork_def al using cp same by (simp add: with_ph_def)

section \<open>Memory changes that no process notices\<close>

lemma proc_mem_same:
  assumes pm: "proc_mem Y s" and vm: "vm_inv h (roots s) (owners Y s)" and su: "same_user (ph s) (roots s) X h"
  shows "proc_mem Y (s\<lparr>ph := h\<rparr>)"
proof -
  note d = proc_memD [OF pm]
  have "roots (s\<lparr>ph := h\<rparr>) = roots s" "tf_refs (s\<lparr>ph := h\<rparr>) = tf_refs s" by (rule roots_cong, simp) (rule tf_refs_cong, simp)
  moreover have "owners Y s = (\<lambda>x. tf_refs s x + Y x)" by (simp add: owners_def fun_eq_iff)
  moreover have "slot_ok h (procs s i)" if "i < NPROC" for i
    by (rule slot_ok_same [OF d(4) [OF that] su]) (use d(4) [OF that] that in \<open>auto simp: slot_ok_def roots_def\<close>)
  moreover have "tf_refs s y + Y y = 0" if "r \<in> roots s" "upages (pmem h) r va = Some y" for r va y
    using d(9) [OF that(1)] that same_userD(2) [OF su that(1)] by (simp add: owners_def)
  ultimately show ?thesis using pm vm unfolding proc_mem_def by simp
qed

definition live :: "'a kstate_scheme \<Rightarrow> nat \<Rightarrow> bool" where
  "live s q \<longleftrightarrow> q < NPROC \<and> state (procs s q) \<noteq> UNUSED"

lemma liveD:
  assumes "proc_mem Y s" and "live s q"
  shows "q < NPROC" "pagetable (procs s q) \<in> roots s" "pgaligned (trapframe (procs s q))" "ram (ph s) (trapframe (procs s q))"
    "1 \<le> owners Y s (trapframe (procs s q))" "sz (procs s q) \<le> TRAPFRAME" "trapframe (procs s q) \<noteq> 0"
    "\<And>va. umap (pmem (ph s)) (pagetable (procs s q)) va \<noteq> None \<Longrightarrow> va < sz (procs s q)"
proof -
  have q: "q < NPROC" "slot_ok (ph s) (procs s q)" "state (procs s q) \<noteq> UNUSED" using assms proc_memD(4) by (auto simp: live_def)
  then show "q < NPROC" "pagetable (procs s q) \<in> roots s" "ram (ph s) (trapframe (procs s q))" "sz (procs s q) \<le> TRAPFRAME"
    "\<And>va. umap (pmem (ph s)) (pagetable (procs s q)) va \<noteq> None \<Longrightarrow> va < sz (procs s q)"
    and tf: "trapframe (procs s q) \<noteq> 0" by (auto simp: slot_ok_def roots_def)
  then show "pgaligned (trapframe (procs s q))" using ram_pgaligned by blast
  show "1 \<le> owners Y s (trapframe (procs s q))"
    using tf_refs_pos [OF q(1) tf] proc_memD(2) [OF assms(1), of "trapframe (procs s q)"] by (simp add: owners_def)
qed

text \<open>What a live process sees of its own: its memory and its saved registers.\<close>

definition untouched :: "'a kstate_scheme \<Rightarrow> 'a kstate_scheme \<Rightarrow> nat \<Rightarrow> bool" where
  "untouched s s' q \<longleftrightarrow> procs s' q = procs s q \<and>
     uview (pmem (ph s')) (pagetable (procs s q)) = uview (pmem (ph s)) (pagetable (procs s q)) \<and>
     (\<forall>i<36. load_tf s' q (8 * of_nat i) = load_tf s q (8 * of_nat i))"

lemma agree_tf:
  assumes "agree P m m'" and "tf \<in> P" and "pgaligned tf" and "i < 36"
  shows "load64 m' (tf + 8 * of_nat i) = load64 m (tf + 8 * of_nat i)"
proof -
  have "(of_nat i :: uint64) < 512" using assms(4) by (simp add: word_less_nat_alt unat_of_nat)
  then show ?thesis using agree_load64 [OF assms(1,3,2)] by simp
qed

lemma untouchedI:
  assumes pm: "proc_mem Y s" and q: "live s q" and e: "procs s' q = procs s q"
    and su: "same_user (ph s) (roots s) X (ph s')" and X: "1 \<le> X (trapframe (procs s q))"
  shows "untouched s s' q"
  using same_userD(3) [OF su] agree_tf [OF same_userD(5) [OF su]] liveD [OF pm q] e X by (simp add: untouched_def load_tf_def)

section \<open>The whole of kfork\<close>

text \<open>The process table and memory after a fork that succeeded: \<open>np\<close> is the child.\<close>

definition forked :: "nat \<Rightarrow> nat \<Rightarrow> 'a kstate_scheme \<Rightarrow> 'a kstate_scheme \<Rightarrow> bool" where
  "forked p np s s' \<longleftrightarrow> np < NPROC \<and> state (procs s np) = UNUSED \<and> pid (procs s' np) = nextpid s \<and> state (procs s' np) = RUNNABLE \<and>
     parent (procs s' np) = Some p \<and> priority (procs s' np) = priority (procs s p) \<and> sz (procs s' np) = sz (procs s p) \<and>
     cwd (procs s' np) = cwd (procs s p) \<and>
     (\<forall>fd<NOFILE. ofile (procs s p) fd \<noteq> None \<longrightarrow> ofile (procs s' np) fd = ofile (procs s p) fd) \<and>
     uview (pmem (ph s')) (pagetable (procs s' np)) = uview (pmem (ph s)) (pagetable (procs s p)) \<and>
     (\<forall>i<36. load_tf s' np (8 * of_nat i) = (if i = 14 then 0 else load_tf s p (8 * of_nat i)))"

lemma new_slot_mem:
  assumes pm: "proc_mem Y s" and np: "np < NPROC" "state (procs s np) = UNUSED" and pr: "procs s1 = (procs s)(np := x)"
    and x: "pagetable x \<noteq> 0" "trapframe x \<noteq> 0"
  shows "roots s1 = insert (pagetable x) (roots s)" "owners Y s1 y = owners Y s y + of_bool (trapframe x = y)"
proof -
  have e: "pagetable (procs s np) = 0" "trapframe (procs s np) = 0" using proc_memD(4) [OF pm np(1)] np(2) by (simp_all add: slot_ok_def)
  show "roots s1 = insert (pagetable x) (roots s)" using roots_upd [OF pm np(1) pr] e proc_memD(8) [OF pm] x(1) by auto
  show "owners Y s1 y = owners Y s y + of_bool (trapframe x = y)" using owners_upd [OF np(1) pr, of Y y] e x(2) by auto
qed

lemma kfork_copied:
  assumes pm: "proc_mem Y s" and p: "live s p" and f: "files_ok p s" and ip: "cwd (procs s p) = Some ip"
    and al: "allocproc s = Ok (Some np, s1)"
    and s1: "s1 = s\<lparr>procs := (procs s)(np := new_slot (nextpid s) tf pt (forkret_pc s) (procs s np)), nextpid := nextpid s + 1, ph := h1\<rparr>"
    and np: "np < NPROC" "state (procs s np) = UNUSED" and pt: "pt \<notin> roots s" "pt \<noteq> 0" and tf: "tf \<noteq> 0" "owners Y s tf = 0" "ram (ph s) tf"
    and pm1: "proc_mem Y s1" and su1: "same_user (ph s) (roots s) (owners Y s) h1"
    and cp: "uvmcopy h1 (pagetable (procs s p)) pt (sz (procs s p)) = Ok (0, h2)" "vm_inv h2 (roots s1) (owners Y s1)"
      "same_user h1 (roots s1 - {pt}) (owners Y s1) h2" "uview (pmem h2) pt = uview (pmem h1) (pagetable (procs s p))"
      "upages (pmem h2) pt = upages (pmem h1) (pagetable (procs s p))" "kpte (pmem h2) pt = kpte (pmem h1) pt"
  obtains s' where "kfork p s = Ok (nextpid s, s')" "proc_mem Y s'" "forked p np s s'" "\<And>q. live s q \<Longrightarrow> untouched s s' q"
proof -
  note d = proc_memD [OF pm] and d1 = proc_memD [OF pm1] and l = liveD [OF pm p]
  let ?pt = "pagetable (procs s p)" and ?tf = "trapframe (procs s p)"
  have pnp: "p \<noteq> np" using p np by (auto simp: live_def)
  have x1: "pagetable (procs s1 np) = pt" "trapframe (procs s1 np) = tf" "procs s1 p = procs s p" "ph s1 = h1" "pid (procs s1 np) = nextpid s"
    using pnp by (simp_all add: s1 new_slot_def used_slot_def)
  have pr1: "procs s1 = (procs s)(np := new_slot (nextpid s) tf pt (forkret_pc s) (procs s np))" by (simp add: s1)
  have R1: "roots s1 = insert pt (roots s)" and O1: "owners Y s1 y = owners Y s y + of_bool (tf = y)" for y
    using new_slot_mem [OF pm np pr1] pt(2) tf(1) by (simp_all add: new_slot_def)
  have R1': "roots s1 - {pt} = roots s" using R1 pt(1) by auto
  have f1: "files_ok p s1" using f pnp by (simp add: files_ok_def s1)
  have cp1: "uvmcopy (ph s1) (pagetable (procs s p)) (pagetable (procs s1 np)) (sz (procs s p)) = Ok (0, h2)" using cp(1) x1 by simp
  obtain s' where k: "kfork p s = Ok (nextpid s, s')"
    "procs s' = (procs s1)(np := (procs s1 np)\<lparr>sz := sz (procs s p),
       ofile := merge_fds [0..<NOFILE] (ofile (procs s p)) (ofile (procs s1 np)), cwd := Some ip,
       pname := safestrcpy_bytes (pname (procs s1 np)) (pname (procs s p)) 16, parent := Some p,
       priority := priority (procs s p), ready_since := 0, state := RUNNABLE\<rparr>)"
    "ph s' = h2\<lparr>pmem := fork_frame (pmem h2) ?tf tf\<rparr>" "trampoline s' = trampoline s1"
    using kfork_run [OF al pnp x1(3) cp1 f1 ip] unfolding x1(2,5) .
  have rm: "ram h2 tf" "pgaligned tf" using tf(3) same_userD(6) [OF su1] same_userD(6) [OF cp(3)] ram_pgaligned by auto
  have iso: "owners Y s1 y = 0" if "r \<in> roots s1" "upages (pmem h2) r va = Some y" for r va y
  proof (cases "r = pt")
    case True
    then show ?thesis using that cp(5) d1(9) [of ?pt va y] l(2) R1 x1(4) by simp
  next
    case False
    then show ?thesis using that same_userD(2) [OF cp(3), of r] d1(9) [OF that(1), of va y] x1(4) by simp
  qed
  have O1tf: "1 \<le> owners Y s1 tf" using O1 [of tf] tf(2) by simp
  have w: "vm_inv (ph s') (roots s1) (owners Y s1)" "same_user h2 (roots s1) ((owners Y s1)(tf := 0)) (ph s')"
    unfolding k(3) by (rule write_owned [OF cp(2) rm(1) O1tf fork_frame_agree [OF rm(2)]], rule iso, assumption+)+
  have rt: "roots s' = roots s1" and ow: "owners Y s' = owners Y s1"
    using roots_cong [of s' s1] tf_refs_cong [of s' s1] by (simp_all add: k(2) owners_def fun_eq_iff)
  have su: "same_user h1 (roots s) (owners Y s) (ph s')"
  proof (rule same_user_trans)
    show "same_user h1 (roots s) (owners Y s) h2" by (rule same_user_mono [OF cp(3)]) (use R1' O1 in auto)
    show "same_user h2 (roots s) (owners Y s) (ph s')" by (rule same_user_mono [OF w(2)]) (use R1 O1 tf(2) in auto)
  qed
  have sup: "upages (pmem (ph s')) pt = upages (pmem h1) ?pt" "kpte (pmem (ph s')) pt = kpte (pmem h1) pt" "uview (pmem (ph s')) pt = uview (pmem h1) ?pt"
    using same_userD(2-4) [OF w(2), of pt] R1 cp(4-6) by simp_all
  have um: "umap (pmem (ph s')) pt va = None \<longleftrightarrow> umap (pmem (ph s)) ?pt va = None" for va
    using fun_cong [OF sup(1), of va] same_user_None [OF su1 l(2), of va] by (auto simp: upages_def)
  have "top_ok (pmem h1) pt" using d1(4) [OF np(1)] x1 by (simp add: slot_ok_def s1 new_slot_def used_slot_def)
  then have ok: "slot_ok (ph s') (procs s' np)"
    using l(6,8) um rm same_userD(6) [OF w(2)] pt(2) tf(1) sup(2) by (simp add: k(2) slot_ok_def x1 top_ok_def)
  have pm': "proc_mem Y s'"
  proof (rule proc_mem_upd [OF pm1 np(1) _ k(4), where X = "owners Y s"])
    show "procs s' = (procs s1)(np := procs s' np)" by (simp add: k(2))
    show "same_user (ph s1) (roots s1 - {pagetable (procs s1 np)}) (owners Y s) (ph s')" using su R1' x1 by simp
    show "owners Y s' y = 0" if "r \<in> roots s'" "upages (pmem (ph s')) r va = Some y" for r va y
      using iso [of r va y] that same_userD(2) [OF w(2), of r] by (simp add: rt ow)
  qed (use w(1) rt ow ok x1(1) in \<open>simp_all add: k(2)\<close>)
  have tfl: "load_tf s' np (8 * of_nat i) = (if i = 14 then 0 else load_tf s p (8 * of_nat i))" if "i < 36" for i
  proof -
    have "agree {x. ram (ph s) x \<and> 1 \<le> owners Y s x} (pmem (ph s)) (pmem h2)"
      by (rule same_userD(5) [OF same_user_trans [OF su1 same_user_mono [OF cp(3)]]]) (use R1' O1 in auto)
    from agree_tf [OF this _ l(3) that] have "load64 (pmem h2) (?tf + 8 * of_nat i) = load64 (pmem (ph s)) (?tf + 8 * of_nat i)" using l(4,5) by simp
    then show ?thesis using fork_frame_load [OF rm(2) l(3) that, of "pmem h2"] k(3) x1(2) pnp by (simp add: load_tf_def k(2))
  qed
  have "forked p np s s'"
    using np k(2) x1 ip tfl sup(3) same_userD(3) [OF su1 l(2)] by (simp add: forked_def merge_fds_def)
  moreover have "untouched s s' q" if "live s q" for q
  proof (rule untouchedI [OF pm that _ same_user_trans [OF su1 su]])
    show "procs s' q = procs s q" using that np by (auto simp: k(2) s1 live_def)
  qed (rule liveD(5) [OF pm that])
  ultimately show thesis using that k(1) pm' by blast
qed

section \<open>Properties\<close>

text \<open>
  C2. \<^verbatim>\<open>kfork()\<close> always returns. Every page keeps exactly the references its owners account for, and no process that was there
  before notices anything: its table entry, its memory and its saved registers are the same. On success the child is a new \<open>RUNNABLE\<close> process with
  a fresh pid, the parent's priority, files, directory and size; it sees exactly the parent's memory and resumes with the
  parent's registers, except that \<^verbatim>\<open>fork()\<close> returns 0 in it. It fails only if no slot is free or fewer pages are free than
  two per page of the parent and six more, and then no slot is taken.
\<close>

theorem kfork_cow:
  assumes "proc_mem Y s" and "live s p" and "files_ok p s" and "cwd (procs s p) = Some ip" and "0 < nextpid s"
  shows "\<exists>r s'. kfork p s = Ok (r, s') \<and> proc_mem Y s' \<and> (\<forall>q. live s q \<longrightarrow> untouched s s' q) \<and>
    (if r = -1
     then ((\<forall>q<NPROC. live s q) \<or> nfree (ph s) < 2 * (unat (sz (procs s p)) div 4096 + 1) + 6) \<and> (\<forall>q. live s' q \<longrightarrow> live s q)
     else r = nextpid s \<and> (\<exists>np. forked p np s s'))"
proof (rule allocproc_mem [OF assms(1)])
  assume a: "allocproc s = Ok (None, s)" "\<forall>i<NPROC. state (procs s i) \<noteq> UNUSED"
  have "kfork p s = Ok (-1, s)" by (simp add: kfork_def a(1))
  then show ?thesis using a(2) assms(1) by (intro exI [of _ "-1"] exI [of _ s]) (simp add: live_def untouched_def)
next
  fix np x h
  let ?s = "s\<lparr>procs := (procs s)(np := x), nextpid := nextpid s + 1, ph := h\<rparr>"
  assume a: "allocproc s = Ok (None, ?s)" "np < NPROC" "state (procs s np) = UNUSED" "state x = UNUSED" "proc_mem Y ?s"
    "same_user (ph s) (roots s) (owners Y s) h" "nfree (ph s) \<le> 5"
  have "kfork p s = Ok (-1, ?s)" by (simp add: kfork_def a(1))
  moreover have "untouched s ?s q" if "live s q" for q
    by (rule untouchedI [OF assms(1) that, where X = "owners Y s"]) (use that a(3,6) liveD(5) [OF assms(1) that] in \<open>auto simp: live_def\<close>)
  moreover have "live s q" if "live ?s q" for q using that a(4) by (auto simp: live_def split: if_splits)
  ultimately show ?thesis using a(5,7) by (intro exI [of _ "-1"] exI [of _ ?s]) simp
next
  fix np tf pt h1
  let ?s = "s\<lparr>procs := (procs s)(np := new_slot (nextpid s) tf pt (forkret_pc s) (procs s np)), nextpid := nextpid s + 1, ph := h1\<rparr>"
  assume a: "allocproc s = Ok (Some np, ?s)" "np < NPROC" "state (procs s np) = UNUSED" "pt \<notin> roots s" "tf \<noteq> 0" "pt \<noteq> 0" "owners Y s tf = 0"
    "ram (ph s) tf" "proc_mem Y ?s" "same_user (ph s) (roots s) (owners Y s) h1" "\<And>va. umap (pmem h1) pt va = None" "nfree (ph s) \<le> nfree h1 + 6"
  note l = liveD [OF assms(1,2)] and d1 = proc_memD [OF a(9)]
  have pnp: "p \<noteq> np" using assms(2) a(3) by (auto simp: live_def)
  have R: "pagetable (procs s p) \<in> roots ?s" "pt \<in> roots ?s" "pagetable (procs s p) \<noteq> pt"
    using l(1,2) a(2,4,6) pnp by (auto simp: roots_def new_slot_def)
  have inv: "vm_inv h1 (roots ?s) (owners Y ?s)" using d1(1) by simp
  have um: "va < sz (procs s p)" if "umap (pmem h1) (pagetable (procs s p)) va \<noteq> None" for va
    using l(8) [of va] that same_user_None [OF a(10) l(2), of va] by simp
  show ?thesis
  proof (rule uvmcopy_proc [OF inv d1(3) R l(6) a(11) um])
    fix h2
    assume c: "uvmcopy h1 (pagetable (procs s p)) pt (sz (procs s p)) = Ok (0, h2)" "vm_inv h2 (roots ?s) (owners Y ?s)"
      "same_user h1 (roots ?s - {pt}) (owners Y ?s) h2" "uview (pmem h2) pt = uview (pmem h1) (pagetable (procs s p))"
      "upages (pmem h2) pt = upages (pmem h1) (pagetable (procs s p))" "kpte (pmem h2) pt = kpte (pmem h1) pt"
    obtain s' where "kfork p s = Ok (nextpid s, s')" "proc_mem Y s'" "forked p np s s'" "\<And>q. live s q \<Longrightarrow> untouched s s' q"
      by (rule kfork_copied [OF assms(1-4) a(1) refl a(2-4,6,5,7-10) c]) (rule that)
    then show ?thesis using assms(5) by (intro exI [of _ "nextpid s"] exI [of _ s']) auto
  next
    fix h2
    assume c: "uvmcopy h1 (pagetable (procs s p)) pt (sz (procs s p)) = Ok (-1, h2)" "vm_inv h2 (roots ?s) (owners Y ?s)"
      "same_user h1 (roots ?s) (owners Y ?s) h2" "nfree h1 < 2 * (unat (sz (procs s p)) div 4096 + 1)"
    have k: "kfork p s = bindR (freeproc np (?s\<lparr>ph := h2\<rparr>)) (\<lambda>s. Ok (-1, s))"
      by (rule kfork_copy_failed [OF a(1)]) (use pnp c(1) in \<open>simp_all add: new_slot_def\<close>)
    have pm2: "proc_mem Y (?s\<lparr>ph := h2\<rparr>)" by (rule proc_mem_same [OF a(9) c(2)]) (use c(3) in simp)
    obtain h where f: "freeproc np (?s\<lparr>ph := h2\<rparr>) = Ok ((upd_proc np free_slot (?s\<lparr>ph := h2\<rparr>))\<lparr>ph := h\<rparr>)"
      "proc_mem Y ((upd_proc np free_slot (?s\<lparr>ph := h2\<rparr>))\<lparr>ph := h\<rparr>)"
      "same_user (ph (?s\<lparr>ph := h2\<rparr>)) (roots (?s\<lparr>ph := h2\<rparr>) - {pagetable (procs (?s\<lparr>ph := h2\<rparr>) np)})
         (owners Y ((upd_proc np free_slot (?s\<lparr>ph := h2\<rparr>))\<lparr>ph := h\<rparr>)) h"
      by (rule freeproc_mem [OF pm2 a(2)]) (rule that)
    let ?s' = "(upd_proc np free_slot (?s\<lparr>ph := h2\<rparr>))\<lparr>ph := h\<rparr>"
    have R1: "roots ?s = insert pt (roots s)" and O1: "owners Y ?s y = owners Y s y + of_bool (tf = y)" for y
      using new_slot_mem [OF assms(1) a(2,3), of ?s "new_slot (nextpid s) tf pt (forkret_pc s) (procs s np)"] a(5,6) by (simp_all add: new_slot_def)
    have R2: "roots (?s\<lparr>ph := h2\<rparr>) = insert pt (roots s)" unfolding R1 [symmetric] by (rule roots_cong) simp
    have e: "trapframe (procs s np) = 0" using proc_memD(4) [OF assms(1) a(2)] a(3) by (simp add: slot_ok_def)
    have O2: "owners Y ?s' = owners Y s"
      by (rule ext, subst owners_upd [OF a(2), where s = s and x = "procs ?s' np"]) (simp_all add: e upd_proc_def free_slot_def)
    have su: "same_user (ph s) (roots s) (owners Y s) h"
    proof (rule same_user_trans [OF same_user_trans [OF a(10)]])
      show "same_user h1 (roots s) (owners Y s) h2" by (rule same_user_mono [OF c(3)]) (use R1 O1 in auto)
      show "same_user h2 (roots s) (owners Y s) h"
        using f(3) a(4) unfolding O2 R2 by (simp add: new_slot_def)
    qed
    have "untouched s ?s' q" if "live s q" for q
      by (rule untouchedI [OF assms(1) that, where X = "owners Y s"])
        (use that a(3) su liveD(5) [OF assms(1) that] in \<open>auto simp: live_def upd_proc_def\<close>)
    moreover have "live s q" if "live ?s' q" for q using that by (auto simp: live_def free_slot_def upd_proc_def split: if_splits)
    moreover have "kfork p s = Ok (-1, ?s')" using k f(1) by simp
    moreover have "nfree (ph s) < 2 * (unat (sz (procs s p)) div 4096 + 1) + 6" using a(12) c(4) by simp
    ultimately show ?thesis using f(2) by (intro exI [of _ "-1"] exI [of _ ?s']) auto
  qed
qed

text \<open>A machine with one process and plenty of memory.\<close>

definition fresh_kernel :: "phys \<Rightarrow> kernel" where
  "fresh_kernel h = (quiet_kernel h 0)\<lparr>procs := (\<lambda>_. zero_proc)\<rparr>"

lemma fresh_simps [simp]:
  "ph (fresh_kernel h) = h" "procs (fresh_kernel h) = (\<lambda>_. zero_proc)" "trampoline (fresh_kernel h) = 0" "nextpid (fresh_kernel h) = 1"
  by (simp_all add: fresh_kernel_def quiet_kernel_def)

lemma fresh_mem: "vm_inv h {} (\<lambda>_. 0) \<Longrightarrow> proc_mem (\<lambda>_. 0) (fresh_kernel h)"
proof -
  assume v: "vm_inv h {} (\<lambda>_. 0)"
  have "roots (fresh_kernel h) = {}" "tf_refs (fresh_kernel h) x = 0" for x by (auto simp: roots_def tf_refs_def zero_proc_def)
  then show ?thesis using v by (simp add: proc_mem_def slot_ok_def zero_proc_def pgaligned_def)
qed

lemma proc_mem_fields:
  assumes pm: "proc_mem Y s" and s': "ph s' = ph s" "trampoline s' = trampoline s"
    and f: "\<And>i. pagetable (procs s' i) = pagetable (procs s i)" "\<And>i. trapframe (procs s' i) = trapframe (procs s i)"
      "\<And>i. sz (procs s' i) = sz (procs s i)" "\<And>i. state (procs s' i) = UNUSED \<longleftrightarrow> state (procs s i) = UNUSED"
  shows "proc_mem Y s'"
proof -
  have rc: "roots s' = roots s" "tf_refs s' = tf_refs s" by (rule roots_cong, rule f(1)) (rule tf_refs_cong, rule f(2))
  show ?thesis using pm unfolding proc_mem_def slot_ok_def s' f rc .
qed

lemma one_process:
  obtains s :: kernel where "proc_mem (\<lambda>_. 0) s" "live s 0" "files_ok 0 s" "cwd (procs s 0) = Some 0" "nextpid s = 2" "sz (procs s 0) = 0"
    "\<not> live s 1" "14 \<le> nfree (ph s)"
proof -
  obtain h where h: "vm_inv h {} (\<lambda>_. 0)" "20 \<le> nfree h" using boot_vm by blast
  note pm = fresh_mem [OF h(1)]
  show thesis
  proof (rule allocproc_mem [OF pm])
    fix p tf pt h1
    let ?s1 = "(fresh_kernel h)\<lparr>procs := (procs (fresh_kernel h))(p := new_slot (nextpid (fresh_kernel h)) tf pt (forkret_pc (fresh_kernel h)) (procs (fresh_kernel h) p)),
      nextpid := nextpid (fresh_kernel h) + 1, ph := h1\<rparr>"
    assume a: "\<forall>j<p. state (procs (fresh_kernel h) j) \<noteq> UNUSED" "proc_mem (\<lambda>_. 0) ?s1" "nfree (ph (fresh_kernel h)) \<le> nfree h1 + 6"
    have p: "p = 0" using a(1) by (cases p) (auto simp: zero_proc_def)
    let ?s = "upd_proc 0 (\<lambda>x. x\<lparr>cwd := Some 0\<rparr>) ?s1"
    show thesis
    proof (rule that [of ?s])
      show "proc_mem (\<lambda>_. 0) ?s" by (rule proc_mem_fields [OF a(2)]) auto
    qed (use p a(3) h(2) in \<open>simp_all add: live_def files_ok_def new_slot_def used_slot_def zero_proc_def\<close>)
  qed (use h(2) in \<open>auto simp: zero_proc_def dest: spec [of _ "0 :: nat"]\<close>)
qed

theorem kfork_cow_witness:
  "\<exists>(s :: kernel) s' np. kfork 0 s = Ok (2, s') \<and> forked 0 np s s' \<and> untouched s s' 0"
proof (rule one_process)
  fix s :: kernel
  assume a: "proc_mem (\<lambda>_. 0) s" "live s 0" "files_ok 0 s" "cwd (procs s 0) = Some 0" "nextpid s = 2" "sz (procs s 0) = 0" "\<not> live s 1" "14 \<le> nfree (ph s)"
  have "0 < nextpid s" using a(5) by simp
  from kfork_cow [OF a(1-4) this] obtain r s' where k: "kfork 0 s = Ok (r, s')" "\<forall>q. live s q \<longrightarrow> untouched s s' q"
    "if r = -1 then ((\<forall>q<NPROC. live s q) \<or> nfree (ph s) < 2 * (unat (sz (procs s 0)) div 4096 + 1) + 6) \<and> (\<forall>q. live s' q \<longrightarrow> live s q)
     else r = nextpid s \<and> (\<exists>np. forked 0 np s s')" by blast
  have "r \<noteq> -1" using k(3) a(6-8) by (auto dest: spec [of _ 1])
  then show ?thesis using k a(2,5) by auto
qed

theorem kill_zero_marks_next_process_witness:
  "\<exists>(s :: kernel) s1 p s2. kkill 0 s = (0, s1) \<and> allocproc s1 = Ok (Some p, s2) \<and> pkilled (procs s2 p) = 1"
proof -
  obtain h where h: "vm_inv h {} (\<lambda>_. 0)" "20 \<le> nfree h" using boot_vm by blast
  let ?s = "fresh_kernel h"
  obtain r s1 where k: "kkill 0 ?s = (r, s1)" by force
  have "find (\<lambda>i. pid (procs ?s i) = 0) [0..<NPROC] = Some 0" by (simp add: find_upt_Some zero_proc_def)
  then have s1: "r = 0" "s1 = upd_proc 0 (\<lambda>x. x\<lparr>pkilled := 1\<rparr>) ?s" using k by (simp_all add: kkill_def zero_proc_def Let_def upd_proc_def)
  have pm: "proc_mem (\<lambda>_. 0) s1" unfolding s1(2) by (rule proc_mem_fields [OF fresh_mem [OF h(1)]]) auto
  show ?thesis
  proof (rule allocproc_mem [OF pm])
    fix p s2
    assume "allocproc s1 = Ok (Some p, s2)"
    note t = this
    have "pids_ok ?s" by (simp add: pids_ok_def zero_proc_def)
    from kill_zero_marks_next_process [OF this k t] show ?thesis using k t s1(1) by blast
  qed (use h(2) in \<open>auto simp: s1 zero_proc_def dest: spec [of _ "0 :: nat"]\<close>)
qed

end
