(* ===== verification/Fs_Inode.thy ===== *)
theory Fs_Inode
  imports Fs_Block
begin

text \<open>
  Inodes on disk: what \<^verbatim>\<open>iupdate()\<close> writes is what \<^verbatim>\<open>ilock()\<close> reads, and no other inode changes.
\<close>

section \<open>The layout of an inode\<close>

lemma get_put_addrs:
  "get32 (fold (\<lambda>i d. put32 d (off + 4 * i) (as ! i)) [0..<n] d) j =
     (if \<exists>k<n. j = off + 4 * k then as ! ((j - off) div 4) else get32 d j)"
  if "off + 4 * n \<le> length d" "\<forall>k<n. j = off + 4 * k \<or> j + 4 \<le> off + 4 * k \<or> off + 4 * k + 4 \<le> j"
  using that
proof (induction n)
  case (Suc n)
  have l: "length (fold (\<lambda>i d. put32 d (off + 4 * i) (as ! i)) [0..<n] d) = length d" by (induction n) simp_all
  show ?case
  proof (cases "j = off + 4 * n")
    case True
    then show ?thesis using Suc.prems l by (auto simp: get_put32)
  next
    case False
    then have "j + 4 \<le> off + 4 * n \<or> off + 4 * n + 4 \<le> j" using Suc.prems(2) by auto
    then show ?thesis using Suc False by (auto simp: get_put_other less_Suc_eq)
  qed
qed simp

lemma get16_put_addrs:
  assumes "j + 2 \<le> off \<or> off + 4 * n \<le> j"
  shows "get16 (fold (\<lambda>i d. put32 d (off + 4 * i) (as ! i)) [0..<n] d) j = get16 d j"
  using assms by (induction n) (auto simp: get_put_other)

lemma length_put_addrs [simp]: "length (put_addrs d off as) = length d"
proof -
  have "length (fold (\<lambda>i d. put32 d (off + 4 * i) (as ! i)) [0..<n] d) = length d" for n by (induction n) simp_all
  then show ?thesis by (simp add: put_addrs_def)
qed

lemma length_put_dinode [simp]: "length (put_dinode d off x) = length d"
  by (simp add: put_dinode_def)

lemma get_put_dinode:
  assumes "off + 64 \<le> length d" and "length (d_addrs x) = NDIRECT + 1"
  shows "get_dinode (put_dinode d off x) off = x"
proof -
  let ?e = "put32 (put16 (put16 (put16 (put16 d off (d_type x)) (off + 2) (d_major x)) (off + 4) (d_minor x)) (off + 6) (d_nlink x)) (off + 8) (d_size x)"
  have a: "get32 (put_dinode d off x) (off + 12 + 4 * i) = d_addrs x ! i" if "i < 13" for i
    using that assms(1) unfolding put_dinode_def put_addrs_def by (subst get_put_addrs) auto
  have s: "get32 (put_dinode d off x) (off + 8) = d_size x"
    using assms(1) unfolding put_dinode_def put_addrs_def by (subst get_put_addrs) (auto simp: get_put32)
  have f: "get16 (put_dinode d off x) j = get16 ?e j" if "j + 2 \<le> off + 8" for j
    using that unfolding put_dinode_def put_addrs_def by (subst get16_put_addrs) auto
  have "map (\<lambda>i. get32 (put_dinode d off x) (off + 12 + 4 * i)) [0..<NDIRECT + 1] = d_addrs x"
    using a assms(2) by (intro nth_equalityI) (simp_all del: upt_Suc)
  moreover have "get16 (put_dinode d off x) off = d_type x" "get16 (put_dinode d off x) (off + 2) = d_major x"
    "get16 (put_dinode d off x) (off + 4) = d_minor x" "get16 (put_dinode d off x) (off + 6) = d_nlink x"
    using assms(1) by (simp_all add: f get_put_other get_put16)
  ultimately show ?thesis using s by (simp add: get_dinode_def)
qed

lemma get_put_dinode_other:
  assumes "off + 64 \<le> length d" and "off' + 64 \<le> off \<or> off + 64 \<le> off'"
  shows "get_dinode (put_dinode d off x) off' = get_dinode d off'"
proof -
  let ?e = "put32 (put16 (put16 (put16 (put16 d off (d_type x)) (off + 2) (d_major x)) (off + 4) (d_minor x)) (off + 6) (d_nlink x)) (off + 8) (d_size x)"
  have g: "get32 (put_dinode d off x) j = get32 d j" if "off' \<le> j" "j + 4 \<le> off' + 64" for j
  proof -
    have "get32 (put_dinode d off x) j = get32 ?e j"
      using that assms unfolding put_dinode_def put_addrs_def by (subst get_put_addrs) auto
    also have "\<dots> = get32 d j" using that assms(2) by (auto simp: get_put_other)
    finally show ?thesis .
  qed
  have h: "get16 (put_dinode d off x) j = get16 d j" if "off' \<le> j" "j + 2 \<le> off' + 64" for j
  proof -
    have "get16 (put_dinode d off x) j = get16 ?e j"
      using that assms unfolding put_dinode_def put_addrs_def by (subst get16_put_addrs) auto
    also have "\<dots> = get16 d j" using that assms(2) by (auto simp: get_put_other)
    finally show ?thesis .
  qed
  show ?thesis unfolding get_dinode_def by (auto simp: g h)
qed

section \<open>Writing and reading an inode\<close>

definition disk_inode :: "'a fstate_scheme \<Rightarrow> uint \<Rightarrow> dinode" where
  "disk_inode s ino = get_dinode (lblk s (IBLOCK ino (sb s))) (inode_off ino)"

lemma inode_off_bound: "inode_off ino + 64 \<le> BSIZE"
proof -
  have "unat ino mod 16 \<le> 15" by simp
  then show ?thesis unfolding inode_off_def by simp
qed

lemma same_block_other_inode:
  assumes "IBLOCK i b = IBLOCK j b" and "i \<noteq> j"
  shows "inode_off i + 64 \<le> inode_off j \<or> inode_off j + 64 \<le> inode_off i"
proof -
  have "i div 16 = j div 16" using assms(1) by (simp add: IBLOCK_def)
  then have "unat (i div 16) = unat (j div 16)" by simp
  then have "unat i div 16 = unat j div 16" by (simp add: unat_div)
  moreover have "unat i \<noteq> unat j" using assms(2) by (simp add: word_unat_eq_iff)
  ultimately have "unat i mod 16 \<noteq> unat j mod 16" by (metis mult_div_mod_eq)
  moreover have "a * 64 + 64 \<le> b * 64 \<or> b * 64 + 64 \<le> a * 64" if "a \<noteq> b" for a b :: nat using that by arith
  ultimately show ?thesis unfolding inode_off_def by simp
qed

text \<open>\<^verbatim>\<open>iupdate()\<close>: the inode's slot gets the copy in memory, and no other inode and no other block changes.\<close>

lemma iupdate_spec:
  assumes t: "txn p (Suc k) s" and x: "idev (itable s ip) = ROOTDEV" "length (iaddrs (itable s ip)) = NDIRECT + 1"
    and b: "IBLOCK (inum (itable s ip)) (sb s) \<notin> log_area (lstart (lg s))" "length (lblk s (IBLOCK (inum (itable s ip)) (sb s))) = BSIZE"
  obtains s' where "iupdate p ip s = Ok s'" "txn p k s'" "fs_only s s'" "log_bound 1 s s'"
    "disk_inode s' (inum (itable s ip)) = dinode_of (itable s ip)"
    "\<forall>ino. ino \<noteq> inum (itable s ip) \<longrightarrow> disk_inode s' ino = disk_inode s ino"
    "\<forall>b. b \<noteq> IBLOCK (inum (itable s ip)) (sb s) \<longrightarrow> lblk s' b = lblk s b" "\<forall>b. length (lblk s' b) = length (lblk s b)"
proof -
  define n where "n = inum (itable s ip)"
  define B where "B = IBLOCK n (sb s)"
  define e where "e = put_dinode (lblk s B) (inode_off n) (dinode_of (itable s ip))"
  obtain i s1 where m: "bread p ROOTDEV B s = Ok (i, s1)" "bdata (bufs s1 i) = lblk s B" "fs_only s s1"
    "\<forall>d. \<exists>s2. log_brelse p i (set_bdata i d s1) = Ok s2 \<and> txn p k s2 \<and> lblk s2 = (lblk s)(B := d) \<and> fs_only s s2 \<and> log_bound 1 s s2"
    by (rule block_modify [OF t]) (use b B_def n_def in auto)
  obtain s2 where r: "log_brelse p i (set_bdata i e s1) = Ok s2" "txn p k s2" "lblk s2 = (lblk s)(B := e)" "fs_only s s2" "log_bound 1 s s2"
    using m(4) by blast
  have len: "length (lblk s B) = BSIZE" and off: "inode_off n + 64 \<le> length (lblk s B)"
    using b inode_off_bound [of n] by (simp_all add: B_def n_def)
  have sb: "sb s2 = sb s" using fs_only_inodes [OF r(4)] by simp
  have own: "disk_inode s2 n = dinode_of (itable s ip)"
    using x(2) off unfolding disk_inode_def sb r(3) B_def [symmetric] e_def by (simp add: get_put_dinode dinode_of_def)
  have other: "disk_inode s2 ino = disk_inode s ino" if "ino \<noteq> n" for ino
  proof (cases "IBLOCK ino (sb s) = B")
    case True
    then have "inode_off ino + 64 \<le> inode_off n \<or> inode_off n + 64 \<le> inode_off ino"
      using same_block_other_inode that unfolding B_def by blast
    then show ?thesis using True off unfolding disk_inode_def sb r(3) e_def by (simp add: get_put_dinode_other)
  qed (simp add: disk_inode_def sb r(3))
  show thesis
    by (rule that [of s2]) (use m(1,2) r own other x(1) in \<open>auto simp: iupdate_def Let_def n_def [symmetric] B_def [symmetric] e_def\<close>)
qed

text \<open>Releasing a buffer does not touch the inode table.\<close>

lemma wakeup_upd_inode: "wakeup q ch (upd_inode ip f s) = upd_inode ip f (wakeup q ch s)"
proof -
  have "fold (\<lambda>i s. if Some i \<noteq> q \<and> state (procs s i) = SLEEPING \<and> chan (procs s i) = ch then upd_proc i make_runnable s else s)
      is (upd_inode ip f s) =
    upd_inode ip f (fold (\<lambda>i s. if Some i \<noteq> q \<and> state (procs s i) = SLEEPING \<and> chan (procs s i) = ch
      then upd_proc i make_runnable s else s) is s)" for "is"
  proof (induction "is" arbitrary: s)
    case (Cons i "is")
    have e: "upd_proc i make_runnable (upd_inode ip f s) = upd_inode ip f (upd_proc i make_runnable s)"
      by (simp add: upd_proc_def upd_inode_def)
    show ?case using Cons by (simp add: e)
  qed simp
  then show ?thesis by (simp add: wakeup_def)
qed

lemma brelse_upd_inode: "brelse p i (upd_inode ip f s) = (case brelse p i s of Ok s' \<Rightarrow> Ok (upd_inode ip f s') | r \<Rightarrow> r)"
  unfolding brelse_def releasesleep_def wakeup_upd_inode
  by (simp add: Let_def upd_buf_def upd_inode_def mypid_def)

text \<open>\<^verbatim>\<open>ilock()\<close> of an entry whose contents were not read yet.\<close>

lemma ilock_reads:
  assumes t: "txn p k s" and x: "1 \<le> iref (itable s ip)" "\<not> slocked (ilk (itable s ip))" "\<not> ivalid (itable s ip)" "idev (itable s ip) = ROOTDEV"
    and ty: "d_type (disk_inode s (inum (itable s ip))) \<noteq> 0"
  obtains s' where "ilock p ip s = Ok s'" "txn p k s'" "lblk s' = lblk s" "sb s' = sb s" "lg s' = lg s"
    "itable s' = (itable s)(ip := load_dinode (disk_inode s (inum (itable s ip))) ((itable s ip)
       \<lparr>ilk := \<lparr>slocked = True, spid = mypid s p\<rparr>\<rparr>)\<lparr>ivalid := True\<rparr>)"
proof -
  define lk where "lk = \<lparr>slocked = True, spid = mypid s p\<rparr>"
  define n where "n = inum (itable s ip)"
  define s0 where "s0 = upd_inode ip (\<lambda>x. x\<lparr>ilk := lk\<rparr>) s"
  define F where "F = load_dinode (disk_inode s n)"
  have t0: "txn p k s0" using t by (simp add: s0_def txn_def)
  obtain i s1 s2 where r: "bread p ROOTDEV (IBLOCK n (sb s)) s0 = Ok (i, s1)" "bdata (bufs s1 i) = lblk s0 (IBLOCK n (sb s))" "fs_only s0 s1"
    "brelse p i s1 = Ok s2" "txn p k s2" "lblk s2 = lblk s0" "fs_only s0 s2" "lg s2 = lg s0"
    by (rule block_peek [OF t0])
  have rel: "brelse p i (upd_inode ip F s1) = Ok (upd_inode ip F s2)" using r(4) by (simp add: brelse_upd_inode)
  have it: "itable s2 = (itable s)(ip := (itable s ip)\<lparr>ilk := lk\<rparr>)" "sb s2 = sb s" "sb s0 = sb s" "lg s2 = lg s" "lblk s2 = lblk s"
    using fs_only_inodes [OF r(7)] r(6,8) by (simp_all add: s0_def)
  have F: "load_dinode (get_dinode (bdata (bufs s1 i)) (inode_off n)) = F" using r(2) by (simp add: F_def disk_inode_def s0_def)
  have acq: "acquiresleep (mypid s p) (ilk (itable s ip)) = Ok lk" using x(2) by (simp add: acquiresleep_def lk_def)
  let ?s' = "upd_inode ip (\<lambda>x. x\<lparr>ivalid := True\<rparr>) (upd_inode ip F s2)"
  have ty': "itype (F (itable s2 ip)) \<noteq> 0" using ty by (simp add: F_def load_dinode_def n_def)
  have x0: "itable s0 ip = (itable s ip)\<lparr>ilk := lk\<rparr>" by (simp add: s0_def)
  have "ilock p ip s = Ok ?s'"
    unfolding ilock_def Let_def acq bindR.simps s0_def [symmetric] x0 it(3)
    using x r(1) rel ty' by (simp add: n_def [symmetric] it(3) F)
  moreover have "txn p k ?s'" using r(5) by (simp add: txn_def)
  ultimately show thesis
    by (rule that) (simp_all add: it F_def load_dinode_def n_def lk_def)
qed

section \<open>Properties\<close>

text \<open>
  C22. \<^verbatim>\<open>iupdate()\<close> inside an operation always succeeds, changes the on-disk copy of its own inode only, and a table entry that names the
  same inode and has not been read yet gets exactly the written contents from \<^verbatim>\<open>ilock()\<close>: type, device numbers, link count, size
  and all thirteen block addresses survive the round trip through the block on disk.
\<close>

theorem iupdate_ilock_roundtrip:
  assumes "txn p (Suc k) s"
    and "idev (itable s ip) = ROOTDEV" "length (iaddrs (itable s ip)) = NDIRECT + 1" "itype (itable s ip) \<noteq> 0"
    and "IBLOCK (inum (itable s ip)) (sb s) \<notin> log_area (lstart (lg s))"
    and "length (lblk s (IBLOCK (inum (itable s ip)) (sb s))) = BSIZE"
    and "idev (itable s j) = ROOTDEV" "inum (itable s j) = inum (itable s ip)" "1 \<le> iref (itable s j)" "\<not> slocked (ilk (itable s j))"
    and "\<not> ivalid (itable s j)"
  shows "\<exists>s1 s2. iupdate p ip s = Ok s1 \<and> ilock p j s1 = Ok s2 \<and> ivalid (itable s2 j) \<and> dinode_of (itable s2 j) = dinode_of (itable s ip) \<and>
    (\<forall>ino. ino \<noteq> inum (itable s ip) \<longrightarrow> disk_inode s2 ino = disk_inode s ino)"
proof -
  obtain s1 where u: "iupdate p ip s = Ok s1" "txn p k s1" "fs_only s s1"
    "disk_inode s1 (inum (itable s ip)) = dinode_of (itable s ip)"
    "\<forall>ino. ino \<noteq> inum (itable s ip) \<longrightarrow> disk_inode s1 ino = disk_inode s ino"
    using assms(1-3,5,6) by (rule iupdate_spec)
  have it: "itable s1 = itable s" using fs_only_inodes [OF u(3)] by simp
  obtain s2 where l: "ilock p j s1 = Ok s2" "lblk s2 = lblk s1" "sb s2 = sb s1"
    "itable s2 = (itable s1)(j := load_dinode (disk_inode s1 (inum (itable s1 j))) ((itable s1 j)
       \<lparr>ilk := \<lparr>slocked = True, spid = mypid s1 p\<rparr>\<rparr>)\<lparr>ivalid := True\<rparr>)"
    by (rule ilock_reads [OF u(2), of j]) (use assms u(4) it in \<open>auto simp: dinode_of_def\<close>)
  have "disk_inode s2 = disk_inode s1" by (rule ext) (simp add: disk_inode_def l(2,3))
  then show ?thesis using u l assms(8) by (auto simp: it load_dinode_def dinode_of_def)
qed

theorem iupdate_ilock_roundtrip_witness:
  "\<exists>s1 s2. iupdate 0 0 (idle_fs (\<lambda>_. replicate BSIZE 0) (\<lambda>i. zero_inode\<lparr>idev := ROOTDEV, inum := 5, iref := 1, itype := 2, isize := of_nat (10 - i)\<rparr>)) = Ok s1 \<and>
     ilock 0 1 s1 = Ok s2 \<and> isize (itable s2 1) = 10"
proof -
  let ?s = "idle_fs (\<lambda>_. replicate BSIZE 0) (\<lambda>i. zero_inode\<lparr>idev := ROOTDEV, inum := 5, iref := 1, itype := 2, isize := of_nat (10 - i)\<rparr>)"
  have t: "txn 0 (Suc 0) ?s" by (rule idle_txn) (simp_all add: get32_zeros)
  show ?thesis
    using iupdate_ilock_roundtrip [OF t, of 0 1] by (auto simp: IBLOCK_def log_area_def zero_inode_def initsleeplock_def dinode_of_def)
qed

end
