(* ===== verification/Fs_Bitmap.thy ===== *)
theory Fs_Bitmap
  imports Fs_Block
begin

text \<open>
  The free map of \<^verbatim>\<open>kernel/fs.c\<close>: which blocks it marks as used, and what \<^verbatim>\<open>balloc()\<close> and \<^verbatim>\<open>bfree()\<close> do to that set.
\<close>

unbundle bit_operations_syntax

section \<open>Single bits\<close>

lemma bit_mask_clear: "x AND bit_mask n = 0 \<longleftrightarrow> \<not> bit x (n mod 8)"
  by (simp add: bit_mask_def push_bit_of_1 and_exp_eq_0_iff_not_bit)

lemma bit_mask_set: "bit (x OR bit_mask n) m \<longleftrightarrow> bit x m \<or> m = n mod 8"
  by (auto simp: bit_mask_def bit_simps)

lemma bit_mask_unset: "bit (x AND NOT (bit_mask n)) m \<longleftrightarrow> bit x m \<and> m \<noteq> n mod 8"
  by (auto simp: bit_mask_def bit_simps dest: bit_imp_le_length)

definition map_bit :: "uchar list \<Rightarrow> nat \<Rightarrow> bool" where
  "map_bit d n = bit (d ! (n div 8)) (n mod 8)"

lemma map_bit_update:
  assumes "n div 8 < length d"
  shows "map_bit (d[n div 8 := d ! (n div 8) OR bit_mask n]) m \<longleftrightarrow> map_bit d m \<or> m = n"
    "map_bit (d[n div 8 := d ! (n div 8) AND NOT (bit_mask n)]) m \<longleftrightarrow> map_bit d m \<and> m \<noteq> n"
proof -
  have "m = n \<longleftrightarrow> m div 8 = n div 8 \<and> m mod 8 = n mod 8" by (metis mult_div_mod_eq)
  then show "map_bit (d[n div 8 := d ! (n div 8) OR bit_mask n]) m \<longleftrightarrow> map_bit d m \<or> m = n"
    "map_bit (d[n div 8 := d ! (n div 8) AND NOT (bit_mask n)]) m \<longleftrightarrow> map_bit d m \<and> m \<noteq> n"
    using assms by (auto simp: map_bit_def nth_list_update bit_mask_set bit_mask_unset)
qed

section \<open>The free map\<close>

text \<open>
  A block is in use when its bit is set. In a well-formed map the boot block and the blocks of the map and
  of the log are no free blocks.
\<close>

definition in_use :: "'a fstate_scheme \<Rightarrow> uint \<Rightarrow> bool" where
  "in_use s b = map_bit (lblk s (BBLOCK b (sb s))) (unat b mod BPB)"

definition bitmap_ok :: "'a fstate_scheme \<Rightarrow> bool" where
  "bitmap_ok s \<longleftrightarrow> in_use s 0 \<and> (\<forall>b < sb_size (sb s). BBLOCK b (sb s) \<notin> log_area (lstart (lg s)) \<and> length (lblk s (BBLOCK b (sb s))) = BSIZE \<and>
     (\<not> in_use s b \<longrightarrow> b \<notin> log_area (lstart (lg s)) \<and> (\<forall>b' < sb_size (sb s). b \<noteq> BBLOCK b' (sb s))))"

lemma BBLOCK_same:
  assumes "k * BPB + n < 2 ^ 32" and "n < BPB"
  shows "BBLOCK (of_nat (k * BPB + n)) z = BBLOCK (of_nat (k * BPB)) z"
proof -
  have u: "unat (of_nat (k * BPB + n) :: uint) = k * BPB + n" "unat (of_nat (k * BPB) :: uint) = k * BPB"
    using assms by (simp_all only: unat_of_nat take_bit_nat_eq_self_iff) simp_all
  have "(of_nat (k * BPB + n) :: uint) div 8192 = of_nat (k * BPB) div 8192"
    by (rule word_unat_eq_iff [THEN iffD2]) (use u assms in \<open>simp add: unat_div\<close>)
  then show ?thesis by (simp add: BBLOCK_def)
qed

lemma BBLOCK_eqD:
  assumes "BBLOCK b z = BBLOCK b' z" and "unat b mod BPB = unat b' mod BPB"
  shows "b = b'"
proof -
  have "b div 8192 = b' div 8192" using assms(1) by (simp add: BBLOCK_def)
  then have "unat (b div 8192) = unat (b' div 8192)" by simp
  then have "unat b div 8192 = unat b' div 8192" by (simp add: unat_div)
  moreover have "unat b mod 8192 = unat b' mod 8192" using assms(2) by simp
  ultimately have "unat b = unat b'" by (metis mult_div_mod_eq)
  then show ?thesis by (simp add: word_unat_eq_iff)
qed

lemma bitmap_okD:
  assumes "bitmap_ok s" and "b < sb_size (sb s)"
  shows "BBLOCK b (sb s) \<notin> log_area (lstart (lg s))" "length (lblk s (BBLOCK b (sb s))) = BSIZE"
    "\<not> in_use s b \<Longrightarrow> b \<notin> log_area (lstart (lg s))" "\<not> in_use s b \<Longrightarrow> b' < sb_size (sb s) \<Longrightarrow> b \<noteq> BBLOCK b' (sb s)"
  using assms unfolding bitmap_ok_def by blast+

text \<open>The two changes of the map: setting and clearing the bit of one block.\<close>

lemma in_use_set:
  assumes ok: "bitmap_ok s" and r: "r < sb_size (sb s)" and b: "b < sb_size (sb s)" and sb: "sb s' = sb s"
    and l: "lblk s' (BBLOCK b (sb s)) = ((lblk s)(BBLOCK r (sb s) := D)) (BBLOCK b (sb s))"
  defines "n \<equiv> unat r mod BPB" and "d \<equiv> lblk s (BBLOCK r (sb s))"
  shows "D = d[n div 8 := d ! (n div 8) OR bit_mask n] \<Longrightarrow> in_use s' b \<longleftrightarrow> in_use s b \<or> b = r"
    "D = d[n div 8 := d ! (n div 8) AND NOT (bit_mask n)] \<Longrightarrow> in_use s' b \<longleftrightarrow> in_use s b \<and> b \<noteq> r"
proof -
  have len: "n div 8 < length d" using bitmap_okD(2) [OF ok r] unfolding n_def d_def by (simp add: div_less_iff_less_mult)
  define m where "m = unat b mod BPB"
  have e: "b = r \<longleftrightarrow> BBLOCK b (sb s) = BBLOCK r (sb s) \<and> m = n" using BBLOCK_eqD unfolding n_def m_def by blast
  have u: "in_use s' b \<longleftrightarrow> map_bit (if BBLOCK b (sb s) = BBLOCK r (sb s) then D else lblk s (BBLOCK b (sb s))) m"
    "in_use s b \<longleftrightarrow> map_bit (if BBLOCK b (sb s) = BBLOCK r (sb s) then d else lblk s (BBLOCK b (sb s))) m"
    unfolding in_use_def sb m_def d_def using l by auto
  show "in_use s' b \<longleftrightarrow> in_use s b \<or> b = r" if "D = d[n div 8 := d ! (n div 8) OR bit_mask n]"
    unfolding u e that by (simp add: map_bit_update(1) [OF len])
  show "in_use s' b \<longleftrightarrow> in_use s b \<and> b \<noteq> r" if "D = d[n div 8 := d ! (n div 8) AND NOT (bit_mask n)]"
    unfolding u e that by (simp add: map_bit_update(2) [OF len])
qed

lemma bzero_spec:
  assumes "txn p (Suc k) s" and "b \<notin> log_area (lstart (lg s))"
  obtains s' where "bzero p ROOTDEV b s = Ok s'" "txn p k s'" "lblk s' = (lblk s)(b := replicate BSIZE 0)" "fs_only s s'" "log_bound 1 s s'"
proof -
  obtain i s1 where m: "bread p ROOTDEV b s = Ok (i, s1)" "bdata (bufs s1 i) = lblk s b" "fs_only s s1"
    "\<forall>d. \<exists>s2. log_brelse p i (set_bdata i d s1) = Ok s2 \<and> txn p k s2 \<and> lblk s2 = (lblk s)(b := d) \<and> fs_only s s2 \<and> log_bound 1 s s2"
    by (rule block_modify [OF assms])
  then obtain s2 where "log_brelse p i (set_bdata i (replicate BSIZE 0) s1) = Ok s2" "txn p k s2" "lblk s2 = (lblk s)(b := replicate BSIZE 0)"
    "fs_only s s2" "log_bound 1 s s2" by blast
  then show thesis using that m(1) by (simp add: bzero_def)
qed

text \<open>\<open>taken s r s'\<close>: the free block \<open>r\<close> was marked as used and zeroed, and no other block changed but the one with its bit.\<close>

definition taken :: "'a fstate_scheme \<Rightarrow> uint \<Rightarrow> 'a fstate_scheme \<Rightarrow> bool" where
  "taken s r s' \<longleftrightarrow> r < sb_size (sb s) \<and> r \<noteq> 0 \<and> \<not> in_use s r \<and> lblk s' r = replicate BSIZE 0 \<and>
     (\<forall>b < sb_size (sb s). in_use s' b \<longleftrightarrow> in_use s b \<or> b = r) \<and>
     (\<forall>b. b \<noteq> r \<and> b \<noteq> BBLOCK r (sb s) \<longrightarrow> lblk s' b = lblk s b) \<and> bitmap_ok s'"

lemma balloc_take:
  assumes t: "txn p (Suc (Suc k)) s" and ok: "bitmap_ok s" and r: "r < sb_size (sb s)" "\<not> in_use s r"
  defines "n \<equiv> unat r mod BPB" and "B \<equiv> BBLOCK r (sb s)"
  obtains i s1 s2 s3 where "bread p ROOTDEV B s = Ok (i, s1)" "bdata (bufs s1 i) = lblk s B" "fs_only s s1"
    "log_brelse p i (set_bdata i ((lblk s B)[n div 8 := lblk s B ! (n div 8) OR bit_mask n]) s1) = Ok s2"
    "bzero p ROOTDEV r s2 = Ok s3" "taken s r s3" "txn p k s3" "fs_only s s3" "log_bound 2 s s3"
proof -
  note d = bitmap_okD [OF ok r(1)]
  obtain i s1 where m: "bread p ROOTDEV B s = Ok (i, s1)" "bdata (bufs s1 i) = lblk s B" "fs_only s s1"
    "\<forall>d. \<exists>s2. log_brelse p i (set_bdata i d s1) = Ok s2 \<and> txn p (Suc k) s2 \<and> lblk s2 = (lblk s)(B := d) \<and> fs_only s s2 \<and> log_bound 1 s s2"
    by (rule block_modify [OF t]) (use d(1) B_def in auto)
  define D where "D = (lblk s B)[n div 8 := lblk s B ! (n div 8) OR bit_mask n]"
  obtain s2 where w: "log_brelse p i (set_bdata i D s1) = Ok s2" "txn p (Suc k) s2" "lblk s2 = (lblk s)(B := D)" "fs_only s s2" "log_bound 1 s s2"
    using m(4) by blast
  have st: "lstart (lg s2) = lstart (lg s)" using w(5) by (simp add: log_bound_def)
  have nl: "r \<notin> log_area (lstart (lg s2))" using d(3) r(2) st by simp
  obtain s3 where z: "bzero p ROOTDEV r s2 = Ok s3" "txn p k s3" "lblk s3 = (lblk s2)(r := replicate BSIZE 0)" "fs_only s2 s3" "log_bound 1 s2 s3"
    using w(2) nl by (rule bzero_spec)
  have fo: "fs_only s s3" using w(4) z(4) by (rule fs_only_trans)
  have lb: "log_bound 2 s s3" using w(5) z(5) by (simp add: log_bound_def)
  have sb: "sb s3 = sb s" using fs_only_inodes [OF fo] by simp
  have L: "lblk s3 (BBLOCK b (sb s)) = ((lblk s)(B := D)) (BBLOCK b (sb s))" if "b < sb_size (sb s)" for b
    using d(4) [OF r(2) that] z(3) w(3) by simp
  have u: "in_use s3 b \<longleftrightarrow> in_use s b \<or> b = r" if "b < sb_size (sb s)" for b
    by (rule in_use_set(1) [OF ok r(1) that sb]) (use L [OF that] in \<open>simp_all add: B_def D_def n_def\<close>)
  have "in_use s 0" using ok by (simp add: bitmap_ok_def)
  moreover have "0 < sb_size (sb s)" using order_le_less_trans [OF word_zero_le r(1)] .
  moreover have "r \<noteq> 0" using r \<open>in_use s 0\<close> by auto
  moreover have "length (lblk s3 (BBLOCK b (sb s))) = BSIZE" if "b < sb_size (sb s)" for b
    using L [OF that] bitmap_okD(2) [OF ok that] d(2) by (simp add: D_def B_def)
  moreover have "lstart (lg s3) = lstart (lg s)" using lb by (simp add: log_bound_def)
  ultimately have ok': "bitmap_ok s3" using ok u unfolding bitmap_ok_def sb by auto
  have "taken s r s3" unfolding taken_def using r u ok' z(3) w(3) \<open>r \<noteq> 0\<close> by (auto simp: B_def)
  then show thesis using that m(1-3) w(1) z(1,2) fo lb unfolding D_def by blast
qed

text \<open>The search: a pass over one block of the map, then over all of them in order.\<close>

lemma in_use_pass:
  assumes "k * BPB + n < unat (sb_size (sb s))" and "n < BPB"
  defines "d \<equiv> lblk s (BBLOCK (of_nat (k * BPB)) (sb s))"
  shows "d ! (n div 8) AND bit_mask n = 0 \<longleftrightarrow> \<not> in_use s (of_nat (k * BPB + n))" "of_nat (k * BPB + n) < sb_size (sb s)"
    "unat (of_nat (k * BPB + n) :: uint) mod BPB = n" "BBLOCK (of_nat (k * BPB + n)) (sb s) = BBLOCK (of_nat (k * BPB)) (sb s)"
    "unat (of_nat (k * BPB + n) :: uint) = k * BPB + n"
proof -
  have lt: "k * BPB + n < 2 ^ 32" using assms(1) unsigned_less [of "sb_size (sb s)", where ?'a = nat] by simp
  then show u: "unat (of_nat (k * BPB + n) :: uint) = k * BPB + n" by (simp only: unat_of_nat take_bit_nat_eq_self_iff) simp
  show "of_nat (k * BPB + n) < sb_size (sb s)" using assms(1) u by (simp only: word_less_nat_alt)
  show m: "unat (of_nat (k * BPB + n) :: uint) mod BPB = n" unfolding u using assms(2) by simp
  show B: "BBLOCK (of_nat (k * BPB + n)) (sb s) = BBLOCK (of_nat (k * BPB)) (sb s)" using lt assms(2) by (rule BBLOCK_same)
  show "d ! (n div 8) AND bit_mask n = 0 \<longleftrightarrow> \<not> in_use s (of_nat (k * BPB + n))"
    unfolding in_use_def m B bit_mask_clear map_bit_def d_def ..
qed

lemma find_upt_least:
  "find P [0..<n] = Some i \<Longrightarrow> i < n \<and> P i \<and> (\<forall>j<i. \<not> P j)" "find P [0..<n] = None \<Longrightarrow> \<forall>j<n. \<not> P j"
  by (auto simp: find_Some_iff find_None_iff)

definition balloc_result :: "nat \<Rightarrow> nat \<Rightarrow> 'a fstate_scheme \<Rightarrow> uint \<Rightarrow> 'a fstate_scheme \<Rightarrow> bool" where
  "balloc_result p k s r s' \<longleftrightarrow> txn p k s' \<and> fs_only s s' \<and> log_bound 2 s s' \<and>
     (if \<forall>b < sb_size (sb s). in_use s b then r = 0 \<and> lblk s' = lblk s
      else taken s r s' \<and> (\<forall>b < r. in_use s b))"

lemma txn_mono: "txn p k s \<Longrightarrow> j \<le> k \<Longrightarrow> txn p j s"
  by (simp add: txn_def)

lemma in_use_below:
  assumes "\<forall>b. unat b < k * BPB \<and> b < sb_size (sb s) \<longrightarrow> in_use s b" and "b < sb_size (sb s)" and "unat b < Suc k * BPB"
    and "\<forall>n. k * BPB + n \<le> unat b \<longrightarrow> \<not> lblk s (BBLOCK (of_nat (k * BPB)) (sb s)) ! (n div 8) AND bit_mask n = 0"
  shows "in_use s b"
proof (cases "unat b < k * BPB")
  case False
  define n where "n = unat b - k * BPB"
  have n: "unat b = k * BPB + n" "n < BPB" using False assms(3) unfolding n_def by (auto simp: less_diff_conv2)
  then have "b = of_nat (k * BPB + n)" by (metis of_nat_unat ucast_id)
  moreover have "k * BPB + n < unat (sb_size (sb s))" using assms(2) n(1) by (simp add: word_less_nat_alt)
  ultimately show ?thesis using in_use_pass(1) n(2) assms(4) n(1) by (metis order_refl)
qed (use assms in blast)

lemma balloc_loop_spec:
  assumes "txn p (Suc (Suc k)) s" "bitmap_ok s" "\<forall>b. unat b < i * BPB \<and> b < sb_size (sb s) \<longrightarrow> in_use s b"
    and "m = (unat (sb_size (sb s)) + BPB - 1) div BPB" "i \<le> m"
  shows "\<exists>r s'. balloc_loop p ROOTDEV (map (\<lambda>k. k * BPB) [i..<m]) s = Ok (r, s') \<and> balloc_result p k s r s'"
  using assms
proof (induction "m - i" arbitrary: i s)
  case 0
  have "unat b < i * BPB" if "b < sb_size (sb s)" for b using that 0 by (simp add: word_less_nat_alt)
  then have "\<forall>b < sb_size (sb s). in_use s b" using 0 by blast
  then show ?case using 0 txn_mono [OF 0(2)] by (auto simp: balloc_result_def log_bound_def)
next
  case (Suc x)
  let ?B = "BBLOCK (of_nat (i * BPB)) (sb s)" and ?z = "unat (sb_size (sb s))"
  let ?P = "\<lambda>n. lblk s ?B ! (n div 8) AND bit_mask n = 0"
  have i: "i < m" using Suc(2) by simp
  have up: "map (\<lambda>k. k * BPB) [i..<m] = (i * BPB) # map (\<lambda>k. k * BPB) [Suc i..<m]" using i by (simp add: upt_conv_Cons)
  show ?case
  proof (cases "find ?P [0..<min BPB (?z - i * BPB)]")
    case (Some n)
    note f = find_upt_least(1) [OF Some]
    have n: "i * BPB + n < ?z" "n < BPB" using f by (auto simp: less_diff_conv)
    define r where "r = (of_nat (i * BPB + n) :: uint)"
    note q = in_use_pass [OF n, folded r_def]
    have free: "\<not> in_use s r" using f q(1) by blast
    obtain j s1 s2 s3 where k: "bread p ROOTDEV (BBLOCK r (sb s)) s = Ok (j, s1)" "bdata (bufs s1 j) = lblk s (BBLOCK r (sb s))" "fs_only s s1"
      "log_brelse p j (set_bdata j ((lblk s (BBLOCK r (sb s)))[unat r mod BPB div 8 :=
          lblk s (BBLOCK r (sb s)) ! (unat r mod BPB div 8) OR bit_mask (unat r mod BPB)]) s1) = Ok s2"
      "bzero p ROOTDEV r s2 = Ok s3" "taken s r s3" "txn p k s3" "fs_only s s3" "log_bound 2 s s3"
      by (rule balloc_take [OF Suc(3,4) q(2) free])
    have "balloc_loop p ROOTDEV (map (\<lambda>k. k * BPB) [i..<m]) s = Ok (r, s3)"
      unfolding up balloc_loop.simps using k(1,2,4,5) fs_only_inodes(2) [OF k(3)] Some unfolding q(3,4) by (simp add: Let_def r_def)
    moreover have "in_use s b" if "b < r" for b
    proof (rule in_use_below [OF Suc(5)])
      have "unat b < i * BPB + n" using that q(5) unfolding word_less_nat_alt by simp
      then show "unat b < Suc i * BPB" "\<forall>m. i * BPB + m \<le> unat b \<longrightarrow> \<not> ?P m" using f by auto
    qed (use that q(2) in simp)
    ultimately show ?thesis using k(6-9) q(2) free unfolding balloc_result_def by auto
  next
    case None
    note f = find_upt_least(2) [OF None]
    obtain j s1 s2 where r: "bread p ROOTDEV ?B s = Ok (j, s1)" "bdata (bufs s1 j) = lblk s ?B" "fs_only s s1" "brelse p j s1 = Ok s2"
      "txn p (Suc (Suc k)) s2" "lblk s2 = lblk s" "fs_only s s2" "lg s2 = lg s"
      by (rule block_peek [OF Suc(3)])
    have sb: "sb s2 = sb s" "sb s1 = sb s" using fs_only_inodes(2) r(3,7) by auto
    have u: "in_use s2 = in_use s" by (rule ext) (simp add: in_use_def r(6) sb)
    have ok: "bitmap_ok s2" using Suc(4) unfolding bitmap_ok_def u sb r(6,8) .
    have "in_use s b" if "unat b < Suc i * BPB" "b < sb_size (sb s)" for b
    proof (rule in_use_below [OF Suc(5) that(2,1)])
      have "unat b < ?z" using that(2) by (simp add: word_less_nat_alt)
      then show "\<forall>m. i * BPB + m \<le> unat b \<longrightarrow> \<not> ?P m" using f that(1) by auto
    qed
    then have below: "\<forall>b. unat b < Suc i * BPB \<and> b < sb_size (sb s2) \<longrightarrow> in_use s2 b" unfolding u sb by blast
    have "x = m - Suc i" "m = (unat (sb_size (sb s2)) + BPB - 1) div BPB" "Suc i \<le> m" using Suc(2,6) i sb by simp_all
    then obtain q s' where l: "balloc_loop p ROOTDEV (map (\<lambda>k. k * BPB) [Suc i..<m]) s2 = Ok (q, s')" "balloc_result p k s2 q s'"
      using Suc(1) [OF _ r(5) ok below] by blast
    have "balloc_loop p ROOTDEV (map (\<lambda>k. k * BPB) [i..<m]) s = Ok (q, s')"
      unfolding up balloc_loop.simps using r(1,2,4) sb(2) None l(1) by (simp add: Let_def)
    moreover have e: "taken s2 q s' = taken s q s'" "log_bound 2 s2 s' = log_bound 2 s s'" unfolding taken_def log_bound_def u sb r(6,8) by (rule refl)+
    moreover have "balloc_result p k s q s'"
      using l(2) fs_only_trans [OF r(7), of s'] unfolding balloc_result_def e u sb r(6) by blast
    ultimately show ?thesis by blast
  qed
qed

section \<open>Properties\<close>

text \<open>
  C21. On a well-formed free map, \<^verbatim>\<open>balloc()\<close> always returns: 0 and an unchanged disk exactly when every block is in use; otherwise
  the lowest free block, which is now marked as used and filled with zeros, while every other bit of the map and every other block
  stay as they were. It logs at most two blocks and the map stays well-formed.
\<close>

theorem balloc_lowest_free:
  assumes "txn p (k + 2) s" and "bitmap_ok s"
  shows "\<exists>r s'. balloc p ROOTDEV s = Ok (r, s') \<and> txn p k s' \<and> fs_only s s' \<and> log_bound 2 s s' \<and>
    (if \<forall>b < sb_size (sb s). in_use s b then r = 0 \<and> lblk s' = lblk s
     else r < sb_size (sb s) \<and> r \<noteq> 0 \<and> \<not> in_use s r \<and> lblk s' r = replicate BSIZE 0 \<and>
       (\<forall>b < sb_size (sb s). in_use s' b \<longleftrightarrow> in_use s b \<or> b = r) \<and>
       (\<forall>b. b \<noteq> r \<and> b \<noteq> BBLOCK r (sb s) \<longrightarrow> lblk s' b = lblk s b) \<and> bitmap_ok s' \<and> (\<forall>b < r. in_use s b))"
proof -
  let ?m = "(unat (sb_size (sb s)) + BPB - 1) div BPB"
  have "\<exists>r s'. balloc_loop p ROOTDEV (map (\<lambda>k. k * BPB) [0..<?m]) s = Ok (r, s') \<and> balloc_result p k s r s'"
    by (rule balloc_loop_spec [OF _ assms(2)]) (use assms(1) in simp_all)
  then show ?thesis unfolding balloc_def balloc_result_def taken_def conj_assoc .
qed

text \<open>The map of a disk on which everything but block 60 is in use.\<close>

definition almost_full :: "uint \<Rightarrow> block" where
  "almost_full = (\<lambda>_. replicate BSIZE 0)(46 := (replicate BSIZE 255)[7 := 239])"

lemma byte_bits: "bit (239 :: uchar) m \<longleftrightarrow> m \<noteq> 4" "bit (255 :: uchar) m" if "m < 8"
proof -
  have "m \<in> {0, 1, 2, 3, 4, 5, 6, 7}" using that by auto
  then show "bit (239 :: uchar) m \<longleftrightarrow> m \<noteq> 4" "bit (255 :: uchar) m" by auto
qed

lemma almost_full_use:
  assumes "b < 2000"
  shows "in_use (idle_fs almost_full it) b \<longleftrightarrow> b \<noteq> 60"
proof -
  have u: "unat b < 2000" using assms by (simp add: word_less_nat_alt)
  have "b div 8192 = 0" by (rule word_unat_eq_iff [THEN iffD2]) (use u in \<open>simp add: unat_div\<close>)
  then have B: "BBLOCK b (sb (idle_fs almost_full it)) = 46" by (simp add: BBLOCK_def)
  have "in_use (idle_fs almost_full it) b \<longleftrightarrow> bit ((if unat b div 8 = 7 then 239 else 255) :: uchar) (unat b mod 8)"
    using u unfolding in_use_def map_bit_def B by (auto simp: almost_full_def nth_list_update)
  also have "\<dots> \<longleftrightarrow> \<not> (unat b div 8 = 7 \<and> unat b mod 8 = 4)" using byte_bits [of "unat b mod 8"] by simp
  also have "\<dots> \<longleftrightarrow> unat b \<noteq> 60" by presburger
  finally show ?thesis by (simp add: word_unat_eq_iff)
qed

lemma almost_full_ok: "bitmap_ok (idle_fs almost_full it)"
proof -
  have B: "BBLOCK b (sb (idle_fs almost_full it)) = 46" if "b < 2000" for b
  proof -
    have "unat b < 2000" using that by (simp add: word_less_nat_alt)
    then have "b div 8192 = 0" by (intro word_unat_eq_iff [THEN iffD2]) (simp add: unat_div)
    then show ?thesis by (simp add: BBLOCK_def)
  qed
  show ?thesis unfolding bitmap_ok_def by (auto simp: almost_full_use B) (auto simp: almost_full_def log_area_def)
qed

theorem balloc_lowest_free_witness:
  "\<exists>s'. balloc 0 ROOTDEV (idle_fs almost_full (\<lambda>_. zero_inode)) = Ok (60, s') \<and> lblk s' 60 = replicate BSIZE 0 \<and> in_use s' 60"
proof -
  let ?s = "idle_fs almost_full (\<lambda>_. zero_inode)"
  have t: "txn 0 (0 + 2) ?s" by (rule idle_txn) (simp_all add: almost_full_def get32_zeros)
  have free: "\<not> (\<forall>b < 2000. in_use ?s b)" using almost_full_use [of 60] by (auto intro!: exI [of _ 60])
  obtain r s' where r: "balloc 0 ROOTDEV ?s = Ok (r, s')" "r < 2000 \<and> \<not> in_use ?s r \<and> lblk s' r = replicate BSIZE 0 \<and> (\<forall>b < 2000. in_use s' b \<longleftrightarrow> in_use ?s b \<or> b = r)"
    using balloc_lowest_free [OF t almost_full_ok] unfolding idle_simps if_not_P [OF free] by blast
  then show ?thesis using almost_full_use [of r] by auto
qed

text \<open>
  C35. \<^verbatim>\<open>bfree()\<close> of a block in use clears its bit and nothing else; of a block that is already free it panics. So freeing what
  \<^verbatim>\<open>balloc()\<close> returned restores the set of blocks in use, and freeing it twice stops the kernel.
\<close>

theorem bfree_frees_once:
  assumes "txn p (k + 2) s" and "bitmap_ok s" and "b < sb_size (sb s)" and "in_use s b"
  shows "\<exists>s'. bfree p ROOTDEV b s = Ok s' \<and> txn p (k + 1) s' \<and> (\<forall>b' < sb_size (sb s). in_use s' b' \<longleftrightarrow> in_use s b' \<and> b' \<noteq> b) \<and>
    (\<forall>b'. b' \<noteq> BBLOCK b (sb s) \<longrightarrow> lblk s' b' = lblk s b') \<and> bfree p ROOTDEV b s' = Panic ''freeing free block''"
proof -
  define B where "B = BBLOCK b (sb s)"
  define n where "n = unat b mod BPB"
  note d = bitmap_okD [OF assms(2,3), folded B_def]
  have t: "txn p (Suc (k + 1)) s" using assms(1) by simp
  have read: "x ! (n div 8) AND bit_mask n = 0 \<longleftrightarrow> \<not> map_bit x n" for x by (simp add: bit_mask_clear map_bit_def)
  obtain i s1 where m: "bread p ROOTDEV B s = Ok (i, s1)" "bdata (bufs s1 i) = lblk s B" "fs_only s s1"
    "\<forall>d. \<exists>s2. log_brelse p i (set_bdata i d s1) = Ok s2 \<and> txn p (k + 1) s2 \<and> lblk s2 = (lblk s)(B := d) \<and> fs_only s s2 \<and> log_bound 1 s s2"
    by (rule block_modify [OF t d(1)])
  define D where "D = (lblk s B)[n div 8 := lblk s B ! (n div 8) AND NOT (bit_mask n)]"
  obtain s2 where w: "log_brelse p i (set_bdata i D s1) = Ok s2" "txn p (k + 1) s2" "lblk s2 = (lblk s)(B := D)" "fs_only s s2"
    using m(4) by blast
  have sb: "sb s2 = sb s" using fs_only_inodes [OF w(4)] by simp
  have u: "in_use s2 b' \<longleftrightarrow> in_use s b' \<and> b' \<noteq> b" if "b' < sb_size (sb s)" for b'
    by (rule in_use_set(2) [OF assms(2,3) that sb]) (simp_all add: w(3) B_def D_def n_def)
  have f: "bfree p ROOTDEV b s = Ok s2"
    using m(1,2) w(1) assms(4) unfolding in_use_def bfree_def B_def [symmetric] n_def [symmetric] D_def by (simp add: Let_def read)
  obtain i' s1' s2' where r: "bread p ROOTDEV B s2 = Ok (i', s1')" "bdata (bufs s1' i') = lblk s2 B"
    using w(2) by (rule block_peek)
  have "\<not> in_use s2 b" using u assms(3) by blast
  then have "bfree p ROOTDEV b s2 = Panic ''freeing free block''"
    using r unfolding in_use_def bfree_def sb B_def [symmetric] n_def [symmetric] by (simp add: Let_def read)
  then show ?thesis using f w(2,3) u by (auto simp: B_def)
qed

theorem bfree_frees_once_witness:
  "\<exists>s'. bfree 0 ROOTDEV 61 (idle_fs almost_full (\<lambda>_. zero_inode)) = Ok s' \<and> \<not> in_use s' 61 \<and> in_use s' 62 \<and>
     bfree 0 ROOTDEV 61 s' = Panic ''freeing free block''"
proof -
  let ?s = "idle_fs almost_full (\<lambda>_. zero_inode)"
  have t: "txn 0 (0 + 2) ?s" by (rule idle_txn) (simp_all add: almost_full_def get32_zeros)
  show ?thesis using bfree_frees_once [OF t almost_full_ok, of 61] almost_full_use [of 61] almost_full_use [of 62] by auto
qed

end
