(* ===== verification/Grep.thy ===== *)
theory Grep
  imports Prelude
begin

text \<open>
  The user program \<^verbatim>\<open>user/grep.c\<close>: the matcher for patterns of \<^verbatim>\<open>^\<close>, \<^verbatim>\<open>.\<close>, \<^verbatim>\<open>*\<close> and \<^verbatim>\<open>$\<close>, and the loop that reads a file
  through a buffer and writes the lines that match. Strings are the bytes before their NUL.
\<close>

section \<open>The matcher\<close>

definition chr_star :: uchar where [simp]: "chr_star = 42"
definition chr_dot :: uchar where [simp]: "chr_dot = 46"
definition chr_dollar :: uchar where [simp]: "chr_dollar = 36"
definition chr_caret :: uchar where [simp]: "chr_caret = 94"
definition newline :: uchar where [simp]: "newline = 10"

fun matchhere :: "uchar list \<Rightarrow> uchar list \<Rightarrow> bool" and matchstar :: "uchar \<Rightarrow> uchar list \<Rightarrow> uchar list \<Rightarrow> bool" where
  "matchhere [] str = True"
| "matchhere (c # re) str =
     (if re \<noteq> [] \<and> hd re = chr_star then matchstar c (tl re) str
      else if c = chr_dollar \<and> re = [] then str = []
      else case str of [] \<Rightarrow> False | t # ts \<Rightarrow> (c = chr_dot \<or> c = t) \<and> matchhere re ts)"
| "matchstar c re str =
     (matchhere re str \<or> (case str of [] \<Rightarrow> False | t # ts \<Rightarrow> (t = c \<or> c = chr_dot) \<and> matchstar c re ts))"

primrec match_from :: "uchar list \<Rightarrow> uchar list \<Rightarrow> bool" where
  "match_from re [] = matchhere re []"
| "match_from re (t # ts) = (matchhere re (t # ts) \<or> match_from re ts)"

definition match :: "uchar list \<Rightarrow> uchar list \<Rightarrow> bool" where
  "match re str = (if re \<noteq> [] \<and> hd re = chr_caret then matchhere (tl re) str else match_from re str)"

section \<open>The loop\<close>

text \<open>
  The inner loop on the bytes of the buffer: each complete line is matched and, if it matches, written; what is
  left is the line not yet complete. \<^verbatim>\<open>strchr()\<close> finds a newline only before the first NUL.
\<close>

function grep_lines :: "uchar list \<Rightarrow> uchar list \<Rightarrow> uchar list \<times> uchar list" where
  "grep_lines pattern b =
     (if newline \<in> set (takeWhile (\<lambda>c. c \<noteq> 0) b)
      then let line = takeWhile (\<lambda>c. c \<noteq> newline) b;
               (out, rest) = grep_lines pattern (drop (length line + 1) b)
           in (if match pattern line then line @ [newline] @ out else out, rest)
      else ([], b))"
  by pat_completeness auto
termination
proof (relation "measure (\<lambda>(pattern, b). length b)")
  fix pattern b :: "uchar list" and x
  assume "newline \<in> set (takeWhile (\<lambda>c. c \<noteq> 0) b)" "x = takeWhile (\<lambda>c. c \<noteq> newline) b"
  then show "((pattern, drop (length x + 1) b), (pattern, b)) \<in> measure (\<lambda>(pattern, b). length b)"
    by (cases b) auto
qed simp

definition bufsize :: nat where [simp]: "bufsize = 1024"

text \<open>
  The outer loop. \<open>buf\<close> holds the incomplete line, \<open>input\<close> is what the file still has. \<^verbatim>\<open>read()\<close> returns at least one
  byte unless there is no input or no room, and at most as many as there is room for; \<open>k\<close> says how many, by
  what is left.
\<close>

function grep :: "(nat \<Rightarrow> nat) \<Rightarrow> uchar list \<Rightarrow> uchar list \<Rightarrow> uchar list \<Rightarrow> uchar list" where
  "grep k pattern buf input =
     (let room = bufsize - length buf - 1; n = min (max 1 (k (length input))) (min room (length input)) in
      if n = 0 then []
      else let (out, rest) = grep_lines pattern (buf @ take n input) in out @ grep k pattern rest (drop n input))"
  by pat_completeness auto
termination by (relation "measure (\<lambda>(k, pattern, buf, input). length input)") auto

declare matchhere.simps(2) [simp del] matchstar.simps [simp del] grep_lines.simps [simp del] grep.simps [simp del]

section \<open>What a pattern means\<close>

text \<open>
  A pattern is a sequence of atoms: a character class, any number of characters of a class, or the end of the line.
\<close>

datatype atom = One uchar | Star uchar | EndOfLine

fun parse :: "uchar list \<Rightarrow> atom list" where
  "parse [] = []"
| "parse [c] = (if c = chr_dollar then [EndOfLine] else [One c])"
| "parse (c # d # re) = (if d = chr_star then Star c # parse re else One c # parse (d # re))"

definition accepts :: "uchar \<Rightarrow> uchar \<Rightarrow> bool" where
  "accepts c t \<longleftrightarrow> c = chr_dot \<or> c = t"

fun words :: "atom list \<Rightarrow> uchar list set" where
  "words [] = {[]}"
| "words (One c # as) = {t # w | t w. accepts c t \<and> w \<in> words as}"
| "words (Star c # as) = {us @ w | us w. (\<forall>u\<in>set us. accepts c u) \<and> w \<in> words as}"
| "words (EndOfLine # as) = words as"

definition anchored :: "atom list \<Rightarrow> bool" where
  "anchored as \<longleftrightarrow> EndOfLine \<in> set as"

text \<open>A pattern matches at the beginning of a str when it matches a prefix, or all of it if the pattern ends in \<^verbatim>\<open>$\<close>.\<close>

definition matches_prefix :: "atom list \<Rightarrow> uchar list \<Rightarrow> bool" where
  "matches_prefix as str \<longleftrightarrow> (\<exists>w suf. str = w @ suf \<and> w \<in> words as \<and> (anchored as \<longrightarrow> suf = []))"

lemma anchored_simps [simp]:
  "\<not> anchored []" "anchored (EndOfLine # as)" "anchored (One c # as) = anchored as" "anchored (Star c # as) = anchored as"
  by (simp_all add: anchored_def)

lemma matches_prefixI:
  "w \<in> words as \<Longrightarrow> (anchored as \<longrightarrow> suf = []) \<Longrightarrow> str = w @ suf \<Longrightarrow> matches_prefix as str"
  unfolding matches_prefix_def by blast

lemma matches_prefixE:
  assumes "matches_prefix as str"
  obtains w suf where "str = w @ suf" "w \<in> words as" "anchored as \<longrightarrow> suf = []"
  using assms unfolding matches_prefix_def by blast

lemma matches_prefix_simps:
  "matches_prefix [] str"
  "matches_prefix [EndOfLine] str \<longleftrightarrow> str = []"
  by (auto simp: matches_prefix_def)

lemma matches_prefix_One:
  "matches_prefix (One c # as) str \<longleftrightarrow> (case str of [] \<Rightarrow> False | t # ts \<Rightarrow> accepts c t \<and> matches_prefix as ts)"
  (is "_ \<longleftrightarrow> ?R")
proof
  assume "matches_prefix (One c # as) str"
  then obtain v suf where v: "str = v @ suf" "v \<in> words (One c # as)" "anchored (One c # as) \<longrightarrow> suf = []"
    by (rule matches_prefixE)
  then obtain t w where "v = t # w" "accepts c t" "w \<in> words as" by auto
  then show ?R using v by (auto intro: matches_prefixI [of w])
next
  assume ?R
  then obtain t ts where t: "str = t # ts" "accepts c t" "matches_prefix as ts" by (cases str) auto
  obtain w suf where "ts = w @ suf" "w \<in> words as" "anchored as \<longrightarrow> suf = []" using t(3) by (rule matches_prefixE)
  then show "matches_prefix (One c # as) str" using t by (intro matches_prefixI [of "t # w" _ suf]) auto
qed

lemma matches_prefix_star:
  "matches_prefix (Star c # as) str \<longleftrightarrow>
     matches_prefix as str \<or> (case str of [] \<Rightarrow> False | t # ts \<Rightarrow> accepts c t \<and> matches_prefix (Star c # as) ts)"
  (is "_ \<longleftrightarrow> _ \<or> ?R")
proof
  assume "matches_prefix (Star c # as) str"
  then obtain v suf where v: "str = v @ suf" "v \<in> words (Star c # as)" "anchored (Star c # as) \<longrightarrow> suf = []"
    by (rule matches_prefixE)
  then obtain us w where w: "v = us @ w" "\<forall>u\<in>set us. accepts c u" "w \<in> words as" by auto
  show "matches_prefix as str \<or> ?R"
  proof (cases us)
    case Nil
    then show ?thesis using v w by (auto intro: matches_prefixI [of w])
  next
    case (Cons u us')
    then have "us' @ w \<in> words (Star c # as)" using w(2,3) by auto
    then have "matches_prefix (Star c # as) ((us' @ w) @ suf)" using v(3) by (rule matches_prefixI) simp
    then show ?thesis using v(1) w Cons by simp
  qed
next
  assume "matches_prefix as str \<or> ?R"
  then show "matches_prefix (Star c # as) str"
  proof
    assume "matches_prefix as str"
    then obtain w suf where w: "str = w @ suf" "w \<in> words as" "anchored as \<longrightarrow> suf = []" by (rule matches_prefixE)
    then have "w \<in> words (Star c # as)" by (simp only: words.simps mem_Collect_eq) (rule exI [of _ "[]"], rule exI [of _ w], simp)
    then show ?thesis using w(3,1) by (intro matches_prefixI) simp_all
  next
    assume ?R
    then obtain t ts where t: "str = t # ts" "accepts c t" "matches_prefix (Star c # as) ts" by (cases str) auto
    obtain v suf where v: "ts = v @ suf" "v \<in> words (Star c # as)" "anchored (Star c # as) \<longrightarrow> suf = []"
      using t(3) by (rule matches_prefixE)
    then obtain us w where w: "v = us @ w" "\<forall>u\<in>set us. accepts c u" "w \<in> words as" by auto
    then have "t # v \<in> words (Star c # as)" using t(2)
      by (simp only: words.simps mem_Collect_eq) (rule exI [of _ "t # us"], rule exI [of _ w], simp)
    then show ?thesis using v(3) by (rule matches_prefixI) (simp add: t v)
  qed
qed

lemma match_correct:
  "matchhere re str \<longleftrightarrow> matches_prefix (parse re) str"
  "matchstar c re str \<longleftrightarrow> matches_prefix (Star c # parse re) str"
proof (induction re str and c re str rule: matchhere_matchstar.induct)
  case (1 str)
  then show ?case by (simp add: matches_prefix_simps)
next
  case (2 c re str)
  show ?case
  proof (cases "re \<noteq> [] \<and> hd re = chr_star")
    case True
    then obtain re' where "re = chr_star # re'" by (cases re) auto
    then show ?thesis using 2 by (simp add: matchhere.simps(2))
  next
    case no: False
    show ?thesis
    proof (cases "c = chr_dollar \<and> re = []")
      case True
      then show ?thesis by (simp add: matches_prefix_simps matchhere.simps(2))
    next
      case False
      then have "parse (c # re) = One c # parse re" using no by (cases re) auto
      moreover have "matchhere (c # re) str \<longleftrightarrow> (case str of [] \<Rightarrow> False | t # ts \<Rightarrow> accepts c t \<and> matchhere re ts)"
        using no False by (subst matchhere.simps(2)) (auto simp: accepts_def split: list.splits)
      ultimately show ?thesis using 2(2) [OF no False] by (simp add: matches_prefix_One split: list.splits)
    qed
  qed
next
  case (3 c re str)
  then show ?case
    by (subst matches_prefix_star, subst matchstar.simps) (auto simp: accepts_def split: list.splits)
qed

lemma match_from_suffix: "match_from re str \<longleftrightarrow> (\<exists>pre suf. str = pre @ suf \<and> matchhere re suf)"
proof (induction str)
  case (Cons t ts)
  have "(\<exists>pre suf. t # ts = pre @ suf \<and> matchhere re suf) \<longleftrightarrow> matchhere re (t # ts) \<or> (\<exists>pre suf. ts = pre @ suf \<and> matchhere re suf)"
    by (auto simp: Cons_eq_append_conv)
  then show ?case using Cons by simp
qed simp

text \<open>C36. The matcher implements the meaning of patterns: a pattern without \<^verbatim>\<open>^\<close> matches a line when some part of the line is a
  word of the pattern, which reaches to the end of the line if the pattern ends in \<^verbatim>\<open>$\<close>; with \<^verbatim>\<open>^\<close> the part starts at the
  beginning.\<close>

theorem match_iff:
  "match re str \<longleftrightarrow>
     (if re \<noteq> [] \<and> hd re = chr_caret
      then \<exists>w suf. str = w @ suf \<and> w \<in> words (parse (tl re)) \<and> (if anchored (parse (tl re)) then suf = [] else True)
      else \<exists>pre w suf. str = pre @ w @ suf \<and> w \<in> words (parse re) \<and> (if anchored (parse re) then suf = [] else True))"
  unfolding match_def match_from_suffix match_correct(1) matches_prefix_def by (auto split: if_splits)

section \<open>The output\<close>

definition unlines :: "uchar list list \<Rightarrow> uchar list" where
  "unlines ls = concat (map (\<lambda>l. l @ [newline]) ls)"

lemma unlines_simps [simp]: "unlines [] = []" "unlines (l # ls) = l @ newline # unlines ls" "unlines (ls @ ms) = unlines ls @ unlines ms"
  by (simp_all add: unlines_def)

lemma grep_lines_unlines:
  assumes "\<forall>l\<in>set ls. newline \<notin> set l \<and> 0 \<notin> set l" and "newline \<notin> set r"
  shows "grep_lines pattern (unlines ls @ r) = (unlines (filter (match pattern) ls), r)"
  using assms(1)
proof (induction ls)
  case Nil
  then show ?case using assms(2) by (subst grep_lines.simps) (auto dest: set_takeWhileD)
next
  case (Cons l ls)
  have "takeWhile (\<lambda>c. c \<noteq> newline) (l @ newline # unlines ls @ r) = l" using Cons.prems by (simp add: takeWhile_append)
  moreover have "newline \<in> set (takeWhile (\<lambda>c. c \<noteq> 0) (l @ newline # unlines ls @ r))"
    using Cons.prems by (subst takeWhile_append2) auto
  ultimately show ?case using Cons by (subst grep_lines.simps) (simp add: Let_def del: newline_def)
qed

lemma prefix_unlines:
  assumes "b @ c = unlines ls @ rest" and "newline \<notin> set rest"
  obtains ls1 ls2 r where "ls = ls1 @ ls2" "b = unlines ls1 @ r" "newline \<notin> set r \<or> (\<exists>l\<in>set ls. newline \<in> set l)" "r @ c = unlines ls2 @ rest"
  using assms
proof (induction ls arbitrary: b thesis)
  case Nil
  have "newline \<notin> set b" using Nil.prems(2,3) by (metis Un_iff set_append unlines_simps(1) append_Nil)
  then show ?case using Nil.prems(1) [of "[]" "[]" b] Nil.prems(2) by simp
next
  case (Cons l ls)
  show ?case
  proof (cases "length b \<le> length l")
    case True
    then obtain l' where "l = b @ l'" using Cons.prems(2) by (auto simp: append_eq_append_conv2)
    then have "newline \<notin> set b \<or> (\<exists>l\<in>set (l # ls). newline \<in> set l)" by auto
    then show ?thesis using Cons.prems(1) [of "[]" "l # ls" b] Cons.prems(2) by simp
  next
    case False
    then obtain us where us: "b = l @ us" "us @ c = newline # unlines ls @ rest" "us \<noteq> []"
      using Cons.prems(2) by (auto simp: append_eq_append_conv2)
    then obtain b' where b': "b = (l @ [newline]) @ b'" "b' @ c = unlines ls @ rest" by (cases us) auto
    show ?thesis
    proof (rule Cons.IH [OF _ b'(2) Cons.prems(3)])
      fix ls1 ls2 r
      assume "ls = ls1 @ ls2" "b' = unlines ls1 @ r" "newline \<notin> set r \<or> (\<exists>l\<in>set ls. newline \<in> set l)" "r @ c = unlines ls2 @ rest"
      then show thesis using Cons.prems(1) [of "l # ls1" ls2 r] b'(1) by auto
    qed
  qed
qed

lemma grep_loop:
  assumes "buf @ input = unlines ls @ rest" and "newline \<notin> set buf" and "newline \<notin> set rest" and "length rest < bufsize - 1"
    and "\<forall>l\<in>set ls. newline \<notin> set l \<and> 0 \<notin> set l \<and> length l < bufsize - 1"
  shows "grep k pattern buf input = unlines (filter (match pattern) ls)"
  using assms
proof (induction "length input" arbitrary: buf input ls rule: less_induct)
  case less
  have "length buf < 1023"
  proof (cases ls)
    case Nil
    then have "length buf + length input = length rest" using arg_cong [OF less.prems(1), of length] by simp
    then show ?thesis using less.prems(4) by simp
  next
    case (Cons l ls')
    have "length buf \<le> length l"
    proof (rule ccontr)
      assume "\<not> length buf \<le> length l"
      then obtain us where us: "buf = l @ us" "us @ input = newline # unlines ls' @ rest" "us \<noteq> []"
        using less.prems(1) Cons by (auto simp: append_eq_append_conv2)
      then have "newline \<in> set buf" by (cases us) auto
      then show False using less.prems(2) by simp
    qed
    then show ?thesis using less.prems(5) Cons by auto
  qed
  show ?case
  proof (cases "input = []")
    case True
    then have "ls = []" using less.prems(1,2) by (cases ls) auto
    then show ?thesis using True by (subst grep.simps) simp
  next
    case False
    define n where "n = min (max 1 (k (length input))) (min (bufsize - length buf - 1) (length input))"
    have n: "0 < n" "n \<le> length input" using False \<open>length buf < 1023\<close> by (auto simp: n_def)
    have eq: "(buf @ take n input) @ drop n input = unlines ls @ rest" using less.prems(1) by simp
    obtain ls1 ls2 r where p: "ls = ls1 @ ls2" "buf @ take n input = unlines ls1 @ r" "newline \<notin> set r" "r @ drop n input = unlines ls2 @ rest"
      using prefix_unlines [OF eq less.prems(3)] less.prems(5) by metis
    have g: "grep_lines pattern (buf @ take n input) = (unlines (filter (match pattern) ls1), r)"
      unfolding p(2) by (rule grep_lines_unlines) (use less.prems(5) p(1,3) in auto)
    have "grep k pattern r (drop n input) = unlines (filter (match pattern) ls2)"
      by (rule less.hyps) (use n p less.prems in auto)
    moreover have "grep k pattern buf input = unlines (filter (match pattern) ls1) @ grep k pattern r (drop n input)"
      unfolding grep.simps [of k pattern buf input] Let_def n_def [symmetric] using n g by simp
    ultimately show ?thesis using p(1) by simp
  qed
qed

text \<open>C37. However \<^verbatim>\<open>read()\<close> cuts the file into pieces, grep writes exactly the matching lines, in order, each with its newline, as long
  as no line is longer than the buffer holds; text after the last newline is ignored.\<close>

theorem grep_filters:
  assumes "\<forall>l\<in>set ls. newline \<notin> set l \<and> 0 \<notin> set l \<and> length l < bufsize - 1" and "newline \<notin> set rest" and "length rest < bufsize - 1"
  shows "grep k pattern [] (unlines ls @ rest) = unlines (filter (match pattern) ls)"
  by (rule grep_loop) (use assms in auto)

lemma grep_no_newline:
  assumes "newline \<notin> set buf" and "newline \<notin> set (take (bufsize - 1 - length buf) input)"
  shows "grep k pattern buf input = []"
  using assms
proof (induction "length input" arbitrary: buf input rule: less_induct)
  case less
  define n where "n = min (max 1 (k (length input))) (min (bufsize - length buf - 1) (length input))"
  show ?case
  proof (cases "n = 0")
    case True
    then show ?thesis unfolding grep.simps [of k pattern buf input] Let_def n_def [symmetric] by simp
  next
    case False
    have n: "n \<le> bufsize - 1 - length buf" "n \<le> length input" by (auto simp: n_def)
    have "set (take n input) \<subseteq> set (take (bufsize - 1 - length buf) input)" using n(1) by (rule set_take_subset_set_take)
    then have b: "newline \<notin> set (buf @ take n input)" using less.prems by auto
    then have g: "grep_lines pattern (buf @ take n input) = ([], buf @ take n input)"
      by (subst grep_lines.simps) (auto dest: set_takeWhileD)
    have "set (take (bufsize - 1 - length buf - n) (drop n input)) \<subseteq> set (take (bufsize - 1 - length buf) input)"
      by (metis drop_take set_drop_subset)
    then have "newline \<notin> set (take (bufsize - 1 - length (buf @ take n input)) (drop n input))" using less.prems(2) n by auto
    then have "grep k pattern (buf @ take n input) (drop n input) = []" using less.hyps b n False by simp
    then show ?thesis unfolding grep.simps [of k pattern buf input] Let_def n_def [symmetric] using g by simp
  qed
qed


theorem grep_filters_witness:
  "grep (\<lambda>_. 2) [97] [] (unlines [[98, 97], [99]] @ []) = unlines (filter (match [97]) [[98, 97], [99]])"
  by (rule grep_filters) simp_all


end
