(* ===== verification/Printf.thy ===== *)
theory Printf
  imports Prelude
begin

text \<open>
  Formatted output: \<^verbatim>\<open>user/printf.c\<close> and \<^verbatim>\<open>kernel/printk.c\<close>. What a routine writes is the list of the characters it
  passes to \<^verbatim>\<open>putc()\<close> or \<^verbatim>\<open>consputc()\<close>, in order. The file variable \<^verbatim>\<open>digits\<close>, which is upper case in the one file and
  lower case in the other, is an argument. \<open>None\<close> is an access outside \<^verbatim>\<open>buf\<close> or a \<^verbatim>\<open>va_arg\<close> with no argument of the
  kind that it asks for; the lemmas show that the first does not occur.
\<close>

section \<open>Numbers\<close>

definition chr_percent :: uchar where [simp]: "chr_percent = 37"
definition chr_minus :: uchar where [simp]: "chr_minus = 45"
definition chr_zero :: uchar where [simp]: "chr_zero = 48"

definition user_digits :: "uchar list" where
  "user_digits = [48, 49, 50, 51, 52, 53, 54, 55, 56, 57, 65, 66, 67, 68, 69, 70]"

definition kernel_digits :: "uchar list" where
  "kernel_digits = [48, 49, 50, 51, 52, 53, 54, 55, 56, 57, 97, 98, 99, 100, 101, 102]"

text \<open>
  The loop that fills \<^verbatim>\<open>buf\<close>, least significant digit first. \<open>room\<close> is how many elements of \<^verbatim>\<open>buf\<close> are left.
\<close>

primrec put_digits :: "nat \<Rightarrow> uchar list \<Rightarrow> uint64 \<Rightarrow> uint64 \<Rightarrow> uchar list option" where
  "put_digits 0 digits base x = None"
| "put_digits (Suc room) digits base x =
     (let d = digits ! unat (x mod base) in
      if x div base \<noteq> 0 then map_option (Cons d) (put_digits room digits base (x div base)) else Some [d])"

definition printint_buf :: nat where [simp]: "printint_buf = 20"

definition printint :: "uchar list \<Rightarrow> uint64 \<Rightarrow> uint64 \<Rightarrow> bool \<Rightarrow> uchar list option" where
  "printint digits xx base sg =
     (let neg = sg \<and> sint xx < 0; x = if neg then - xx else xx in
      case put_digits printint_buf digits base x of
        None \<Rightarrow> None
      | Some buf \<Rightarrow> if \<not> neg then Some (rev buf)
                   else if length buf < printint_buf then Some (rev (buf @ [chr_minus])) else None)"

primrec printptr_loop :: "nat \<Rightarrow> uchar list \<Rightarrow> uint64 \<Rightarrow> uchar list" where
  "printptr_loop 0 digits x = []"
| "printptr_loop (Suc i) digits x = digits ! unat (drop_bit 60 x) # printptr_loop i digits (push_bit 4 x)"

definition printptr :: "uchar list \<Rightarrow> uint64 \<Rightarrow> uchar list" where
  "printptr digits x = [48, 120] @ printptr_loop 16 digits x"

section \<open>Conversions\<close>

text \<open>
  An argument of the call: an integer, as the register that carries it, or a string. \<open>fmt_conv\<close> is the chain of
  comparisons on \<^verbatim>\<open>c0\<close>, \<^verbatim>\<open>c1\<close> and \<^verbatim>\<open>c2\<close>, with how far it moves \<^verbatim>\<open>i\<close>.
\<close>

datatype va = Num uint64 | Str "uchar list option"

datatype conv = Cint | Clong uint64 bool | Cuint uint64 | Cptr | Cchar | Cstr | Cpercent | Cunknown uchar

definition fmt_conv :: "uchar \<Rightarrow> uchar \<Rightarrow> uchar \<Rightarrow> conv \<times> nat" where
  "fmt_conv c0 c1 c2 =
     (if c0 = 100 then (Cint, 0)
      else if c0 = 108 \<and> c1 = 100 then (Clong 10 True, 1)
      else if c0 = 108 \<and> c1 = 108 \<and> c2 = 100 then (Clong 10 True, 2)
      else if c0 = 117 then (Cuint 10, 0)
      else if c0 = 108 \<and> c1 = 117 then (Clong 10 False, 1)
      else if c0 = 108 \<and> c1 = 108 \<and> c2 = 117 then (Clong 10 False, 2)
      else if c0 = 120 then (Cuint 16, 0)
      else if c0 = 108 \<and> c1 = 120 then (Clong 16 False, 1)
      else if c0 = 108 \<and> c1 = 108 \<and> c2 = 120 then (Clong 16 False, 2)
      else if c0 = 112 then (Cptr, 0)
      else if c0 = 99 then (Cchar, 0)
      else if c0 = 115 then (Cstr, 0)
      else if c0 = chr_percent then (Cpercent, 0)
      else (Cunknown c0, 0))"

definition null_str :: "uchar list" where
  "null_str = [40, 110, 117, 108, 108, 41]"

definition sext32 :: "uint64 \<Rightarrow> uint64" where "sext32 n = word_of_int (sint (ucast n :: uint))"
definition zext32 :: "uint64 \<Rightarrow> uint64" where "zext32 n = ucast (ucast n :: uint)"

text \<open>What a conversion writes, and the arguments that are left: through \<^verbatim>\<open>putc()\<close>, and through \<^verbatim>\<open>consputc()\<close>.\<close>

definition print_num :: "uchar list \<Rightarrow> conv \<Rightarrow> uint64 \<Rightarrow> uchar list option" where
  "print_num digits cv n =
     (case cv of Cint \<Rightarrow> printint digits (sext32 n) 10 True
      | Clong base sg \<Rightarrow> printint digits n base sg
      | Cuint base \<Rightarrow> printint digits (zext32 n) base False
      | Cptr \<Rightarrow> Some (printptr digits n)
      | _ \<Rightarrow> None)"

fun vprintf_conv :: "uchar list \<Rightarrow> conv \<Rightarrow> va list \<Rightarrow> (uchar list \<times> va list) option" where
  "vprintf_conv digits Cpercent ap = Some ([chr_percent], ap)"
| "vprintf_conv digits (Cunknown c0) ap = Some ([chr_percent, c0], ap)"
| "vprintf_conv digits Cstr (Str s # ap) = Some (case s of None \<Rightarrow> null_str | Some s \<Rightarrow> s, ap)"
| "vprintf_conv digits Cchar (Num n # ap) = Some ([ucast n], ap)"
| "vprintf_conv digits cv (Num n # ap) = map_option (\<lambda>out. (out, ap)) (print_num digits cv n)"
| "vprintf_conv digits cv ap = None"

fun printk_conv :: "uchar list \<Rightarrow> conv \<Rightarrow> va list \<Rightarrow> (int list \<times> va list) option" where
  "printk_conv digits Cpercent ap = Some ([uint chr_percent], ap)"
| "printk_conv digits (Cunknown c0) ap = Some ([uint chr_percent, uint c0], ap)"
| "printk_conv digits Cstr (Str s # ap) = Some (map uint (case s of None \<Rightarrow> null_str | Some s \<Rightarrow> s), ap)"
| "printk_conv digits Cchar (Num n # ap) = Some ([sint (ucast n :: uint)], ap)"
| "printk_conv digits cv (Num n # ap) = map_option (\<lambda>out. (map uint out, ap)) (print_num digits cv n)"
| "printk_conv digits cv ap = None"

section \<open>The format\<close>

text \<open>
  \<^verbatim>\<open>vprintf()\<close> goes through the format one character at a time, with \<^verbatim>\<open>state\<close> telling if the last one was a \<^verbatim>\<open>%\<close>;
  \<open>peek\<close> is the character at an offset, the NUL past the end. \<^verbatim>\<open>printk()\<close> reads the character after a \<^verbatim>\<open>%\<close> at once.
\<close>

definition peek :: "uchar list \<Rightarrow> nat \<Rightarrow> uchar" where
  "peek str i = (if i < length str then str ! i else 0)"

definition fmt_next :: "uchar \<Rightarrow> uchar list \<Rightarrow> conv \<times> nat" where
  "fmt_next c0 rest = (let c1 = peek rest 0; c2 = if c1 \<noteq> 0 then peek rest 1 else 0 in fmt_conv c0 c1 c2)"

function vprintf_loop :: "uchar list \<Rightarrow> bool \<Rightarrow> uchar list \<Rightarrow> va list \<Rightarrow> uchar list option" where
  "vprintf_loop digits state [] ap = Some []"
| "vprintf_loop digits False (c0 # rest) ap =
     (if c0 = chr_percent then vprintf_loop digits True rest ap
      else map_option (Cons c0) (vprintf_loop digits False rest ap))"
| "vprintf_loop digits True (c0 # rest) ap =
     (let (cv, skip) = fmt_next c0 rest in
      case vprintf_conv digits cv ap of
        None \<Rightarrow> None
      | Some (out, ap') \<Rightarrow> map_option ((@) out) (vprintf_loop digits False (drop skip rest) ap'))"
  by pat_completeness auto
termination by (relation "measure (\<lambda>(digits, state, fmt, ap). length fmt)") auto

definition vprintf :: "uchar list \<Rightarrow> va list \<Rightarrow> uchar list option" where
  "vprintf fmt ap = vprintf_loop user_digits False fmt ap"

function printk_loop :: "uchar list \<Rightarrow> uchar list \<Rightarrow> va list \<Rightarrow> int list option" where
  "printk_loop digits [] ap = Some []"
| "printk_loop digits (cx # fmt) ap =
     (if cx \<noteq> chr_percent then map_option (Cons (uint cx)) (printk_loop digits fmt ap)
      else case fmt of
        [] \<Rightarrow> Some []
      | c0 # rest \<Rightarrow>
          let (cv, skip) = fmt_next c0 rest in
          case printk_conv digits cv ap of
            None \<Rightarrow> None
          | Some (out, ap') \<Rightarrow> map_option ((@) out) (printk_loop digits (drop skip rest) ap'))"
  by pat_completeness auto
termination by (relation "measure (\<lambda>(digits, fmt, ap). length fmt)") auto

definition printk :: "uchar list \<Rightarrow> va list \<Rightarrow> int list option" where
  "printk fmt ap = printk_loop kernel_digits fmt ap"

text \<open>What \<^verbatim>\<open>panic()\<close> writes before it stops: \<^verbatim>\<open>"panic: "\<close>, the message and a newline.\<close>

definition panic :: "uchar list \<Rightarrow> int list option" where
  "panic s =
     (case printk [112, 97, 110, 105, 99, 58, 32] [] of
        None \<Rightarrow> None
      | Some out \<Rightarrow> map_option ((@) out) (printk [37, 115, 10] [Str (Some s)]))"

definition BACKSPACE :: int where [simp]: "BACKSPACE = 256"

text \<open>The bytes that \<^verbatim>\<open>consputc()\<close> of \<^verbatim>\<open>kernel/console.c\<close> sends to the UART.\<close>

definition consputc :: "int \<Rightarrow> uchar list" where
  "consputc c = (if c = BACKSPACE then [8, 32, 8] else [word_of_int c])"

declare vprintf_loop.simps [simp del] printk_loop.simps [simp del]

section \<open>Numbers in a base\<close>

text \<open>The numeral of a number, most significant digit first.\<close>

function radix :: "uchar list \<Rightarrow> nat \<Rightarrow> nat \<Rightarrow> uchar list" where
  "radix digits b n = (if n < b \<or> b < 2 then [digits ! n] else radix digits b (n div b) @ [digits ! (n mod b)])"
  by pat_completeness auto
termination by (relation "measure (\<lambda>(digits, b, n). n)") auto

declare radix.simps [simp del]

lemma length_radix: "2 \<le> b \<Longrightarrow> n < b ^ Suc k \<Longrightarrow> length (radix digits b n) \<le> Suc k"
proof (induction k arbitrary: n)
  case 0
  then show ?case by (simp add: radix.simps [of digits b n])
next
  case (Suc k)
  have "n div b < b ^ Suc k"
    using Suc.prems by (simp add: less_mult_imp_div_less mult.commute)
  from Suc.IH [OF Suc.prems(1) this] show ?case by (simp add: radix.simps [of digits b n])
qed

lemma put_digits_radix:
  assumes "2 \<le> unat base" and "unat x < unat base ^ Suc room"
  shows "put_digits (Suc room) digits base x = Some (rev (radix digits (unat base) (unat x)))"
  using assms(2)
proof (induction room arbitrary: x)
  case 0
  then show ?case
    by (simp add: radix.simps [of digits _ "unat x"] unat_mod word_unat_eq_iff unat_div)
next
  case (Suc room)
  have d: "unat (x div base) = unat x div unat base" by (simp add: unat_div)
  have "unat (x div base) < unat base ^ Suc room"
    using Suc.prems by (simp add: d less_mult_imp_div_less mult.commute)
  note ih = Suc.IH [OF this]
  have z: "x div base = 0 \<longleftrightarrow> unat x < unat base"
    using assms(1) by (simp add: word_unat_eq_iff d div_eq_0_iff)
  show ?case
    by (subst put_digits.simps, subst radix.simps)
      (use assms(1) in \<open>auto simp only: Let_def ih z if_True if_False d unat_mod not_less option.map rev.simps rev_append
         append.simps not_True_eq_False not_False_eq_True simp_thms mod_less split: if_splits\<close>)
qed

lemma unat_minus_sint: "sint (x :: uint64) < 0 \<Longrightarrow> unat (- x) = nat (- sint x) \<and> nat (- sint x) \<le> 2 ^ 63"
proof -
  assume n: "sint x < 0"
  have r: "0 \<le> - sint x" "- sint x \<le> 2 ^ 63" using n sint_ge [of x] by simp_all
  have "- x = word_of_int (- sint x)" by simp
  moreover have "uint (word_of_int k :: uint64) = take_bit 64 k" for k
    by (simp add: unsigned_of_int)
  ultimately have "uint (- x) = take_bit 64 (- sint x)" by metis
  then have "uint (- x) = - sint x" using r by (simp add: take_bit_int_eq_self_iff)
  with r show ?thesis by (simp add: unat_eq_nat_uint)
qed

lemma put_digits_buf:
  assumes "base = 10 \<or> base = 16"
  shows "put_digits printint_buf digits base x = Some (rev (radix digits (unat base) (unat x)))"
proof -
  have n: "printint_buf = Suc 19" by simp
  have "2 \<le> unat base" and "unat x < unat base ^ Suc 19"
    using assms unsigned_less [of x, where ?'a = nat] by auto
  then show ?thesis unfolding n by (rule put_digits_radix)
qed

lemma printint_radix:
  assumes "base = 10 \<or> base = 16"
  shows "printint digits xx base sg =
    Some (if sg \<and> sint xx < 0 then chr_minus # radix digits (unat base) (nat (- sint xx)) else radix digits (unat base) (unat xx))"
proof (cases "sg \<and> sint xx < 0")
  case True
  have m: "unat (- xx) = nat (- sint xx)" "nat (- sint xx) \<le> 2 ^ 63"
    using unat_minus_sint [of xx] True by simp_all
  have b: "2 \<le> unat base" using assms by auto
  have u: "nat (- sint xx) < unat base ^ Suc 18"
    using m(2) assms by auto
  have "length (radix digits (unat base) (nat (- sint xx))) \<le> Suc 18"
    by (rule length_radix [OF b u])
  then show ?thesis
    using True by (simp add: printint_def put_digits_buf [OF assms] m(1) del: printint_buf_def) simp
next
  case False
  then show ?thesis
    by (simp add: printint_def put_digits_buf [OF assms] del: printint_buf_def) auto
qed

section \<open>printk() and vprintf()\<close>

lemma ucast_sint_ucast: "(scast (ucast (n :: uint64) :: uint) :: uchar) = ucast n"
  by transfer (simp add: take_bit_signed_take_bit)

lemma conv_agree:
  "vprintf_conv digits cv ap = map_option (\<lambda>(out, ap'). (map word_of_int out, ap')) (printk_conv digits cv ap)"
  by (cases "(digits, cv, ap)" rule: printk_conv.cases)
    (auto simp: ucast_sint_ucast option.map_comp comp_def split: option.splits)

lemma printk_loop_vprintf:
  "vprintf_loop digits False fmt ap = map_option (map word_of_int) (printk_loop digits fmt ap)"
proof (induction digits fmt ap rule: printk_loop.induct)
  case (1 digits ap)
  show ?case by (simp add: vprintf_loop.simps printk_loop.simps)
next
  case (2 digits cx fmt ap)
  show ?case
    apply (subst vprintf_loop.simps, subst printk_loop.simps)
    using 2 by (auto simp: option.map_comp comp_def conv_agree vprintf_loop.simps split: list.splits option.splits prod.splits)
qed

lemma consputc_bytes: "BACKSPACE \<notin> set out \<Longrightarrow> concat (map consputc out) = map word_of_int out"
  by (induction out) (auto simp: consputc_def)


section \<open>Properties\<close>

text \<open>C31. \<^verbatim>\<open>printint()\<close> in base 10 or 16 stays within its buffer of 20 characters and writes the numeral of its argument:
  the digits of the value without leading zeros, most significant first, after a minus sign if the number is signed
  and negative, the least 64-bit number included.\<close>

theorem printint_numeral:
  assumes "base = 10 \<or> base = 16"
  shows "printint digits xx base sg =
    Some (if sg \<and> sint xx < 0 then chr_minus # radix digits (unat base) (nat (- sint xx)) else radix digits (unat base) (unat xx))"
  by (rule printint_radix [OF assms])

lemma sint_least: "sint (0x8000000000000000 :: uint64) = - 9223372036854775808"
  by (simp add: sint_numeral signed_take_bit_numeral_bit0)

theorem printint_numeral_witness:
  "printint user_digits 0x8000000000000000 10 True =
    Some [45, 57, 50, 50, 51, 51, 55, 50, 48, 51, 54, 56, 53, 52, 55, 55, 53, 56, 48, 56] \<and>
   printint kernel_digits 0xbeef 16 False = Some [98, 101, 101, 102]"
  using printint_numeral [of 10 user_digits "0x8000000000000000" True] printint_numeral [of 16 kernel_digits "0xbeef" False]
  by (simp add: sint_least radix.simps user_digits_def kernel_digits_def)

text \<open>C32. \<^verbatim>\<open>printk()\<close> and the user's \<^verbatim>\<open>vprintf()\<close> read a format in two different ways, one character at a time and by
  looking ahead, and yet write the same characters for the same table of digits, or both run out of arguments; the
  console receives the same bytes unless a \<^verbatim>\<open>%c\<close> argument is the code that \<^verbatim>\<open>consputc()\<close> takes for an erase.\<close>

theorem printk_vprintf:
  "vprintf_loop digits False fmt ap = map_option (map word_of_int) (printk_loop digits fmt ap) \<and>
   (\<forall>out. printk_loop digits fmt ap = Some out \<and> BACKSPACE \<notin> set out \<longrightarrow>
      vprintf_loop digits False fmt ap = Some (concat (map consputc out)))"
  using consputc_bytes by (auto simp: printk_loop_vprintf)

lemma sext32_minus_1: "sext32 (- 1) = - 1"
  by code_simp

theorem printk_vprintf_witness:
  "vprintf [80, 73, 68, 61, 37, 100, 32, 37, 115, 37, 37, 10] [Num (- 1), Str None] =
     Some [80, 73, 68, 61, 45, 49, 32, 40, 110, 117, 108, 108, 41, 37, 10] \<and>
   printk [37, 99] [Num 256] = Some [256] \<and> concat (map consputc [256]) \<noteq> [0]"
  using printk_vprintf [of user_digits "[80, 73, 68, 61, 37, 100, 32, 37, 115, 37, 37, 10]" "[Num (- 1), Str None]"]
  by (simp add: vprintf_def printk_def printk_loop.simps fmt_next_def fmt_conv_def peek_def print_num_def printint_radix
     sext32_minus_1 radix.simps user_digits_def null_str_def consputc_def)

end
