(* ===== verification/Ulib.thy ===== *)
theory Ulib
  imports Kstring Printf
begin

text \<open>
  The user library \<^verbatim>\<open>user/ulib.c\<close>. Routines that only read strings work on the bytes before the NUL; routines that
  write work on the memory of the process, with the loops of \<^verbatim>\<open>memmove()\<close> shared with the kernel's routine of that name.
  The bytes that \<^verbatim>\<open>read()\<close> delivers one at a time to \<^verbatim>\<open>gets()\<close> are an argument, as are the system calls of \<^verbatim>\<open>stat()\<close>.
\<close>

section \<open>Strings\<close>

text \<open>\<^verbatim>\<open>strcpy()\<close> stops after copying a NUL; with none it does not return.\<close>

partial_function (option) strcpy :: "mem \<Rightarrow> uint64 \<Rightarrow> uint64 \<Rightarrow> mem option" where
  "strcpy m s t = (let m = m(s := m t) in if m s \<noteq> 0 then strcpy m (s + 1) (t + 1) else Some m)"

fun strcmp :: "uchar list \<Rightarrow> uchar list \<Rightarrow> int" where
  "strcmp [] [] = 0"
| "strcmp [] (d # q) = - uint d"
| "strcmp (c # p) [] = uint c"
| "strcmp (c # p) (d # q) = (if c = d then strcmp p q else uint c - uint d)"

definition ustrlen :: "uchar list \<Rightarrow> uint" where
  "ustrlen str = of_nat (length str)"

fun strchr :: "uchar list \<Rightarrow> uchar \<Rightarrow> uchar list option" where
  "strchr [] c = None"
| "strchr (d # str) c = (if d = c then Some (d # str) else strchr str c)"

text \<open>\<^verbatim>\<open>gets()\<close>: what it leaves in \<^verbatim>\<open>buf\<close> before the NUL, and the input that is left. \<open>k\<close> is the room for characters.\<close>

fun gets_loop :: "nat \<Rightarrow> uchar list \<Rightarrow> uchar list \<times> uchar list" where
  "gets_loop 0 inp = ([], inp)"
| "gets_loop (Suc k) [] = ([], [])"
| "gets_loop (Suc k) (c # inp) =
     (if c = 10 \<or> c = 13 then ([c], inp) else let (buf, inp) = gets_loop k inp in (c # buf, inp))"

definition gets :: "int \<Rightarrow> uchar list \<Rightarrow> uchar list \<times> uchar list" where
  "gets mx inp = gets_loop (nat (mx - 1)) inp"

fun atoi_loop :: "uint \<Rightarrow> uchar list \<Rightarrow> uint" where
  "atoi_loop n [] = n"
| "atoi_loop n (c # str) = (if 48 \<le> c \<and> c \<le> 57 then atoi_loop (n * 10 + ucast c - 48) str else n)"

definition atoi :: "uchar list \<Rightarrow> uint" where
  "atoi str = atoi_loop 0 str"

text \<open>\<^verbatim>\<open>stat()\<close> over the system calls \<^verbatim>\<open>open()\<close>, \<^verbatim>\<open>fstat()\<close> and \<^verbatim>\<open>close()\<close>.\<close>

definition ustat :: "('s \<Rightarrow> int \<times> 's) \<Rightarrow> (int \<Rightarrow> 's \<Rightarrow> int \<times> 's) \<Rightarrow> (int \<Rightarrow> 's \<Rightarrow> 's) \<Rightarrow> 's \<Rightarrow> int \<times> 's" where
  "ustat openf fstatf closef s =
     (let (fd, s) = openf s in
      if fd < 0 then (-1, s) else let (r, s) = fstatf fd s in (r, closef fd s))"

section \<open>Memory\<close>

primrec umemset :: "mem \<Rightarrow> uint64 \<Rightarrow> uchar \<Rightarrow> nat \<Rightarrow> mem" where
  "umemset m dst c 0 = m"
| "umemset m dst c (Suc i) = (umemset m dst c i)(dst + of_nat i := c)"

definition umemmove :: "mem \<Rightarrow> uint64 \<Rightarrow> uint64 \<Rightarrow> int \<Rightarrow> mem" where
  "umemmove m dst src n =
     (if src > dst then move_up (nat n) m dst src else move_down (nat n) m (dst + of_int n) (src + of_int n))"

primrec umemcmp :: "mem \<Rightarrow> uint64 \<Rightarrow> uint64 \<Rightarrow> nat \<Rightarrow> int" where
  "umemcmp m p1 p2 0 = 0"
| "umemcmp m p1 p2 (Suc n) = (if m p1 \<noteq> m p2 then uint (m p1) - uint (m p2) else umemcmp m (p1 + 1) (p2 + 1) n)"

definition umemcpy :: "mem \<Rightarrow> uint64 \<Rightarrow> uint64 \<Rightarrow> uint \<Rightarrow> mem" where
  "umemcpy m dst src n = umemmove m dst src (sint n)"

section \<open>Numbers in and out\<close>

lemma atoi_loop_digits:
  "(\<And>d. d \<in> set ds \<Longrightarrow> d < 10) \<Longrightarrow>
   atoi_loop n (map (\<lambda>d. user_digits ! d) ds) = foldl (\<lambda>n d. n * 10 + of_nat d) n ds"
proof (induction ds arbitrary: n)
  case (Cons d ds)
  have "d \<in> {0, 1, 2, 3, 4, 5, 6, 7, 8, 9}" using Cons.prems [of d] by auto
  then have "48 \<le> user_digits ! d \<and> user_digits ! d \<le> 57 \<and> (ucast (user_digits ! d) :: uint) - 48 = of_nat d"
    by (auto simp: user_digits_def)
  then show ?case using Cons by (simp add: add_diff_eq [symmetric])
qed simp

text \<open>The digits of a decimal numeral.\<close>

lemma radix_digits:
  "\<exists>ds. (\<forall>d\<in>set ds. d < 10) \<and> radix user_digits 10 n = map (\<lambda>d. user_digits ! d) ds \<and>
     foldl (\<lambda>n d. n * 10 + of_nat d) 0 ds = (of_nat n :: uint)"
proof (induction n rule: less_induct)
  case (less n)
  show ?case
  proof (cases "n < 10")
    case True
    then show ?thesis by (intro exI [of _ "[n]"]) (simp add: radix.simps)
  next
    case False
    then obtain ds where ds: "\<forall>d\<in>set ds. d < 10" "radix user_digits 10 (n div 10) = map (\<lambda>d. user_digits ! d) ds"
      "foldl (\<lambda>n d. n * 10 + of_nat d) 0 ds = (of_nat (n div 10) :: uint)" using less.IH [of "n div 10"] by auto
    have "of_nat (n div 10) * 10 + of_nat (n mod 10) = (of_nat (n div 10 * 10 + n mod 10) :: uint)"
      by (simp only: of_nat_add of_nat_mult of_nat_numeral)
    then have "of_nat (n div 10) * 10 + of_nat (n mod 10) = (of_nat n :: uint)" by (simp only: div_mult_mod_eq)
    then show ?thesis using ds False
      by (intro exI [of _ "ds @ [n mod 10]"]) (auto simp: radix.simps [of _ _ n])
  qed
qed

lemma atoi_radix: "atoi (radix user_digits 10 n) = of_nat n"
proof -
  obtain ds where "\<forall>d\<in>set ds. d < 10" "radix user_digits 10 n = map (\<lambda>d. user_digits ! d) ds"
    "foldl (\<lambda>n d. n * 10 + of_nat d) 0 ds = (of_nat n :: uint)" using radix_digits by blast
  then show ?thesis by (simp add: atoi_def atoi_loop_digits)
qed

lemma vprintf_d: "vprintf [37, 100] [Num n] = printint user_digits (sext32 n) 10 True"
  by (simp add: vprintf_def vprintf_loop.simps fmt_next_def fmt_conv_def peek_def print_num_def option.map_comp comp_def
      split: option.splits)

lemma ucast_scast_up: "(ucast (scast (y :: uint) :: uint64) :: uint) = y"
  by transfer (simp add: take_bit_signed_take_bit)

text \<open>C33. What \<^verbatim>\<open>printf("%d")\<close> writes for an \<^verbatim>\<open>int\<close> that is not negative, \<^verbatim>\<open>atoi()\<close> reads back as the same \<^verbatim>\<open>int\<close>; for a negative
  one it writes a minus sign and the numeral of the absolute value, which \<^verbatim>\<open>atoi()\<close> does not understand and reads as 0.\<close>

theorem printf_atoi:
  "\<exists>out. vprintf [37, 100] [Num n] = Some out \<and>
     atoi out = (if 0 \<le> sint (ucast n :: uint) then ucast n else 0)"
proof -
  let ?i = "sint (ucast n :: uint)"
  have s: "sint (sext32 n) = ?i"
    unfolding sext32_def by (simp add: sint_up_scast is_up)
  note p = printint_radix [of 10 user_digits "sext32 n" True]
  show ?thesis
  proof (cases "?i < 0")
    case True
    then show ?thesis using p by (simp add: vprintf_d s atoi_def)
  next
    case False
    have "of_nat (unat (sext32 n)) = (ucast n :: uint)"
      by (simp add: sext32_def ucast_scast_up of_nat_unat)
    then show ?thesis using p False by (simp add: vprintf_d s atoi_radix)
  qed
qed

section \<open>memmove()\<close>

lemma umemmove_apply:
  assumes "unat dst + n < 2 ^ 64" and "unat src + n < 2 ^ 64"
  shows "umemmove m dst src (int n) a = (if unat (a - dst) < n then m (src + (a - dst)) else m a)"
proof (cases "src > dst")
  case True
  have "unat (src - dst) = unat src - unat dst" using True by (intro unat_sub) auto
  then have "n \<le> unat (dst - src)" using assms True unat_diff_reverse [of dst src] by auto
  then have "move_up n m dst src a = (if unat (a - dst) < n then m (src + (a - dst)) else m a)"
    using assms by (intro move_up_apply) auto
  then show ?thesis using True by (simp add: umemmove_def)
next
  case False
  show ?thesis
  proof (cases "n = 0")
    case True
    then show ?thesis using False by (simp add: umemmove_def)
  next
    case n: False
    have "unat (dst - src) = unat dst - unat src" using False by (intro unat_sub) auto
    then have "dst = src \<or> n \<le> unat (src - dst)"
      using assms False unat_diff_reverse [of src dst] by (cases "dst = src") auto
    then have "dst + of_nat n = src + of_nat n \<or> n \<le> unat ((src + of_nat n) - (dst + of_nat n))" by auto
    then have "move_down n m (dst + of_nat n) (src + of_nat n) a =
        (if unat (dst + of_nat n - 1 - a) < n then m (src + of_nat n - (dst + of_nat n - a)) else m a)"
      using assms by (intro move_down_apply) auto
    moreover have "dst + of_nat n - 1 - a = of_nat n - 1 - (a - dst)"
      and "src + of_nat n - (dst + of_nat n - a) = src + (a - dst)" by simp_all
    ultimately show ?thesis
      using False n assms unat_reflect_less [of n "a - dst"] by (simp add: umemmove_def)
  qed
qed

text \<open>C34. The user's \<^verbatim>\<open>memmove()\<close>, which compares only the two addresses, has on every pair of regions, overlapping or not, the
  effect of the kernel's, which tests for overlap: the bytes that were at \<^verbatim>\<open>src\<close> are at \<^verbatim>\<open>dst\<close> and nothing else changes.\<close>

theorem umemmove_memmove:
  assumes "unat dst + n < 2 ^ 64" and "unat src + n < 2 ^ 64"
  shows "umemmove m dst src (int n) = memmove m dst src n \<and>
    (\<forall>a. umemmove m dst src (int n) a = (if unat (a - dst) < n then m (src + (a - dst)) else m a))"
  using umemmove_apply [OF assms] memmove_apply [OF assms] by (simp add: fun_eq_iff)

theorem umemmove_memmove_witness:
  "umemmove (\<lambda>a. ucast a) 4096 4098 4 4097 = 3 \<and> umemmove (\<lambda>a. ucast a) 4098 4096 4 4101 = 3"
proof -
  have "\<forall>a. umemmove (\<lambda>a. ucast a) 4096 4098 (int 4) a = (if unat (a - 4096) < 4 then ucast (4098 + (a - 4096)) else ucast a)"
    by (rule umemmove_memmove [THEN conjunct2]) simp_all
  moreover have "\<forall>a. umemmove (\<lambda>a. ucast a) 4098 4096 (int 4) a = (if unat (a - 4098) < 4 then ucast (4096 + (a - 4098)) else ucast a)"
    by (rule umemmove_memmove [THEN conjunct2]) simp_all
  ultimately show ?thesis by simp
qed

end
