(* ===== verification/Console.thy ===== *)
theory Console
  imports Pipe_Props Printf Trap
begin

text \<open>
  The console: \<^verbatim>\<open>kernel/console.c\<close>, \<^verbatim>\<open>kernel/uart.c\<close> and \<^verbatim>\<open>procdump()\<close> of \<^verbatim>\<open>kernel/proc.c\<close>. The state gains the input buffer \<^verbatim>\<open>cons\<close>, the bytes
  written to the UART's transmit register so far, and \<^verbatim>\<open>tx_busy\<close>. What the UART says when its status register is read is
  an argument of the routines that read it. Each routine runs with its lock held and is atomic; a routine that
  would sleep is \<open>Blocked\<close>. \<open>uart_step\<close> describes writers that sleep and are resumed by interrupts.
\<close>

section \<open>The state\<close>

definition INPUT_BUF_SIZE :: nat where [simp]: "INPUT_BUF_SIZE = 128"

record cons_buf =
  cbuf :: "uchar list"
  cr :: uint
  cw :: uint
  ce :: uint

record console = kernel +
  cons :: cons_buf
  uart_out :: "uchar list"
  tx_busy :: bool

definition consputs :: "int list \<Rightarrow> 'a console_scheme \<Rightarrow> 'a console_scheme" where
  "consputs cs s = s\<lparr>uart_out := uart_out s @ concat (map consputc cs)\<rparr>"

section \<open>uart.c\<close>

text \<open>
  \<^verbatim>\<open>uartinit()\<close> is the sequence of its writes to the registers, each a register number and a value.
\<close>

definition RHR :: nat where [simp]: "RHR = 0"
definition THR :: nat where [simp]: "THR = 0"
definition IER :: nat where [simp]: "IER = 1"
definition FCR :: nat where [simp]: "FCR = 2"
definition LCR :: nat where [simp]: "LCR = 3"
definition LSR :: nat where [simp]: "LSR = 5"
definition IER_RX_ENABLE :: uchar where [simp]: "IER_RX_ENABLE = 1"
definition IER_TX_ENABLE :: uchar where [simp]: "IER_TX_ENABLE = 2"
definition FCR_FIFO_ENABLE :: uchar where [simp]: "FCR_FIFO_ENABLE = 1"
definition FCR_FIFO_CLEAR :: uchar where [simp]: "FCR_FIFO_CLEAR = 6"
definition LCR_EIGHT_BITS :: uchar where [simp]: "LCR_EIGHT_BITS = 3"
definition LCR_BAUD_LATCH :: uchar where [simp]: "LCR_BAUD_LATCH = 128"
definition LSR_RX_READY :: uchar where [simp]: "LSR_RX_READY = 1"
definition LSR_TX_IDLE :: uchar where [simp]: "LSR_TX_IDLE = 32"

definition uartinit :: "(nat \<times> uchar) list" where
  "uartinit = [(IER, 0), (LCR, LCR_BAUD_LATCH), (0, 3), (1, 0), (LCR, LCR_EIGHT_BITS),
     (FCR, FCR_FIFO_ENABLE OR FCR_FIFO_CLEAR), (IER, IER_TX_ENABLE OR IER_RX_ENABLE)]"

primrec uartwrite :: "uchar list \<Rightarrow> 'a console_scheme \<Rightarrow> 'a console_scheme res" where
  "uartwrite [] s = Ok s"
| "uartwrite (b # bs) s =
     (if tx_busy s then Blocked ''uartwrite'' else uartwrite bs (s\<lparr>uart_out := uart_out s @ [b], tx_busy := True\<rparr>))"

text \<open>\<^verbatim>\<open>uartputc_sync()\<close> waits for the transmitter to be idle and gives it the byte; once the kernel has panicked it never returns.\<close>

definition uartputc_sync :: "bool \<Rightarrow> int \<Rightarrow> 'a console_scheme \<Rightarrow> 'a console_scheme option" where
  "uartputc_sync panicked c s = (if panicked then None else Some (s\<lparr>uart_out := uart_out s @ [word_of_int c]\<rparr>))"

text \<open>One reading of the status and receive registers: the character, or -1.\<close>

definition uartgetc :: "uchar \<Rightarrow> uchar \<Rightarrow> int" where
  "uartgetc lsr rhr = (if lsr AND LSR_RX_READY \<noteq> 0 then uint rhr else -1)"

section \<open>procdump()\<close>

fun state_name :: "procstate \<Rightarrow> uchar list" where
  "state_name UNUSED = [117, 110, 117, 115, 101, 100]"
| "state_name USED = [117, 115, 101, 100]"
| "state_name SLEEPING = [115, 108, 101, 101, 112, 32]"
| "state_name RUNNABLE = [114, 117, 110, 98, 108, 101]"
| "state_name RUNNING = [114, 117, 110, 32, 32, 32]"
| "state_name ZOMBIE = [122, 111, 109, 98, 105, 101]"

definition dump_proc :: "proc \<Rightarrow> int list option" where
  "dump_proc x =
     (case printk [37, 100, 32, 37, 115, 32, 37, 115]
             [Num (word_of_int (pid x)), Str (Some (state_name (state x))), Str (Some (takeWhile (\<lambda>c. c \<noteq> 0) (pname x)))] of
        None \<Rightarrow> None | Some out \<Rightarrow> map_option ((@) out) (printk [10] []))"

definition procdump :: "'a kstate_scheme \<Rightarrow> int list option" where
  "procdump s = map_option concat
     (those (printk [10] [] # map (\<lambda>i. if state (procs s i) = UNUSED then Some [] else dump_proc (procs s i)) [0..<NPROC]))"

section \<open>console.c\<close>

text \<open>The loop that kills the line: the edit index moves back and each character is erased on the screen.\<close>

function kill_line :: "cons_buf \<Rightarrow> uchar list \<Rightarrow> cons_buf \<times> uchar list" where
  "kill_line b out =
     (if ce b \<noteq> cw b \<and> cbuf b ! (unat (ce b - 1) mod INPUT_BUF_SIZE) \<noteq> 10
      then kill_line (b\<lparr>ce := ce b - 1\<rparr>) (out @ consputc BACKSPACE) else (b, out))"
  by pat_completeness auto
termination
proof (relation "measure (\<lambda>(b, out). unat (ce b - cw b))")
  fix b :: cons_buf and out :: "uchar list"
  assume "ce b \<noteq> cw b \<and> cbuf b ! (unat (ce b - 1) mod INPUT_BUF_SIZE) \<noteq> 10"
  then have "ce b - cw b \<noteq> 0" by simp
  then have "unat (ce b - cw b - 1) < unat (ce b - cw b)" by (simp add: unat_minus_one unat_gt_0)
  then have "unat (ce b - 1 - cw b) < unat (ce b - cw b)" by (simp only: diff_right_commute [of "ce b" 1 "cw b"])
  then show "((b\<lparr>ce := ce b - 1\<rparr>, out @ consputc BACKSPACE), b, out) \<in> measure (\<lambda>(b, out). unat (ce b - cw b))"
    by simp
qed simp

text \<open>The \<^verbatim>\<open>switch\<close> of \<^verbatim>\<open>consoleintr()\<close> on the buffer: the buffer after it, what is echoed, and if readers are woken.\<close>

definition cons_edit :: "int \<Rightarrow> cons_buf \<Rightarrow> cons_buf \<times> uchar list \<times> bool" where
  "cons_edit c b =
     (if c = 21 then let (b, out) = kill_line b [] in (b, out, False)
      else if c = 8 \<or> c = 127
      then if ce b \<noteq> cw b then (b\<lparr>ce := ce b - 1\<rparr>, consputc BACKSPACE, False) else (b, [], False)
      else if c \<noteq> 0 \<and> ce b - cr b < of_nat INPUT_BUF_SIZE
      then let c = (if c = 13 then 10 else c);
               b = b\<lparr>cbuf := (cbuf b)[unat (ce b) mod INPUT_BUF_SIZE := word_of_int c], ce := ce b + 1\<rparr>
           in if c = 10 \<or> c = 4 \<or> ce b - cr b = of_nat INPUT_BUF_SIZE
              then (b\<lparr>cw := ce b\<rparr>, consputc c, True) else (b, consputc c, False)
      else (b, [], False))"

definition consoleintr :: "nat option \<Rightarrow> int \<Rightarrow> 'a console_scheme \<Rightarrow> 'a console_scheme" where
  "consoleintr me c s =
     (if c = 16 then (case procdump s of None \<Rightarrow> s | Some out \<Rightarrow> consputs out s)
      else let (b, out, wake) = cons_edit c (cons s); s = s\<lparr>cons := b, uart_out := uart_out s @ out\<rparr>
           in if wake then wakeup me ChanCons s else s)"

text \<open>
  \<^verbatim>\<open>uartintr()\<close>, with the first reading of the status register and then the status and receive registers at
  each further reading, the last of which finds no input.
\<close>

primrec uartintr_loop :: "nat option \<Rightarrow> (uchar \<times> uchar) list \<Rightarrow> 'a console_scheme \<Rightarrow> 'a console_scheme" where
  "uartintr_loop me [] s = s"
| "uartintr_loop me (x # xs) s =
     (let c = uartgetc (fst x) (snd x) in if c = -1 then s else uartintr_loop me xs (consoleintr me c s))"

definition uartintr :: "nat option \<Rightarrow> uchar \<Rightarrow> (uchar \<times> uchar) list \<Rightarrow> 'a console_scheme \<Rightarrow> 'a console_scheme" where
  "uartintr me lsr rx s =
     (let s = (if lsr AND LSR_TX_IDLE \<noteq> 0 then wakeup me ChanUart (s\<lparr>tx_busy := False\<rparr>) else s) in uartintr_loop me rx s)"

text \<open>\<^verbatim>\<open>consolewrite()\<close> moves batches of 32 bytes, \<open>i\<close> of \<open>n\<close> done.\<close>

function consolewrite_loop :: "nat \<Rightarrow> bool \<Rightarrow> uint64 \<Rightarrow> nat \<Rightarrow> nat \<Rightarrow> 'a console_scheme \<Rightarrow> (int \<times> 'a console_scheme) res" where
  "consolewrite_loop p user_src src n i s =
     (if i < n
      then let nn = min 32 (n - i) in
        bindR (either_copyin p user_src (src + of_nat i) nn s) (\<lambda>(r, bs, s).
        if r = -1 then Ok (int i, s)
        else bindR (uartwrite bs s) (consolewrite_loop p user_src src n (i + nn)))
      else Ok (int i, s))"
  by pat_completeness auto
termination by (relation "measure (\<lambda>(p, user_src, src, n, i, s). n - i)") auto

definition consolewrite :: "nat \<Rightarrow> bool \<Rightarrow> uint64 \<Rightarrow> int \<Rightarrow> 'a console_scheme \<Rightarrow> (int \<times> 'a console_scheme) res" where
  "consolewrite p user_src src n s = consolewrite_loop p user_src src (nat n) 0 s"

text \<open>The loop of \<^verbatim>\<open>consoleread()\<close> with \<open>n\<close> of \<open>target\<close> bytes still wanted.\<close>

primrec consoleread_loop :: "nat \<Rightarrow> nat \<Rightarrow> bool \<Rightarrow> uint64 \<Rightarrow> nat \<Rightarrow> 'a console_scheme \<Rightarrow> (int \<times> 'a console_scheme) res" where
  "consoleread_loop 0 p user_dst dst target s = Ok (int target, s)"
| "consoleread_loop (Suc n) p user_dst dst target s =
     (if cr (cons s) = cw (cons s)
      then if killed s p \<noteq> 0 then Ok (-1, s) else Blocked ''consoleread''
      else let c = cbuf (cons s) ! (unat (cr (cons s)) mod INPUT_BUF_SIZE);
               s = s\<lparr>cons := (cons s)\<lparr>cr := cr (cons s) + 1\<rparr>\<rparr> in
        if c = 4
        then Ok (int target - int (Suc n), if Suc n < target then s\<lparr>cons := (cons s)\<lparr>cr := cr (cons s) - 1\<rparr>\<rparr> else s)
        else bindR (either_copyout p user_dst dst [c] s) (\<lambda>(r, s).
          if r = -1 then Ok (int target - int (Suc n), s)
          else if c = 10 then Ok (int target - int n, s)
          else consoleread_loop n p user_dst (dst + 1) target s))"

definition consoleread :: "nat \<Rightarrow> bool \<Rightarrow> uint64 \<Rightarrow> int \<Rightarrow> 'a console_scheme \<Rightarrow> (int \<times> 'a console_scheme) res" where
  "consoleread p user_dst dst n s = consoleread_loop (nat n) p user_dst dst (nat n) s"

text \<open>\<^verbatim>\<open>consoleinit()\<close> enters the two routines in the table of devices.\<close>

definition CONSOLE :: nat where [simp]: "CONSOLE = 1"

definition consoleinit :: "'a console_scheme devsw \<Rightarrow> 'a console_scheme devsw" where
  "consoleinit dv = dv(CONSOLE := Some \<lparr>dread = consoleread, dwrite = consolewrite\<rparr>)"

declare kill_line.simps [simp del] consolewrite_loop.simps [simp del]

text \<open>\<open>consputs\<close> sends each byte of a character by \<open>uartputc_sync\<close>.\<close>

lemma consputs_sync:
  "consputs [c] s = (if c = BACKSPACE
     then the (Option.bind (uartputc_sync False 8 s) (\<lambda>s. Option.bind (uartputc_sync False 32 s) (uartputc_sync False 8)))
     else the (uartputc_sync False c s))"
  by (simp add: consputs_def consputc_def uartputc_sync_def)

section \<open>The line discipline\<close>

text \<open>
  The bytes in the buffer, oldest first: those before the write index are ready for readers, those after it
  are the line being edited, which has no newline in it.
\<close>

definition cons_bytes :: "cons_buf \<Rightarrow> uchar list" where
  "cons_bytes b = map (\<lambda>k. cbuf b ! ((unat (cr b) + k) mod INPUT_BUF_SIZE)) [0..<unat (ce b - cr b)]"

definition ready :: "cons_buf \<Rightarrow> uchar list" where
  "ready b = take (unat (cw b - cr b)) (cons_bytes b)"

definition editing :: "cons_buf \<Rightarrow> uchar list" where
  "editing b = drop (unat (cw b - cr b)) (cons_bytes b)"

definition cons_inv :: "cons_buf \<Rightarrow> bool" where
  "cons_inv b \<longleftrightarrow> length (cbuf b) = INPUT_BUF_SIZE \<and> unat (cw b - cr b) \<le> unat (ce b - cr b) \<and>
     unat (ce b - cr b) \<le> INPUT_BUF_SIZE \<and> 10 \<notin> set (editing b)"

text \<open>What a character typed does to the two, and what it shows on the screen.\<close>

definition line_input :: "int \<Rightarrow> uchar list \<times> uchar list \<Rightarrow> uchar list \<times> uchar list" where
  "line_input c = (\<lambda>(rd, ed).
     if c = 21 then (rd, [])
     else if c = 8 \<or> c = 127 then (rd, butlast ed)
     else if c = 0 \<or> c = 16 \<or> length rd + length ed \<ge> INPUT_BUF_SIZE then (rd, ed)
     else let x = (if c = 13 then 10 else word_of_int c) in
       if x = 10 \<or> x = 4 \<or> length rd + length ed + 1 = INPUT_BUF_SIZE then (rd @ ed @ [x], []) else (rd, ed @ [x]))"

definition line_echo :: "int \<Rightarrow> uchar list \<times> uchar list \<Rightarrow> uchar list" where
  "line_echo c = (\<lambda>(rd, ed).
     if c = 21 then concat (replicate (length ed) [8, 32, 8])
     else if c = 8 \<or> c = 127 then (if ed = [] then [] else [8, 32, 8])
     else if c = 0 \<or> c = 16 \<or> length rd + length ed \<ge> INPUT_BUF_SIZE then []
     else [if c = 13 then 10 else word_of_int c])"

lemma mod_128: "unat (r + of_nat k :: uint) mod 128 = (unat r + k) mod 128"
proof -
  have "unat (r + of_nat k) = (unat r + k) mod 2 ^ 32"
    by (simp add: unat_word_ariths unat_of_nat take_bit_nat_def mod_simps)
  then show ?thesis by (simp add: mod_mod_cancel)
qed

lemma length_cons:
  "length (cons_bytes b) = unat (ce b - cr b)"
  "cons_inv b \<Longrightarrow> length (ready b) = unat (cw b - cr b)"
  "cons_inv b \<Longrightarrow> length (editing b) = unat (ce b - cr b) - unat (cw b - cr b)"
  by (simp_all add: cons_bytes_def ready_def editing_def cons_inv_def)

lemma cons_split: "cons_bytes b = ready b @ editing b"
  by (simp add: ready_def editing_def)

lemma editing_empty:
  assumes "cons_inv b"
  shows "editing b = [] \<longleftrightarrow> ce b = cw b"
proof -
  have "editing b = [] \<longleftrightarrow> unat (ce b - cr b) = unat (cw b - cr b)"
    using assms by (auto simp: editing_def length_cons cons_inv_def)
  also have "\<dots> \<longleftrightarrow> ce b - cr b = cw b - cr b" by (simp only: word_unat_eq_iff)
  finally show ?thesis by simp
qed

lemma cons_back:
  assumes inv: "cons_inv b" and ne: "ce b \<noteq> cw b"
  shows "cons_inv (b\<lparr>ce := ce b - 1\<rparr>)" and "ready (b\<lparr>ce := ce b - 1\<rparr>) = ready b"
    and "editing (b\<lparr>ce := ce b - 1\<rparr>) = butlast (editing b)"
    and "cbuf b ! (unat (ce b - 1) mod INPUT_BUF_SIZE) = last (editing b)" and "editing b \<noteq> []"
proof -
  let ?b = "b\<lparr>ce := ce b - 1\<rparr>"
  let ?n = "unat (ce b - cr b)" and ?m = "unat (cw b - cr b)"
  have e: "editing b \<noteq> []" using editing_empty [OF inv] ne by simp
  then have mn: "?m < ?n" using length_cons(3) [OF inv] by (cases "editing b") auto
  then have "ce b - cr b \<noteq> 0" by (auto simp: unat_gt_0)
  then have "unat (ce b - cr b - 1) = ?n - 1" by (simp add: unat_minus_one)
  then have n': "unat (ce b - 1 - cr b) = ?n - 1" by (simp only: diff_right_commute [of "ce b" 1 "cr b"])
  have up: "[0..<?n] = [0..<?n - 1] @ [?n - 1]" using mn by (cases ?n) auto
  have all: "cons_bytes b = cons_bytes ?b @ [cbuf b ! ((unat (cr b) + (?n - 1)) mod 128)]"
    using up by (simp add: cons_bytes_def n')
  have len: "length (cons_bytes ?b) = ?n - 1" by (simp add: length_cons n')
  show "ready ?b = ready b" using all len mn by (simp add: ready_def)
  show ed: "editing ?b = butlast (editing b)" using all len mn by (simp add: editing_def butlast_append)
  have "ce b - 1 = cr b + of_nat (?n - 1)" using n' by (metis add.commute diff_add_cancel of_nat_unat ucast_id)
  then have "unat (ce b - 1) mod 128 = (unat (cr b) + (?n - 1)) mod 128" by (simp only: mod_128)
  moreover have "last (editing b) = cbuf b ! ((unat (cr b) + (?n - 1)) mod 128)" using all len mn by (simp add: editing_def)
  ultimately show "cbuf b ! (unat (ce b - 1) mod INPUT_BUF_SIZE) = last (editing b)" by simp
  show "editing b \<noteq> []" by (rule e)
  have "10 \<notin> set (editing ?b)" using inv ed by (auto simp: cons_inv_def dest: in_set_butlastD)
  then show "cons_inv ?b" using inv mn by (auto simp: cons_inv_def n')
qed

lemma kill_line_ok:
  "cons_inv b \<Longrightarrow> \<exists>b'. kill_line b out = (b', out @ concat (replicate (length (editing b)) [8, 32, 8])) \<and>
     cons_inv b' \<and> ready b' = ready b \<and> editing b' = []"
proof (induction b out rule: kill_line.induct)
  case (1 b out)
  show ?case
  proof (cases "ce b = cw b")
    case True
    then show ?thesis using "1.prems" editing_empty [OF "1.prems"] by (subst kill_line.simps) simp
  next
    case False
    note k = cons_back [OF "1.prems" False]
    have nl: "last (editing b) \<noteq> 10" using "1.prems" k(5) last_in_set by (metis cons_inv_def)
    then have go: "ce b \<noteq> cw b \<and> cbuf b ! (unat (ce b - 1) mod INPUT_BUF_SIZE) \<noteq> 10" using False k(4) by simp
    have r: "concat (replicate (length (editing b)) [8, 32, 8 :: uchar]) =
        [8, 32, 8] @ concat (replicate (length (editing (b\<lparr>ce := ce b - 1\<rparr>))) [8, 32, 8])"
      unfolding k(3) using k(5) by (cases "editing b" rule: rev_cases) auto
    show ?thesis unfolding r using "1.IH" [OF go k(1)] go k(2) by (subst kill_line.simps) (simp add: consputc_def)
  qed
qed

lemma cons_put:
  fixes x :: uchar
  assumes inv: "cons_inv b" and room: "ce b - cr b < 128"
  defines "b' \<equiv> b\<lparr>cbuf := (cbuf b)[unat (ce b) mod INPUT_BUF_SIZE := x], ce := ce b + 1\<rparr>"
  shows "cons_bytes b' = cons_bytes b @ [x]" and "unat (ce b' - cr b') = unat (ce b - cr b) + 1"
proof -
  let ?n = "unat (ce b - cr b)"
  have lt: "?n < 128" using room by (simp add: word_less_nat_alt)
  have "unat (ce b - cr b + 1) = ?n + 1" using lt by (subst unat_word_ariths) simp
  moreover have "ce b' - cr b' = ce b - cr b + 1" by (simp add: b'_def)
  ultimately show n': "unat (ce b' - cr b') = ?n + 1" by simp
  have len: "length (cbuf b) = 128" using inv by (simp add: cons_inv_def)
  have "ce b = cr b + of_nat ?n" by simp
  then have idx: "unat (ce b) mod 128 = (unat (cr b) + ?n) mod 128" by (metis mod_128)
  have ne: "(unat (cr b) + k) mod 128 \<noteq> (unat (cr b) + ?n) mod 128" if "k < ?n" for k
    using that lt by (intro mod_shift_neq) simp_all
  have "cons_bytes b' = map (\<lambda>k. (cbuf b)[(unat (cr b) + ?n) mod 128 := x] ! ((unat (cr b) + k) mod 128)) [0..<?n + 1]"
    unfolding cons_bytes_def n' by (simp add: b'_def idx)
  then show "cons_bytes b' = cons_bytes b @ [x]"
    using len by (auto simp: cons_bytes_def nth_list_update_neq [OF ne [THEN not_sym]])
qed

lemma cons_view:
  assumes "cons_bytes b = rd @ ed" and "unat (cw b - cr b) = length rd"
  shows "ready b = rd" and "editing b = ed"
  using assms by (simp_all add: ready_def editing_def)

lemma cons_edit_ok:
  assumes inv: "cons_inv b" and c: "0 \<le> c" "c < 256" "c \<noteq> 16"
  shows "\<exists>b' wake. cons_edit c b = (b', line_echo c (ready b, editing b), wake) \<and> cons_inv b' \<and>
    (ready b', editing b') = line_input c (ready b, editing b) \<and> (wake \<longleftrightarrow> ready b' \<noteq> ready b)"
proof -
  consider (kill) "c = 21" | (erase) "c = 8 \<or> c = 127" | (ignored) "c \<noteq> 21" "\<not> (c = 8 \<or> c = 127)" "c = 0 \<or> \<not> ce b - cr b < 128"
    | (typed) "c \<noteq> 21" "\<not> (c = 8 \<or> c = 127)" "c \<noteq> 0" "ce b - cr b < 128" by blast
  then show ?thesis
  proof cases
    case kill
    then show ?thesis using kill_line_ok [OF inv, of "[]"]
      by (auto simp: cons_edit_def line_echo_def line_input_def)
  next
    case erase
    then show ?thesis using inv cons_back [OF inv] editing_empty [OF inv]
      by (cases "ce b = cw b") (auto simp: cons_edit_def line_echo_def line_input_def consputc_def)
  next
    case ignored
    have "length (ready b) + length (editing b) = unat (ce b - cr b)"
      using cons_split [of b] length_cons(1) [of b] by simp
    then have "c = 0 \<or> length (ready b) + length (editing b) \<ge> 128" using ignored(3) by (auto simp: word_less_nat_alt)
    then show ?thesis using ignored inv c by (auto simp: cons_edit_def line_echo_def line_input_def)
  next
    case typed
    define y where "y = (if c = 13 then 10 else c)"
    define x :: uchar where "x = word_of_int y"
    define b1 where "b1 = b\<lparr>cbuf := (cbuf b)[unat (ce b) mod INPUT_BUF_SIZE := x], ce := ce b + 1\<rparr>"
    have y: "0 \<le> y" "y < 256" using c by (auto simp: y_def)
    have ux: "uint x = y" using y by (simp add: x_def unsigned_of_int take_bit_int_eq_self_iff)
    have xy: "x = 10 \<longleftrightarrow> y = 10" "x = 4 \<longleftrightarrow> y = 4" using ux by (auto simp: word_uint_eq_iff)
    note put = cons_put [OF inv typed(4), of x, folded b1_def]
    have lt: "unat (ce b - cr b) < 128" using typed(4) by (simp add: word_less_nat_alt)
    have len: "length (ready b) + length (editing b) = unat (ce b - cr b)"
      using cons_split [of b] length_cons(1) [of b] by simp
    have full: "ce b1 - cr b1 = 128 \<longleftrightarrow> length (ready b) + length (editing b) + 1 = 128"
      using put(2) len by (auto simp: word_unat_eq_iff)
    have wr: "cw b1 = cw b" "cr b1 = cr b" "length (cbuf b1) = 128" using inv by (simp_all add: b1_def cons_inv_def)
    have m: "unat (cw b - cr b) = length (ready b)" "unat (cw b - cr b) \<le> unat (ce b - cr b)"
      using length_cons(2) [OF inv] inv by (simp_all add: cons_inv_def)
    have echo: "consputc y = [x]" using y by (auto simp: consputc_def x_def)
    have x_def': "x = (if c = 13 then 10 else word_of_int c)" by (simp add: x_def y_def)
    have spec: "line_echo c (ready b, editing b) = [x]"
      "line_input c (ready b, editing b) = (if x = 10 \<or> x = 4 \<or> length (ready b) + length (editing b) + 1 = 128
         then (ready b @ editing b @ [x], []) else (ready b, editing b @ [x]))"
      using typed c len lt by (auto simp: line_echo_def line_input_def x_def' Let_def)
    have run: "cons_edit c b = (if y = 10 \<or> y = 4 \<or> ce b1 - cr b1 = 128 then (b1\<lparr>cw := ce b1\<rparr>, [x], True) else (b1, [x], False))"
    proof -
      have room: "c \<noteq> 0 \<and> ce b - cr b < 128" "(of_nat INPUT_BUF_SIZE :: uint) = 128" using typed by simp_all
      show ?thesis
        unfolding cons_edit_def if_not_P [OF typed(1)] if_not_P [OF typed(2)] y_def [symmetric] Let_def
          x_def [symmetric] b1_def [symmetric] room(2) echo if_P [OF room(1)] ..
    qed
    show ?thesis
    proof (cases "x = 10 \<or> x = 4 \<or> ce b1 - cr b1 = 128")
      case True
      let ?b = "b1\<lparr>cw := ce b1\<rparr>"
      have cb: "cons_bytes ?b = (ready b @ editing b @ [x]) @ []" using put(1) cons_split [of b] by (simp add: cons_bytes_def)
      note v = cons_view [OF cb]
      have n: "unat (cw ?b - cr ?b) = length (ready b @ editing b @ [x])" using put(2) len by simp
      have i: "cons_inv ?b" using v(2) [OF n] put(2) lt wr by (simp add: cons_inv_def)
      have r: "cons_edit c b = (?b, [x], True)" using run True by (simp only: xy full) simp
      show ?thesis using v [OF n] True i r spec full by simp
    next
      case False
      have cb: "cons_bytes b1 = ready b @ editing b @ [x]" using put(1) cons_split [of b] by simp
      note v = cons_view [OF cb]
      have n: "unat (cw b1 - cr b1) = length (ready b)" using m wr by simp
      have i: "cons_inv b1" using v(2) [OF n] put(2) lt wr inv m False by (auto simp: cons_inv_def)
      have r: "cons_edit c b = (b1, [x], False)" using run False by (simp only: xy full) simp
      show ?thesis using v [OF n] False i r spec full by simp
    qed
  qed
qed

section \<open>Reading a line\<close>

text \<open>
  What a reader that wants up to \<open>n\<close> bytes gets of the bytes that are ready, and what stays: it stops at a newline, which it
  gets, and at an end-of-file character, which it does not; if it already \<open>got\<close> something that character stays for the
  next reader. Nothing, if it has to sleep.
\<close>

fun line_read :: "bool \<Rightarrow> nat \<Rightarrow> uchar list \<Rightarrow> (uchar list \<times> uchar list) option" where
  "line_read got 0 rd = Some ([], rd)"
| "line_read got (Suc n) [] = None"
| "line_read got (Suc n) (c # rd) =
     (if c = 4 then Some ([], if got then c # rd else rd)
      else if c = 10 then Some ([c], rd)
      else map_option (\<lambda>(bs, rest). (c # bs, rest)) (line_read True n rd))"

lemma line_read_length: "line_read got n rd = Some (bs, rest) \<Longrightarrow> length bs \<le> length rd"
  by (induction got n rd arbitrary: bs rest rule: line_read.induct) (auto split: if_splits)

lemma cons_take:
  assumes inv: "cons_inv b" and ne: "cr b \<noteq> cw b"
  defines "b' \<equiv> b\<lparr>cr := cr b + 1\<rparr>"
  shows "cons_inv b'" and "ready b = cbuf b ! (unat (cr b) mod INPUT_BUF_SIZE) # ready b'" and "editing b' = editing b"
proof -
  let ?n = "unat (ce b - cr b)" and ?m = "unat (cw b - cr b)"
  have z: "cw b - cr b \<noteq> 0" using ne by auto
  then have "0 < ?m" by (simp only: unat_gt_0) simp
  then have m: "0 < ?m" "?m \<le> ?n" using inv by (auto simp: cons_inv_def)
  have "ce b - cr b \<noteq> 0" using m by auto
  note this z
  then have "unat (cw b - cr b - 1) = ?m - 1" "unat (ce b - cr b - 1) = ?n - 1" by (simp_all add: unat_minus_one)
  then have m': "unat (cw b' - cr b') = ?m - 1" "unat (ce b' - cr b') = ?n - 1" by (simp_all add: b'_def diff_diff_eq)
  have up: "[0..<?n] = 0 # map Suc [0..<?n - 1]" using m by (simp add: map_Suc_upt upt_conv_Cons)
  have idx: "(unat (cr b + 1) + k) mod 128 = (unat (cr b) + Suc k) mod 128" for k
    using mod_128 [of "cr b + 1" k, symmetric] mod_128 [of "cr b" "Suc k"] by (simp only: of_nat_Suc add.assoc)
  have all: "cons_bytes b = cbuf b ! (unat (cr b) mod INPUT_BUF_SIZE) # cons_bytes b'"
    unfolding cons_bytes_def up m'(2) by (simp add: b'_def idx)
  obtain k where k: "?m = Suc k" using m(1) by (cases ?m) auto
  show "ready b = cbuf b ! (unat (cr b) mod INPUT_BUF_SIZE) # ready b'" unfolding ready_def m'(1) all k by simp
  show ed: "editing b' = editing b" unfolding editing_def m'(1) all k by simp
  show "cons_inv b'" using inv ed m m' by (auto simp: cons_inv_def b'_def)
qed

lemma consoleread_loop_ok:
  fixes s :: "'a console_scheme"
  assumes "space_ok R X p s" and "cons_inv (cons s)" and "line_read (n < target) n (ready (cons s)) = Some (bs, rest)" and "n \<le> target"
  shows "\<exists>k h b. consoleread_loop n p True dst target s = Ok (int target - int n + int k, s\<lparr>ph := h, cons := b\<rparr>) \<and>
     k \<le> length bs \<and> cons_inv b \<and> editing b = editing (cons s) \<and>
     ready b = (if k = length bs then rest else drop (Suc k) (ready (cons s))) \<and> space_ok R X p (s\<lparr>ph := h\<rparr>) \<and>
     (\<forall>j<k. uview (pmem h) (pagetable (procs s p)) (dst + of_nat j) = Some (bs ! j)) \<and>
     (\<forall>r'\<in>R. r' \<noteq> pagetable (procs s p) \<longrightarrow> uview (pmem h) r' = uview (pmem (ph s)) r') \<and>
     (\<forall>va c. (\<forall>j\<le>k. va \<noteq> dst + of_nat j) \<longrightarrow> uview (pmem (ph s)) (pagetable (procs s p)) va = Some c \<longrightarrow>
        uview (pmem h) (pagetable (procs s p)) va = Some c)"
  using assms
proof (induction n arbitrary: s dst bs)
  case 0
  then show ?case by (intro exI [of _ 0] exI [of _ "ph s"] exI [of _ "cons s"]) simp
next
  case (Suc n)
  let ?r = "pagetable (procs s p)" and ?b = "(cons s)\<lparr>cr := cr (cons s) + 1\<rparr>"
  let ?c = "cbuf (cons s) ! (unat (cr (cons s)) mod INPUT_BUF_SIZE)"
  have ne: "cr (cons s) \<noteq> cw (cons s)" using Suc.prems(2,3) by (auto simp: ready_def)
  note t = cons_take [OF Suc.prems(2) ne]
  let ?s = "s\<lparr>cons := ?b\<rparr>"
  have sp: "space_ok R X p ?s" using Suc.prems(1) by (simp add: space_ok_def)
  have lr: "line_read (Suc n < target) (Suc n) (?c # ready ?b) = Some (bs, rest)" using Suc.prems(3) t(2) by simp
  show ?case
  proof (cases "?c = 4")
    case True
    then have "consoleread_loop (Suc n) p True dst target s =
        Ok (int target - int (Suc n) + int 0, s\<lparr>ph := ph s, cons := if Suc n < target then cons s else ?b\<rparr>)"
      using ne by (simp add: Let_def)
    then show ?thesis using True lr t Suc.prems(1,2)
      by (intro exI [of _ 0] exI [of _ "ph s"] exI [of _ "if Suc n < target then cons s else ?b"]) (auto split: if_splits)
  next
    case c4: False
    obtain ret1 h1 where c: "either_copyout p True dst [?c] ?s = Ok (ret1, ?s\<lparr>ph := h1\<rparr>)" "space_ok R X p (?s\<lparr>ph := h1\<rparr>)"
      "ret1 = 0 \<or> ret1 = -1" "ret1 = 0 \<longrightarrow> uview (pmem h1) (pagetable (procs ?s p)) dst = Some ?c"
      "\<forall>r'\<in>R. r' \<noteq> pagetable (procs ?s p) \<longrightarrow> uview (pmem h1) r' = uview (pmem (ph ?s)) r'"
      "\<forall>va c. va \<noteq> dst \<longrightarrow> uview (pmem (ph ?s)) (pagetable (procs ?s p)) va = Some c \<longrightarrow> uview (pmem h1) (pagetable (procs ?s p)) va = Some c"
      by (rule copyout_byte [OF sp, of dst ?c])
    have sp1: "space_ok R X p (s\<lparr>ph := h1\<rparr>)" using c(2) by (simp add: space_ok_def)
    have bs0: "bs \<noteq> []" using lr c4 by (auto split: if_splits)
    have step: "consoleread_loop (Suc n) p True dst target s =
        (if ret1 = -1 then Ok (int target - int (Suc n), ?s\<lparr>ph := h1\<rparr>)
         else if ?c = 10 then Ok (int target - int n, ?s\<lparr>ph := h1\<rparr>) else consoleread_loop n p True (dst + 1) target (?s\<lparr>ph := h1\<rparr>))"
      using ne c4 c(1) by (simp add: Let_def)
    show ?thesis
    proof (cases "ret1 = 0")
      case False
      then have "consoleread_loop (Suc n) p True dst target s = Ok (int target - int (Suc n) + int 0, s\<lparr>ph := h1, cons := ?b\<rparr>)"
        using step c(3) by auto
      then show ?thesis using bs0 t c sp1
        by (intro exI [of _ 0] exI [of _ h1] exI [of _ ?b]) simp
    next
      case ok: True
      show ?thesis
      proof (cases "?c = 10")
        case True
        then have "consoleread_loop (Suc n) p True dst target s = Ok (int target - int (Suc n) + int 1, s\<lparr>ph := h1, cons := ?b\<rparr>)"
          using step ok by simp
        moreover have "bs = [10]" "rest = ready ?b" using lr True by (auto split: if_splits)
        ultimately show ?thesis using t c sp1 ok True
          by (intro exI [of _ 1] exI [of _ h1] exI [of _ ?b]) auto
      next
        case False
        let ?s1 = "?s\<lparr>ph := h1\<rparr>"
        obtain bs' where bs: "line_read True n (ready ?b) = Some (bs', rest)" "bs = ?c # bs'"
          using lr c4 False by auto
        have pre: "space_ok R X p ?s1" "cons_inv (cons ?s1)" "line_read (n < target) n (ready (cons ?s1)) = Some (bs', rest)" "n \<le> target"
          using c(2) t(1) bs(1) Suc.prems(4) by simp_all
        obtain k h b where w: "consoleread_loop n p True (dst + 1) target ?s1 = Ok (int target - int n + int k, ?s1\<lparr>ph := h, cons := b\<rparr>)"
          "k \<le> length bs'" "cons_inv b" "editing b = editing (cons ?s1)"
          "ready b = (if k = length bs' then rest else drop (Suc k) (ready (cons ?s1)))" "space_ok R X p (?s1\<lparr>ph := h\<rparr>)"
          "\<forall>j<k. uview (pmem h) (pagetable (procs ?s1 p)) (dst + 1 + of_nat j) = Some (bs' ! j)"
          "\<forall>r'\<in>R. r' \<noteq> pagetable (procs ?s1 p) \<longrightarrow> uview (pmem h) r' = uview (pmem (ph ?s1)) r'"
          "\<forall>va c. (\<forall>j\<le>k. va \<noteq> dst + 1 + of_nat j) \<longrightarrow> uview (pmem (ph ?s1)) (pagetable (procs ?s1 p)) va = Some c \<longrightarrow>
             uview (pmem h) (pagetable (procs ?s1 p)) va = Some c"
          using Suc.IH [OF pre] by blast
        have len: "length (ready ?b) \<le> 128"
          using length_cons(2) [OF t(1)] t(1) by (simp add: cons_inv_def)
        then have k512: "k \<le> 512" using w(2) line_read_length [OF bs(1)] by simp
        have far: "dst \<noteq> dst + 1 + of_nat j" if "j \<le> k" for j
          using shift_neq [of j dst 0] that k512 by (simp add: add.assoc)
        have "uview (pmem (ph ?s1)) (pagetable (procs ?s1 p)) dst = Some ?c" using c(4) ok by simp
        then have "uview (pmem h) (pagetable (procs ?s1 p)) dst = Some ?c" using w(9) far by blast
        then have here: "uview (pmem h) ?r dst = Some ?c" by simp
        have later: "uview (pmem h) ?r (dst + of_nat (Suc j)) = Some (bs' ! j)" if "j < k" for j
          using w(7) that by (simp add: add.assoc)
        show ?thesis
        proof (intro exI [of _ "Suc k"] exI [of _ h] exI [of _ b] conjI)
          show "consoleread_loop (Suc n) p True dst target s = Ok (int target - int (Suc n) + int (Suc k), s\<lparr>ph := h, cons := b\<rparr>)"
            using step ok False w(1) by simp
          show "\<forall>j<Suc k. uview (pmem h) ?r (dst + of_nat j) = Some (bs ! j)"
            using here later bs(2) by (auto simp: less_Suc_eq_0_disj simp del: of_nat_Suc)
          show "space_ok R X p (s\<lparr>ph := h\<rparr>)" using w(6) by (simp add: space_ok_def)
          show "ready b = (if Suc k = length bs then rest else drop (Suc (Suc k)) (ready (cons s)))"
            using w(5) bs(2) t(2) by simp
          show "\<forall>r'\<in>R. r' \<noteq> ?r \<longrightarrow> uview (pmem h) r' = uview (pmem (ph s)) r'" using w(8) c(5) by simp
          show "\<forall>va c. (\<forall>j\<le>Suc k. va \<noteq> dst + of_nat j) \<longrightarrow> uview (pmem (ph s)) ?r va = Some c \<longrightarrow> uview (pmem h) ?r va = Some c"
          proof (intro allI impI)
            fix va x
            assume o: "\<forall>j\<le>Suc k. va \<noteq> dst + of_nat j" and v: "uview (pmem (ph s)) ?r va = Some x"
            have "va \<noteq> dst" using o [rule_format, of 0] by simp
            then have "uview (pmem h1) ?r va = Some x" using v c(6) by simp
            moreover have "va \<noteq> dst + 1 + of_nat j" if "j \<le> k" for j
              using o [rule_format, of "Suc j"] that by (simp add: add.assoc)
            ultimately show "uview (pmem h) ?r va = Some x" using w(9) by simp
          qed
        qed (use w(2,3,4) t(3) bs(2) in auto)
      qed
    qed
  qed
qed

section \<open>Writers and interrupts\<close>

text \<open>
  Threads in \<^verbatim>\<open>uartwrite()\<close>, each with the bytes it still has to send, and interrupts of the UART in any order. A thread sends a
  byte when \<^verbatim>\<open>tx_busy\<close> is clear and then has to wait for an interrupt. The log says who sent each byte: a thread, or
  the interrupt handler to echo input.
\<close>

type_synonym 'a uart_conf = "(nat \<Rightarrow> uchar list) \<times> (nat option \<times> uchar) list \<times> 'a console_scheme"

inductive uart_step :: "'a uart_conf \<Rightarrow> 'a uart_conf \<Rightarrow> bool" where
  send: "pend t = b # bs \<Longrightarrow> uartwrite [b] s = Ok s' \<Longrightarrow> uart_step (pend, trace, s) (pend(t := bs), trace @ [(Some t, b)], s')"
| intr: "s' = uartintr me lsr rx s \<Longrightarrow> uart_out s' = uart_out s @ echo \<Longrightarrow>
     uart_step (pend, trace, s) (pend, trace @ map (Pair None) echo, s')"

definition sent_by :: "nat \<Rightarrow> (nat option \<times> uchar) list \<Rightarrow> uchar list" where
  "sent_by t trace = map snd (filter (\<lambda>x. fst x = Some t) trace)"

lemma uart_out_wakeup [simp]: "uart_out (wakeup me ch s) = uart_out s" "cons (wakeup me ch s) = cons s" "tx_busy (wakeup me ch s) = tx_busy s"
  by (simp_all add: wakeup_eq)

lemma consoleintr_out: "\<exists>echo. uart_out (consoleintr me c s) = uart_out s @ echo"
  by (auto simp: consoleintr_def consputs_def Let_def split: option.splits prod.splits)

lemma consoleintr_busy [simp]: "tx_busy (consoleintr me c s) = tx_busy s"
  by (auto simp: consoleintr_def consputs_def Let_def split: option.splits prod.splits)

lemma uartintr_loop_out: "\<exists>echo. uart_out (uartintr_loop me rx s) = uart_out s @ echo"
proof (induction rx arbitrary: s)
  case (Cons x rx)
  show ?case using Cons.IH [of "consoleintr me (uartgetc (fst x) (snd x)) s"] consoleintr_out [of me _ s]
    by (auto simp: Let_def) (metis append.assoc)
qed simp

lemma uartintr_loop_busy [simp]: "tx_busy (uartintr_loop me rx s) = tx_busy s"
  by (induction rx arbitrary: s) (auto simp: Let_def)

lemma uartintr_out: "\<exists>echo. uart_out (uartintr me lsr rx s) = uart_out s @ echo"
  using uartintr_loop_out [of me rx "wakeup me ChanUart (s\<lparr>tx_busy := False\<rparr>)"] uartintr_loop_out [of me rx s]
  by (auto simp: uartintr_def)

lemma uart_steps_order:
  assumes "uart_step\<^sup>*\<^sup>* (pend0, [], s0) (pend, trace, s)"
  shows "sent_by t trace @ pend t = pend0 t \<and> uart_out s = uart_out s0 @ map snd trace"
  using assms
proof (induction "(pend, trace, s)" arbitrary: pend trace s rule: rtranclp_induct)
  case base
  show ?case by (simp add: sent_by_def)
next
  case (step y)
  obtain pend1 trace1 s1 where y: "y = (pend1, trace1, s1)" by (cases y)
  have echo: "sent_by t (map (Pair None) echo) = []" for echo by (simp add: sent_by_def filter_map comp_def)
  from step(2) step(3) [OF y] show ?case unfolding y
    by cases (auto simp: sent_by_def filter_map comp_def split: if_splits)
qed

section \<open>The console as a device\<close>

text \<open>The process list can always be printed; reading the console device file is \<^verbatim>\<open>consoleread()\<close>, writing it \<^verbatim>\<open>consolewrite()\<close>.\<close>

lemma dump_proc_some: "\<exists>out. dump_proc x = Some out"
  by (simp add: dump_proc_def printk_def printk_loop.simps fmt_next_def fmt_conv_def peek_def print_num_def printint_radix)

lemma procdump_some: "\<exists>out. procdump s = Some out"
proof -
  let ?xs = "map (\<lambda>i. if state (procs s i) = UNUSED then Some [] else dump_proc (procs s i)) [0..<NPROC]"
  have "\<exists>ys. those xs = Some ys" if "\<forall>x\<in>set xs. \<exists>y. x = Some y" for xs :: "int list option list"
    using that by (induction xs) auto
  moreover have "\<forall>x\<in>set ?xs. \<exists>y. x = Some y" using dump_proc_some by auto
  ultimately have "\<exists>ys. those ?xs = Some ys" by blast
  then show ?thesis by (auto simp: procdump_def printk_def printk_loop.simps)
qed

lemma file_console:
  assumes "ftype (ftable s f) = FD_DEVICE" and "fmajor (ftable s f) = of_nat CONSOLE"
  shows "readable (ftable s f) \<Longrightarrow> fileread (consoleinit dv) p f addr n s = consoleread p True addr n s"
    and "writable (ftable s f) \<Longrightarrow> filewrite (consoleinit dv) p f addr n s = consolewrite p True addr n s"
  using assms by (simp_all add: fileread_def filewrite_def dev_of_def consoleinit_def)

section \<open>Properties\<close>

text \<open>C27. A character typed (any but the one that lists the processes, which changes nothing) does to the console's ring buffer what the line
  discipline says: it is appended to the line being edited, or erases its last character, or all of it; a newline, an end-of-file
  character or a full buffer makes the line ready for readers and wakes exactly the processes waiting for input. The echo is
  as specified, the indices stay ordered and at most 128 apart, and typed characters beyond that are dropped.\<close>

theorem consoleintr_line:
  assumes "cons_inv (cons s)" and "0 \<le> c" and "c < 256"
  shows "cons_inv (cons (consoleintr me c s)) \<and>
    (ready (cons (consoleintr me c s)), editing (cons (consoleintr me c s))) = line_input c (ready (cons s), editing (cons s)) \<and>
    (c \<noteq> 16 \<longrightarrow> uart_out (consoleintr me c s) = uart_out s @ line_echo c (ready (cons s), editing (cons s))) \<and>
    procs (consoleintr me c s) =
      (if ready (cons (consoleintr me c s)) = ready (cons s) then procs s else procs (wakeup me ChanCons s))"
proof (cases "c = 16")
  case True
  then show ?thesis using assms by (simp add: consoleintr_def consputs_def line_input_def split: option.splits)
next
  case False
  then obtain b wake where e: "cons_edit c (cons s) = (b, line_echo c (ready (cons s), editing (cons s)), wake)" "cons_inv b"
    "(ready b, editing b) = line_input c (ready (cons s), editing (cons s))" "wake \<longleftrightarrow> ready b \<noteq> ready (cons s)"
    using cons_edit_ok [OF assms] by blast
  have "procs (wakeup me ChanCons (s\<lparr>cons := b, uart_out := out\<rparr>)) = procs (wakeup me ChanCons s)" for out
    by (simp add: wakeup_eq cong: if_cong)
  then show ?thesis using False e by (auto simp: consoleintr_def Let_def)
qed



section \<open>Concrete instances\<close>

text \<open>A kernel at rest with the given console buffer; a buffer whose indices are about to wrap, and one with a line in it.\<close>

definition quiet_console :: "phys \<Rightarrow> uint64 \<Rightarrow> cons_buf \<Rightarrow> console" where
  "quiet_console h r b = kernel.extend (quiet_kernel h r) (console.fields b [] False)"

definition wrapping_cons :: cons_buf where
  "wrapping_cons = \<lparr>cbuf = replicate 128 0, cr = - 1, cw = - 1, ce = - 1\<rparr>"

definition line_cons :: cons_buf where
  "line_cons = \<lparr>cbuf = [104, 105, 10, 4] @ replicate 124 0, cr = 0, cw = 4, ce = 4\<rparr>"

lemma quiet_console_simps [simp]:
  "ph (quiet_console h r b) = h" "procs (quiet_console h r b) = (\<lambda>_. zero_proc\<lparr>pagetable := r, sz := 4096\<rparr>)"
  "cons (quiet_console h r b) = b" "uart_out (quiet_console h r b) = []" "tx_busy (quiet_console h r b) = False"
  by (simp_all add: quiet_console_def kernel.defs console.defs quiet_kernel_def)

lemma wrapping_cons_ok [simp]: "cons_inv wrapping_cons" "ready wrapping_cons = []" "editing wrapping_cons = []"
  by (simp_all add: wrapping_cons_def cons_inv_def ready_def editing_def cons_bytes_def)

lemma line_cons_ok [simp]: "cons_inv line_cons" "ready line_cons = [104, 105, 10, 4]" "editing line_cons = []"
proof -
  have "[0..<4] = [0, 1, 2, 3]" by (simp add: upt_rec)
  then have "cons_bytes line_cons = [104, 105, 10, 4]" by (simp add: cons_bytes_def line_cons_def)
  then show "cons_inv line_cons" "ready line_cons = [104, 105, 10, 4]" "editing line_cons = []"
    by (simp_all add: cons_inv_def ready_def editing_def line_cons_def)
qed

theorem consoleintr_line_witness:
  "\<exists>s :: console. cons (quiet_console boot_phys 0 wrapping_cons) = wrapping_cons \<and>
     s = consoleintr None 13 (quiet_console boot_phys 0 wrapping_cons) \<and>
     cons_inv (cons s) \<and> ready (cons s) = [10] \<and> editing (cons s) = [] \<and> uart_out s = [10]"
  using consoleintr_line [of "quiet_console boot_phys 0 wrapping_cons" 13 None]
  by (simp add: line_input_def line_echo_def Let_def)



end
