(* ===== verification/Sh.thy ===== *)
theory Sh
  imports Ulib
begin

text \<open>
  The shell, \<^verbatim>\<open>user/sh.c\<close>: its parser over the bytes of a command line, and \<^verbatim>\<open>runcmd()\<close> as the tree of system calls it makes.
  The pointers \<^verbatim>\<open>s\<close>, \<^verbatim>\<open>q\<close> and \<^verbatim>\<open>eq\<close> into the line are offsets; \<^verbatim>\<open>es\<close> is its length, where the NUL is. The loops and the recursive
  routines of the parser run on fuel, which \<open>parsecmd_total\<close> shows to be enough for every line. \<^verbatim>\<open>malloc()\<close> is taken to succeed.
\<close>

section \<open>Tokens\<close>

definition whitespace :: "uchar list" where "whitespace = [32, 9, 13, 10, 11]"
definition symbols :: "uchar list" where "symbols = [60, 124, 62, 38, 59, 40, 41]"

definition chr_at :: "uchar list \<Rightarrow> nat \<Rightarrow> uchar" where
  "chr_at buf s = (if s < length buf then buf ! s else 0)"

definition isin :: "uchar list \<Rightarrow> uchar \<Rightarrow> bool" where
  "isin str c \<longleftrightarrow> strchr str c \<noteq> None"

function skip_ws :: "uchar list \<Rightarrow> nat \<Rightarrow> nat" where
  "skip_ws buf s = (if s < length buf \<and> isin whitespace (buf ! s) then skip_ws buf (s + 1) else s)"
  by pat_completeness auto
termination by (relation "measure (\<lambda>(buf, s). length buf - s)") auto

function word_end :: "uchar list \<Rightarrow> nat \<Rightarrow> nat" where
  "word_end buf s =
     (if s < length buf \<and> \<not> isin whitespace (buf ! s) \<and> \<not> isin symbols (buf ! s) then word_end buf (s + 1) else s)"
  by pat_completeness auto
termination by (relation "measure (\<lambda>(buf, s). length buf - s)") auto

definition gettoken :: "uchar list \<Rightarrow> nat \<Rightarrow> uchar \<times> nat \<times> nat \<times> nat" where
  "gettoken buf s =
     (let q = skip_ws buf s; c = chr_at buf q;
          (ret, eq) =
            (if c = 0 then (c, q)
             else if c \<in> {124, 40, 41, 59, 38, 60} then (c, q + 1)
             else if c = 62 then (if chr_at buf (q + 1) = 62 then (43, q + 2) else (c, q + 1))
             else (97, word_end buf q))
      in (ret, q, eq, skip_ws buf eq))"

definition sh_peek :: "uchar list \<Rightarrow> nat \<Rightarrow> uchar list \<Rightarrow> bool \<times> nat" where
  "sh_peek buf s toks = (let s = skip_ws buf s in (chr_at buf s \<noteq> 0 \<and> isin toks (chr_at buf s), s))"

section \<open>Commands\<close>

text \<open>A parsed command over its words: at first their offsets \<^verbatim>\<open>q\<close> and \<^verbatim>\<open>eq\<close> in the line.\<close>

datatype 'w cmd =
    Exec "'w list"
  | Redir "'w cmd" 'w int int
  | Pipe "'w cmd" "'w cmd"
  | Lst "'w cmd" "'w cmd"
  | Back "'w cmd"

type_synonym span = "nat \<times> nat"

definition MAXARGS :: nat where [simp]: "MAXARGS = 10"
definition RD_MODE :: int where [simp]: "RD_MODE = 0"
definition WR_MODE :: int where [simp]: "WR_MODE = 0x601"
definition APP_MODE :: int where [simp]: "APP_MODE = 0x201"

section \<open>The parser\<close>

text \<open>
  \<^verbatim>\<open>parseredirs()\<close> wraps the command it is given once more for each redirection; the redirections are collected in order and
  wrapped by \<open>redirs\<close>. This leaves \<^verbatim>\<open>parseexec()\<close> free to fill in the arguments of the command inside, as the source does.
\<close>

type_synonym 'w redir = "'w \<times> int \<times> int"

definition redirs :: "'w redir list \<Rightarrow> 'w cmd \<Rightarrow> 'w cmd" where
  "redirs rs c = fold (\<lambda>(w, mode, fd) c. Redir c w mode fd) rs c"

definition redir_of :: "uchar \<Rightarrow> span \<Rightarrow> span redir" where
  "redir_of tok w = (if tok = 60 then (w, RD_MODE, 0) else if tok = 62 then (w, WR_MODE, 1) else (w, APP_MODE, 1))"

primrec parseredirs :: "nat \<Rightarrow> uchar list \<Rightarrow> nat \<Rightarrow> span redir list \<Rightarrow> (span redir list \<times> nat) res" where
  "parseredirs 0 buf s rs = OutOfFuel"
| "parseredirs (Suc k) buf s rs =
     (let (b, s) = sh_peek buf s [60, 62] in
      if \<not> b then Ok (rs, s)
      else let (tok, _, _, s) = gettoken buf s; (t, q, eq, s) = gettoken buf s in
        if t \<noteq> 97 then Panic ''missing file for redirection'' else parseredirs k buf s (rs @ [redir_of tok (q, eq)]))"

primrec parse_args :: "nat \<Rightarrow> uchar list \<Rightarrow> nat \<Rightarrow> span list \<Rightarrow> span redir list \<Rightarrow> (span cmd \<times> nat) res" where
  "parse_args 0 buf s argv rs = OutOfFuel"
| "parse_args (Suc k) buf s argv rs =
     (let (b, s) = sh_peek buf s [124, 41, 38, 59] in
      if b then Ok (redirs rs (Exec argv), s)
      else let (tok, q, eq, s) = gettoken buf s in
        if tok = 0 then Ok (redirs rs (Exec argv), s)
        else if tok \<noteq> 97 then Panic ''syntax''
        else let argv = argv @ [(q, eq)] in
          if length argv \<ge> MAXARGS then Panic ''too many args''
          else bindR (parseredirs k buf s rs) (\<lambda>(rs, s). parse_args k buf s argv rs))"

primrec parse_backs :: "nat \<Rightarrow> uchar list \<Rightarrow> nat \<Rightarrow> span cmd \<Rightarrow> (span cmd \<times> nat) res" where
  "parse_backs 0 buf s cmd = OutOfFuel"
| "parse_backs (Suc k) buf s cmd =
     (let (b, s) = sh_peek buf s [38] in
      if \<not> b then Ok (cmd, s) else let (_, _, _, s) = gettoken buf s in parse_backs k buf s (Back cmd))"

fun parseline :: "nat \<Rightarrow> uchar list \<Rightarrow> nat \<Rightarrow> (span cmd \<times> nat) res"
  and parsepipe :: "nat \<Rightarrow> uchar list \<Rightarrow> nat \<Rightarrow> (span cmd \<times> nat) res"
  and parseblock :: "nat \<Rightarrow> uchar list \<Rightarrow> nat \<Rightarrow> (span cmd \<times> nat) res"
  and parseexec :: "nat \<Rightarrow> uchar list \<Rightarrow> nat \<Rightarrow> (span cmd \<times> nat) res" where
  "parseline 0 buf s = OutOfFuel"
| "parseline (Suc k) buf s =
     bindR (parsepipe k buf s) (\<lambda>(cmd, s).
     bindR (parse_backs k buf s cmd) (\<lambda>(cmd, s).
     let (b, s) = sh_peek buf s [59] in
     if \<not> b then Ok (cmd, s)
     else let (_, _, _, s) = gettoken buf s in bindR (parseline k buf s) (\<lambda>(right, s). Ok (Lst cmd right, s))))"
| "parsepipe 0 buf s = OutOfFuel"
| "parsepipe (Suc k) buf s =
     bindR (parseexec k buf s) (\<lambda>(cmd, s).
     let (b, s) = sh_peek buf s [124] in
     if \<not> b then Ok (cmd, s)
     else let (_, _, _, s) = gettoken buf s in bindR (parsepipe k buf s) (\<lambda>(right, s). Ok (Pipe cmd right, s)))"
| "parseblock 0 buf s = OutOfFuel"
| "parseblock (Suc k) buf s =
     (let (b, s) = sh_peek buf s [40] in
      if \<not> b then Panic ''parseblock''
      else let (_, _, _, s) = gettoken buf s in
        bindR (parseline k buf s) (\<lambda>(cmd, s).
        let (b, s) = sh_peek buf s [41] in
        if \<not> b then Panic ''syntax - missing )''
        else let (_, _, _, s) = gettoken buf s in bindR (parseredirs k buf s []) (\<lambda>(rs, s). Ok (redirs rs cmd, s))))"
| "parseexec 0 buf s = OutOfFuel"
| "parseexec (Suc k) buf s =
     (let (b, s) = sh_peek buf s [40] in
      if b then parseblock k buf s
      else bindR (parseredirs k buf s []) (\<lambda>(rs, s). parse_args k buf s [] rs))"

text \<open>\<^verbatim>\<open>nulterminate()\<close> on the line with its NUL.\<close>

primrec nulterminate :: "span cmd \<Rightarrow> uchar list \<Rightarrow> uchar list" where
  "nulterminate (Exec argv) buf = fold (\<lambda>w buf. buf[snd w := 0]) argv buf"
| "nulterminate (Redir c w mode fd) buf = (nulterminate c buf)[snd w := 0]"
| "nulterminate (Pipe l r) buf = nulterminate r (nulterminate l buf)"
| "nulterminate (Lst l r) buf = nulterminate r (nulterminate l buf)"
| "nulterminate (Back c) buf = nulterminate c buf"

text \<open>The command, and the line as it is afterwards; the words of the command are NUL-terminated strings in it.\<close>

definition parsecmd :: "uchar list \<Rightarrow> (span cmd \<times> uchar list) res" where
  "parsecmd buf =
     bindR (parseline (4 * length buf + 5) buf 0) (\<lambda>(cmd, s).
     let (_, s) = sh_peek buf s [] in
     if s \<noteq> length buf then Panic ''syntax'' else Ok (cmd, nulterminate cmd (buf @ [0])))"

definition arg_str :: "uchar list \<Rightarrow> span \<Rightarrow> uchar list" where
  "arg_str line w = takeWhile (\<lambda>c. c \<noteq> 0) (drop (fst w) line)"

declare skip_ws.simps [simp del] word_end.simps [simp del]

section \<open>Bounds\<close>

lemma skip_ws_bounds: "s \<le> length buf \<Longrightarrow> s \<le> skip_ws buf s \<and> skip_ws buf s \<le> length buf"
  by (induction buf s rule: skip_ws.induct) (subst (1 2) skip_ws.simps, auto)

lemma skip_ws_stop: "skip_ws buf s < length buf \<Longrightarrow> \<not> isin whitespace (buf ! skip_ws buf s)"
proof (induction buf s rule: skip_ws.induct)
  case (1 buf s)
  then show ?case by (cases "s < length buf \<and> isin whitespace (buf ! s)") (auto simp: skip_ws.simps [of buf s])
qed

lemma skip_ws_idem [simp]: "skip_ws buf (skip_ws buf s) = skip_ws buf s"
  using skip_ws_stop [of buf s] by (subst skip_ws.simps) auto

lemma word_end_bounds: "s \<le> length buf \<Longrightarrow> s \<le> word_end buf s \<and> word_end buf s \<le> length buf"
  by (induction buf s rule: word_end.induct) (subst (1 2) word_end.simps, auto)

lemma word_end_progress:
  assumes "s < length buf" and "\<not> isin whitespace (buf ! s)" and "\<not> isin symbols (buf ! s)"
  shows "s < word_end buf s"
  using assms word_end_bounds [of "s + 1" buf] by (subst word_end.simps) auto

lemma isin_simps [simp]: "isin [] c = False" "isin (d # str) c = (c = d \<or> isin str c)"
  by (auto simp: isin_def)

lemma gettoken_bounds:
  assumes "s \<le> length buf" and "gettoken buf s = (t, q, eq, s')"
  shows "s \<le> q" and "q \<le> eq" and "eq \<le> s'" and "s' \<le> length buf" and "t \<noteq> 0 \<Longrightarrow> q < eq" and "eq \<le> length buf"
    and "chr_at buf (skip_ws buf s) \<noteq> 0 \<Longrightarrow> t \<noteq> 0"
proof -
  let ?q = "skip_ws buf s"
  have b: "s \<le> ?q" "?q \<le> length buf" using skip_ws_bounds [OF assms(1)] by auto
  have q: "q = ?q" using assms(2) by (auto simp: gettoken_def Let_def split: prod.splits)
  have w: "?q < word_end buf ?q" if "chr_at buf ?q \<noteq> 0" "chr_at buf ?q \<notin> {124, 40, 41, 59, 38, 60}" "chr_at buf ?q \<noteq> 62"
    using that skip_ws_stop [of buf s] by (intro word_end_progress) (auto simp: chr_at_def symbols_def split: if_splits)
  have lt: "?q < length buf" if "chr_at buf ?q \<noteq> 0" using that by (auto simp: chr_at_def split: if_splits)
  have lt2: "Suc ?q < length buf" if "chr_at buf (Suc ?q) = 62" using that by (auto simp: chr_at_def split: if_splits)
  have eq: "?q \<le> eq" "eq \<le> length buf" "t \<noteq> 0 \<longrightarrow> ?q < eq" "s' = skip_ws buf eq" "chr_at buf ?q \<noteq> 0 \<longrightarrow> t \<noteq> 0"
    using assms(2) b w lt lt2 word_end_bounds [OF b(2)]
    by (auto simp: gettoken_def Let_def Suc_le_eq split: if_splits)
  then show "s \<le> q" "q \<le> eq" "eq \<le> s'" "s' \<le> length buf" "t \<noteq> 0 \<Longrightarrow> q < eq" "eq \<le> length buf"
    "chr_at buf (skip_ws buf s) \<noteq> 0 \<Longrightarrow> t \<noteq> 0"
    using b q skip_ws_bounds [of eq buf] by auto
qed

lemma sh_peek_bounds:
  assumes "s \<le> length buf" and "sh_peek buf s toks = (b, s')"
  shows "s \<le> s'" and "s' \<le> length buf" and "b \<Longrightarrow> chr_at buf (skip_ws buf s') \<noteq> 0"
  using assms skip_ws_bounds [of s buf] by (auto simp: sh_peek_def Let_def)

section \<open>The parser returns\<close>

text \<open>A parser that returns or reports a syntax error, with a fact on what it returns.\<close>

definition returns :: "('a \<Rightarrow> bool) \<Rightarrow> 'a res \<Rightarrow> bool" where
  "returns P r \<longleftrightarrow> (\<exists>x. r = Ok x \<and> P x) \<or> (\<exists>e. r = Panic e)"

lemma returns_simps [simp]: "returns P (Ok x) = P x" "returns P (Panic e)" "\<not> returns P OutOfFuel" "\<not> returns P (Blocked c)"
  by (auto simp: returns_def)

lemma returns_bind: "returns P r \<Longrightarrow> (\<And>x. P x \<Longrightarrow> returns Q (f x)) \<Longrightarrow> returns Q (bindR r f)"
  by (cases r) auto

definition ok_span :: "uchar list \<Rightarrow> span \<Rightarrow> bool" where
  "ok_span buf w \<longleftrightarrow> fst w < snd w \<and> snd w \<le> length buf"

primrec few_args :: "'w cmd \<Rightarrow> bool" where
  "few_args (Exec argv) = (length argv < MAXARGS)"
| "few_args (Redir c w mode fd) = few_args c"
| "few_args (Pipe l r) = (few_args l \<and> few_args r)"
| "few_args (Lst l r) = (few_args l \<and> few_args r)"
| "few_args (Back c) = few_args c"

definition ok_cmd :: "uchar list \<Rightarrow> nat \<Rightarrow> span cmd \<times> nat \<Rightarrow> bool" where
  "ok_cmd buf s = (\<lambda>(c, s'). s \<le> s' \<and> s' \<le> length buf \<and> few_args c \<and> (\<forall>w\<in>set_cmd c. ok_span buf w))"

definition ok_redirs :: "uchar list \<Rightarrow> nat \<Rightarrow> span redir list \<times> nat \<Rightarrow> bool" where
  "ok_redirs buf s = (\<lambda>(rs, s'). s \<le> s' \<and> s' \<le> length buf \<and> (\<forall>r\<in>set rs. ok_span buf (fst r)))"

lemma redirs_simps [simp]: "redirs [] c = c" "redirs (r # rs) c = redirs rs (Redir c (fst r) (fst (snd r)) (snd (snd r)))"
  by (simp_all add: redirs_def split_beta)

lemma redirs_ok [simp]: "few_args (redirs rs c) = few_args c" "set_cmd (redirs rs c) = fst ` set rs \<union> set_cmd c"
  by (induction rs arbitrary: c) auto

lemma ok_redirs_cmd: "ok_redirs buf s (rs, s') \<Longrightarrow> ok_cmd buf s1 (c, s2) \<Longrightarrow> s0 \<le> s' \<Longrightarrow> ok_cmd buf s0 (redirs rs c, s')"
  by (simp add: ok_cmd_def ok_redirs_def ball_Un)

lemma parseredirs_returns:
  "s \<le> length buf \<Longrightarrow> length buf - s < k \<Longrightarrow> \<forall>r\<in>set rs. ok_span buf (fst r) \<Longrightarrow>
   returns (ok_redirs buf s) (parseredirs k buf s rs)"
proof (induction k arbitrary: s rs)
  case (Suc k)
  obtain b s1 where p: "sh_peek buf s [60, 62] = (b, s1)" by fastforce
  note pb = sh_peek_bounds [OF Suc.prems(1) p]
  show ?case
  proof (cases b)
    case False
    then show ?thesis using p pb Suc.prems by (simp add: ok_redirs_def)
  next
    case True
    obtain t1 q1 e1 s2 where g1: "gettoken buf s1 = (t1, q1, e1, s2)" by (metis prod_cases4)
    note b1 = gettoken_bounds [OF pb(2) g1]
    obtain t2 q2 e2 s3 where g2: "gettoken buf s2 = (t2, q2, e2, s3)" by (metis prod_cases4)
    note b2 = gettoken_bounds [OF b1(4) g2]
    have lt: "s < s2" using pb(1) b1(1,3,5,7) pb(3) True by force
    show ?thesis
    proof (cases "t2 = 97")
      case False
      then show ?thesis using True p g1 g2 by simp
    next
      case w: True
      have s3: "s < s3" "s3 \<le> length buf" using lt b2(1-4) by linarith+
      have sp: "ok_span buf (fst (redir_of t1 (q2, e2)))" using b2(5,6) w by (auto simp: redir_of_def ok_span_def)
      have "returns (ok_redirs buf s3) (parseredirs k buf s3 (rs @ [redir_of t1 (q2, e2)]))"
        using s3 Suc.prems sp by (intro Suc.IH) auto
      then have "returns (ok_redirs buf s) (parseredirs k buf s3 (rs @ [redir_of t1 (q2, e2)]))"
        using s3 by (auto simp: returns_def ok_redirs_def)
      then show ?thesis using True p g1 g2 w by simp
    qed
  qed
qed simp

lemma parse_args_returns:
  "s \<le> length buf \<Longrightarrow> length buf - s < k \<Longrightarrow> \<forall>r\<in>set rs. ok_span buf (fst r) \<Longrightarrow> \<forall>w\<in>set argv. ok_span buf w \<Longrightarrow>
   length argv < MAXARGS \<Longrightarrow> returns (ok_cmd buf s) (parse_args k buf s argv rs)"
proof (induction k arbitrary: s argv rs)
  case (Suc k)
  obtain b s1 where p: "sh_peek buf s [124, 41, 38, 59] = (b, s1)" by fastforce
  note pb = sh_peek_bounds [OF Suc.prems(1) p]
  obtain t q e s2 where g: "gettoken buf s1 = (t, q, e, s2)" by (metis prod_cases4)
  note gb = gettoken_bounds [OF pb(2) g]
  have s2: "s \<le> s2" "s2 \<le> length buf" using pb gb by linarith+
  have fin: "ok_cmd buf s (redirs rs (Exec argv), s')" if "s \<le> s'" "s' \<le> length buf" for s'
    using Suc.prems that by (auto simp: ok_cmd_def)
  consider (stop) "b \<or> t = 0" | (bad) "\<not> b" "t \<noteq> 0" "t \<noteq> 97 \<or> length argv \<ge> 9" | (arg) "\<not> b" "t = 97" "length argv < 9" by fastforce
  then show ?case
  proof cases
    case stop
    then show ?thesis using p g fin pb s2 by auto
  next
    case bad
    then show ?thesis using p g by auto
  next
    case arg
    have lt: "s < s2" using pb(1) gb(1,3,5) arg by simp
    have "returns (ok_redirs buf s2) (parseredirs k buf s2 rs)"
      using s2 lt Suc.prems by (intro parseredirs_returns) auto
    moreover have "returns (ok_cmd buf s) (parse_args k buf s3 (argv @ [(q, e)]) rs')" if "ok_redirs buf s2 (rs', s3)" for rs' s3
    proof -
      have s3: "s < s3" "s3 \<le> length buf" "\<forall>r\<in>set rs'. ok_span buf (fst r)" using that lt by (auto simp: ok_redirs_def)
      have "returns (ok_cmd buf s3) (parse_args k buf s3 (argv @ [(q, e)]) rs')"
        using s3 Suc.prems arg gb(5,6) by (intro Suc.IH) (auto simp: ok_span_def)
      then show ?thesis using s3 by (auto simp: returns_def ok_cmd_def)
    qed
    ultimately have "returns (ok_cmd buf s) (bindR (parseredirs k buf s2 rs) (\<lambda>(rs, s). parse_args k buf s (argv @ [(q, e)]) rs))"
      by (intro returns_bind [where P = "ok_redirs buf s2"]) auto
    then show ?thesis using p g arg by simp
  qed
qed simp

lemma parse_backs_returns:
  "s \<le> length buf \<Longrightarrow> length buf - s < k \<Longrightarrow> ok_cmd buf s0 (cmd, s) \<Longrightarrow> returns (ok_cmd buf s0) (parse_backs k buf s cmd)"
proof (induction k arbitrary: s cmd)
  case (Suc k)
  obtain b s1 where p: "sh_peek buf s [38] = (b, s1)" by fastforce
  note pb = sh_peek_bounds [OF Suc.prems(1) p]
  obtain t q e s2 where g: "gettoken buf s1 = (t, q, e, s2)" by (metis prod_cases4)
  note gb = gettoken_bounds [OF pb(2) g]
  show ?case
  proof (cases b)
    case False
    then show ?thesis using p pb Suc.prems by (auto simp: ok_cmd_def)
  next
    case True
    have lt: "s < s2" using pb(1) gb(1,3,5,7) pb(3) True by force
    have "returns (ok_cmd buf s0) (parse_backs k buf s2 (Back cmd))"
      using lt gb(4) Suc.prems by (intro Suc.IH) (auto simp: ok_cmd_def)
    then show ?thesis using True p g by simp
  qed
qed simp

text \<open>After a token was seen, \<^verbatim>\<open>gettoken()\<close> moves past it.\<close>

lemma peek_token:
  assumes "s \<le> length buf" and "sh_peek buf s toks = (True, s1)" and "gettoken buf s1 = (t, q, e, s2)"
  shows "s < s2" and "s2 \<le> length buf"
  using sh_peek_bounds [OF assms(1,2)] gettoken_bounds [OF _ assms(3)] by force+

lemma ok_cmd_mono: "returns (ok_cmd buf s') r \<Longrightarrow> s \<le> s' \<Longrightarrow> returns (ok_cmd buf s) r"
  by (auto simp: returns_def ok_cmd_def)

text \<open>The optional right-hand side of \<^verbatim>\<open>;\<close> and of \<^verbatim>\<open>|\<close>, parsed by \<open>nxt\<close>.\<close>

lemma optional_right:
  assumes c: "ok_cmd buf s (c, s2)" and nxt: "\<And>s4. s2 < s4 \<Longrightarrow> s4 \<le> length buf \<Longrightarrow> returns (ok_cmd buf s4) (nxt s4)"
    and F: "\<And>r. few_args (F c r) = (few_args c \<and> few_args r)" "\<And>r. set_cmd (F c r) = set_cmd c \<union> set_cmd r"
  shows "returns (ok_cmd buf s) (let (b, s) = sh_peek buf s2 toks in if \<not> b then Ok (c, s) else
    let (_, _, _, s) = gettoken buf s in bindR (nxt s) (\<lambda>(right, s). Ok (F c right, s)))"
proof -
  have s2: "s \<le> s2" "s2 \<le> length buf" using c by (auto simp: ok_cmd_def)
  obtain b s3 where p: "sh_peek buf s2 toks = (b, s3)" by fastforce
  obtain t q e s4 where g: "gettoken buf s3 = (t, q, e, s4)" by (metis prod_cases4)
  show ?thesis
  proof (cases b)
    case False
    then show ?thesis using p c sh_peek_bounds [OF s2(2) p] by (auto simp: ok_cmd_def)
  next
    case True
    have s4: "s2 < s4" "s4 \<le> length buf" using peek_token [OF s2(2) _ g] p True by auto
    have "returns (ok_cmd buf s) (bindR (nxt s4) (\<lambda>(right, s). Ok (F c right, s)))"
      by (rule returns_bind [OF nxt [OF s4]]) (use c s4 s2 F in \<open>auto simp: ok_cmd_def\<close>)
    then show ?thesis using p g True by simp
  qed
qed

lemma parseline_step:
  assumes "\<And>s. s \<le> length buf \<Longrightarrow> 4 * (length buf - s) + 5 \<le> k \<Longrightarrow> returns (ok_cmd buf s) (parseline k buf s)"
    and "returns (ok_cmd buf s) (parsepipe k buf s)" and "s \<le> length buf" and "4 * (length buf - s) + 5 \<le> Suc k"
  shows "returns (ok_cmd buf s) (parseline (Suc k) buf s)"
  unfolding parseline.simps
proof (rule returns_bind [OF assms(2)], clarify)
  fix c1 s1 assume x: "ok_cmd buf s (c1, s1)"
  then have s1: "s \<le> s1" "s1 \<le> length buf" by (auto simp: ok_cmd_def)
  have "returns (ok_cmd buf s) (parse_backs k buf s1 c1)" using s1 x assms(4) by (intro parse_backs_returns) auto
  then show "returns (ok_cmd buf s) (bindR (parse_backs k buf s1 c1) (\<lambda>(cmd, s). let (b, s) = sh_peek buf s [59] in
      if \<not> b then Ok (cmd, s) else let (_, _, _, s) = gettoken buf s in bindR (parseline k buf s) (\<lambda>(right, s). Ok (Lst cmd right, s))))"
  proof (rule returns_bind, clarify)
    fix c2 s2 assume y: "ok_cmd buf s (c2, s2)"
    then have s2: "s \<le> s2" by (auto simp: ok_cmd_def)
    show "returns (ok_cmd buf s) (let (b, s) = sh_peek buf s2 [59] in if \<not> b then Ok (c2, s) else
       let (_, _, _, s) = gettoken buf s in bindR (parseline k buf s) (\<lambda>(right, s). Ok (Lst c2 right, s)))"
      by (rule optional_right [OF y]) (use s2 assms(1,4) in auto)
  qed
qed

lemma parsepipe_step:
  assumes "\<And>s. s \<le> length buf \<Longrightarrow> 4 * (length buf - s) + 4 \<le> k \<Longrightarrow> returns (ok_cmd buf s) (parsepipe k buf s)"
    and "returns (ok_cmd buf s) (parseexec k buf s)" and "4 * (length buf - s) + 4 \<le> Suc k"
  shows "returns (ok_cmd buf s) (parsepipe (Suc k) buf s)"
  unfolding parsepipe.simps
proof (rule returns_bind [OF assms(2)], clarify)
  fix c1 s1 assume x: "ok_cmd buf s (c1, s1)"
  then have s1: "s \<le> s1" by (auto simp: ok_cmd_def)
  show "returns (ok_cmd buf s) (let (b, s) = sh_peek buf s1 [124] in if \<not> b then Ok (c1, s) else
      let (_, _, _, s) = gettoken buf s in bindR (parsepipe k buf s) (\<lambda>(right, s). Ok (Pipe c1 right, s)))"
    by (rule optional_right [OF x]) (use s1 assms(1,3) in auto)
qed

lemma parseblock_step:
  assumes "\<And>s. s \<le> length buf \<Longrightarrow> 4 * (length buf - s) + 5 \<le> k \<Longrightarrow> returns (ok_cmd buf s) (parseline k buf s)"
    and s: "s \<le> length buf" and k: "4 * (length buf - s) + 2 \<le> Suc k"
  shows "returns (ok_cmd buf s) (parseblock (Suc k) buf s)"
proof -
  obtain b s1 where p: "sh_peek buf s [40] = (b, s1)" by fastforce
  obtain t q e s2 where g: "gettoken buf s1 = (t, q, e, s2)" by (metis prod_cases4)
  show ?thesis
  proof (cases b)
    case True
    have s2: "s < s2" "s2 \<le> length buf" using peek_token [OF s _ g] p True by auto
    have line: "returns (ok_cmd buf s2) (parseline k buf s2)" using s2 k by (intro assms(1)) auto
    have "returns (ok_cmd buf s) (bindR (parseline k buf s2) (\<lambda>(cmd, s). let (b, s) = sh_peek buf s [41] in
      if \<not> b then Panic ''syntax - missing )''
      else let (_, _, _, s) = gettoken buf s in bindR (parseredirs k buf s []) (\<lambda>(rs, s). Ok (redirs rs cmd, s))))"
    proof (rule returns_bind [OF line], clarify)
      fix c3 s3 assume y: "ok_cmd buf s2 (c3, s3)"
      then have s3: "s2 \<le> s3" "s3 \<le> length buf" by (auto simp: ok_cmd_def)
      obtain b s4 where p: "sh_peek buf s3 [41] = (b, s4)" by fastforce
      obtain t q e s5 where g: "gettoken buf s4 = (t, q, e, s5)" by (metis prod_cases4)
      have "returns (ok_cmd buf s) (bindR (parseredirs k buf s5 []) (\<lambda>(rs, s). Ok (redirs rs c3, s)))" if b
      proof -
        have s5: "s3 < s5" "s5 \<le> length buf" using peek_token [OF s3(2) _ g] p that by auto
        have "returns (ok_redirs buf s5) (parseredirs k buf s5 [])"
          using s5 s3 s2 k by (intro parseredirs_returns) auto
        then show ?thesis
        proof (rule returns_bind, clarsimp)
          fix rs s6 assume r: "ok_redirs buf s5 (rs, s6)"
          then have "s \<le> s6" using s5 s3 s2 by (simp add: ok_redirs_def)
          then show "ok_cmd buf s (redirs rs c3, s6)" by (rule ok_redirs_cmd [OF r y])
        qed
      qed
      then show "returns (ok_cmd buf s) (let (b, s) = sh_peek buf s3 [41] in if \<not> b then Panic ''syntax - missing )''
        else let (_, _, _, s) = gettoken buf s in bindR (parseredirs k buf s []) (\<lambda>(rs, s). Ok (redirs rs c3, s)))"
        using p g by simp
    qed
    then show ?thesis using p g True by simp
  qed (use p in simp)
qed

lemma parseexec_step:
  assumes "\<And>s. s \<le> length buf \<Longrightarrow> 4 * (length buf - s) + 2 \<le> k \<Longrightarrow> returns (ok_cmd buf s) (parseblock k buf s)"
    and s: "s \<le> length buf" and k: "4 * (length buf - s) + 3 \<le> Suc k"
  shows "returns (ok_cmd buf s) (parseexec (Suc k) buf s)"
proof -
  obtain b s1 where p: "sh_peek buf s [40] = (b, s1)" by fastforce
  note pb = sh_peek_bounds [OF s p]
  have "returns (ok_cmd buf s1) (parseblock k buf s1)" using pb k by (intro assms(1)) auto
  moreover have "returns (ok_redirs buf s1) (parseredirs k buf s1 [])" using pb k by (intro parseredirs_returns) auto
  then have "returns (ok_cmd buf s1) (bindR (parseredirs k buf s1 []) (\<lambda>(rs, s). parse_args k buf s [] rs))"
  proof (rule returns_bind, clarify)
    fix rs s2 assume x: "ok_redirs buf s1 (rs, s2)"
    then have "returns (ok_cmd buf s2) (parse_args k buf s2 [] rs)"
      using pb k by (intro parse_args_returns) (auto simp: ok_redirs_def)
    then show "returns (ok_cmd buf s1) (parse_args k buf s2 [] rs)" by (rule ok_cmd_mono) (use x in \<open>simp add: ok_redirs_def\<close>)
  qed
  ultimately show ?thesis
    using p ok_cmd_mono [OF _ pb(1)] by simp
qed

lemma parse_returns:
  "s \<le> length buf \<Longrightarrow>
   (4 * (length buf - s) + 5 \<le> k \<longrightarrow> returns (ok_cmd buf s) (parseline k buf s)) \<and>
   (4 * (length buf - s) + 4 \<le> k \<longrightarrow> returns (ok_cmd buf s) (parsepipe k buf s)) \<and>
   (4 * (length buf - s) + 2 \<le> k \<longrightarrow> returns (ok_cmd buf s) (parseblock k buf s)) \<and>
   (4 * (length buf - s) + 3 \<le> k \<longrightarrow> returns (ok_cmd buf s) (parseexec k buf s))"
proof (induction k arbitrary: s)
  case (Suc k)
  have "4 * (length buf - s) + 5 \<le> Suc k \<longrightarrow> returns (ok_cmd buf s) (parseline (Suc k) buf s)"
    by (intro impI parseline_step) (use Suc in auto)
  moreover have "4 * (length buf - s) + 4 \<le> Suc k \<longrightarrow> returns (ok_cmd buf s) (parsepipe (Suc k) buf s)"
    by (intro impI parsepipe_step) (use Suc in auto)
  moreover have "4 * (length buf - s) + 2 \<le> Suc k \<longrightarrow> returns (ok_cmd buf s) (parseblock (Suc k) buf s)"
    by (intro impI parseblock_step) (use Suc in auto)
  moreover have "4 * (length buf - s) + 3 \<le> Suc k \<longrightarrow> returns (ok_cmd buf s) (parseexec (Suc k) buf s)"
    by (intro impI parseexec_step) (use Suc in auto)
  ultimately show ?case by blast
qed simp

section \<open>nulterminate()\<close>

lemma nth_upd: "j < length xs \<Longrightarrow> xs[i := x] ! j = (if i = j then x else xs ! j)"
  by (cases "i = j") simp_all

lemma fold_zero:
  "length (fold (\<lambda>w buf. buf[snd w := 0]) ws buf) = length buf"
  "i < length buf \<Longrightarrow> fold (\<lambda>w buf. buf[snd w := 0]) ws buf ! i = (if i \<in> snd ` set ws then 0 else buf ! i)"
  by (induction ws arbitrary: buf) (simp_all add: nth_upd)

lemma length_nulterminate [simp]: "length (nulterminate c buf) = length buf"
  by (induction c arbitrary: buf) (auto simp: fold_zero)

lemma nth_nulterminate:
  "i < length buf \<Longrightarrow> nulterminate c buf ! i = (if i \<in> snd ` set_cmd c then 0 else buf ! i)"
  by (induction c arbitrary: buf) (simp_all add: fold_zero nth_upd image_Un)

text \<open>C29. \<^verbatim>\<open>parsecmd()\<close> returns on every line: with a syntax error, or with a command whose words lie within the line, each followed by
  a NUL that was written inside the buffer, and whose commands have fewer than \<^verbatim>\<open>MAXARGS\<close> words each, so that the
  null pointer that ends \<^verbatim>\<open>argv\<close> fits.\<close>

theorem parsecmd_total:
  "(\<exists>e. parsecmd buf = Panic e) \<or>
   (\<exists>cmd line. parsecmd buf = Ok (cmd, line) \<and> few_args cmd \<and> length line = length buf + 1 \<and>
      (\<forall>w\<in>set_cmd cmd. fst w < snd w \<and> snd w \<le> length buf \<and> line ! snd w = 0))"
proof -
  have "returns (ok_cmd buf 0) (parseline (4 * length buf + 5) buf 0)" using parse_returns [of 0 buf "4 * length buf + 5"] by simp
  then consider e where "parseline (4 * length buf + 5) buf 0 = Panic e"
    | c s where "parseline (4 * length buf + 5) buf 0 = Ok (c, s)" "ok_cmd buf 0 (c, s)" by (auto simp: returns_def)
  then show ?thesis
  proof cases
    case 1
    then show ?thesis by (simp add: parsecmd_def)
  next
    case 2
    have "snd w < length (buf @ [0])" if "w \<in> set_cmd c" for w using 2(2) that by (auto simp: ok_cmd_def ok_span_def)
    then have "\<forall>w\<in>set_cmd c. nulterminate c (buf @ [0]) ! snd w = 0" by (simp add: nth_nulterminate)
    then show ?thesis using 2 by (simp add: parsecmd_def ok_cmd_def ok_span_def split: prod.split)
  qed
qed

text \<open>The line \<^verbatim>\<open>ls>f\<close>.\<close>

lemma parse_ls: "parsecmd [108, 115, 62, 102] = Ok (Redir (Exec [(0, 2)]) (3, 4) 0x601 1, [108, 115, 0, 102, 0])"
  by code_simp

theorem parsecmd_total_witness:
  "\<exists>cmd line. parsecmd [108, 115, 62, 102] = Ok (cmd, line) \<and> few_args cmd \<and> set_cmd cmd = {(0, 2), (3, 4)} \<and>
     line ! 2 = 0 \<and> line ! 4 = 0"
  using parsecmd_total [of "[108, 115, 62, 102]"] unfolding parse_ls by auto

end
