(* ===== verification/Sh_Parse.thy ===== *)
theory Sh_Parse
  imports Sh
begin

text \<open>
  The shell's parser inverts printing: every command, printed with one blank before each token and with parentheses where the
  grammar needs them, is parsed back to the same command.
\<close>

section \<open>Printing a command\<close>

datatype tok = Word "uchar list" | Sym uchar | App

fun tok_text :: "tok \<Rightarrow> uchar list" where
  "tok_text (Word w) = w" | "tok_text (Sym c) = [c]" | "tok_text App = [62, 62]"

fun tok_code :: "tok \<Rightarrow> uchar" where
  "tok_code (Word w) = 97" | "tok_code (Sym c) = c" | "tok_code App = 43"

definition good_word :: "uchar list \<Rightarrow> bool" where
  "good_word w \<longleftrightarrow> w \<noteq> [] \<and> (\<forall>c\<in>set w. c \<noteq> 0 \<and> \<not> isin whitespace c \<and> \<not> isin symbols c)"

fun good_tok :: "tok \<Rightarrow> bool" where
  "good_tok (Word w) = good_word w" | "good_tok (Sym c) = isin symbols c" | "good_tok App = True"

definition render :: "tok list \<Rightarrow> uchar list" where
  "render ts = concat (map (\<lambda>t. 32 # tok_text t) ts)"

definition redir_tok :: "int \<Rightarrow> int \<Rightarrow> tok" where
  "redir_tok mode fd = (if mode = RD_MODE then Sym 60 else if mode = WR_MODE then Sym 62 else App)"

text \<open>
  The tokens of a command at a level of the grammar: 0 for \<^verbatim>\<open>parseexec()\<close>, 1 for \<^verbatim>\<open>parsepipe()\<close>, 2 for the loop over \<^verbatim>\<open>&\<close>, 3 for \<^verbatim>\<open>parseline()\<close>.
\<close>

definition paren :: "bool \<Rightarrow> tok list \<Rightarrow> tok list" where
  "paren b ts = (if b then [Sym 40] @ ts @ [Sym 41] else ts)"

primrec toks :: "uchar list cmd \<Rightarrow> nat \<Rightarrow> tok list" where
  "toks (Exec ws) l = map Word ws"
| "toks (Redir c f mode fd) l = toks c 0 @ [redir_tok mode fd, Word f]"
| "toks (Pipe a b) l = paren (l < 1) (toks a 0 @ [Sym 124] @ toks b 1)"
| "toks (Back c) l = paren (l < 2) (toks c 2 @ [Sym 38])"
| "toks (Lst a b) l = paren (l < 3) (toks a 2 @ [Sym 59] @ toks b 3)"

text \<open>The commands a line can denote: words without special characters, the three kinds of redirection, fewer than \<^verbatim>\<open>MAXARGS\<close> words.\<close>

primrec good_cmd :: "uchar list cmd \<Rightarrow> bool" where
  "good_cmd (Exec ws) = (length ws < MAXARGS \<and> (\<forall>w\<in>set ws. good_word w))"
| "good_cmd (Redir c f mode fd) =
     (good_cmd c \<and> good_word f \<and> (mode, fd) \<in> {(RD_MODE, 0), (WR_MODE, 1), (APP_MODE, 1)})"
| "good_cmd (Pipe a b) = (good_cmd a \<and> good_cmd b)"
| "good_cmd (Lst a b) = (good_cmd a \<and> good_cmd b)"
| "good_cmd (Back c) = good_cmd c"

definition print_cmd :: "uchar list cmd \<Rightarrow> uchar list" where
  "print_cmd c = render (toks c 3)"

section \<open>Tokens in the line\<close>

text \<open>From \<open>s\<close> on the line holds these tokens, with or without the first blank.\<close>

definition holds :: "uchar list \<Rightarrow> nat \<Rightarrow> tok list \<Rightarrow> bool" where
  "holds buf s ts \<longleftrightarrow> s \<le> length buf \<and> (\<forall>t\<in>set ts. good_tok t) \<and> (drop s buf = render ts \<or> drop s buf = drop 1 (render ts))"

definition slice :: "uchar list \<Rightarrow> span \<Rightarrow> uchar list" where
  "slice buf w = take (snd w - fst w) (drop (fst w) buf)"

text \<open>A word of the line followed by a blank or the end.\<close>

definition lone :: "uchar list \<Rightarrow> span \<Rightarrow> bool" where
  "lone buf w \<longleftrightarrow> fst w < snd w \<and> snd w \<le> length buf \<and> chr_at buf (snd w) \<in> {0, 32} \<and> good_word (slice buf w)"

lemma render_simps [simp]: "render [] = []" "render (t # ts) = 32 # tok_text t @ render ts"
  by (simp_all add: render_def)

lemma good_text: "good_tok t \<Longrightarrow> \<exists>c cs. tok_text t = c # cs \<and> c \<noteq> 0 \<and> \<not> isin whitespace c"
  by (cases t) (auto simp: good_word_def neq_Nil_conv symbols_def whitespace_def)

lemma drop_chr: "drop s buf = c # cs \<Longrightarrow> s < length buf \<and> buf ! s = c \<and> chr_at buf s = c \<and> drop (Suc s) buf = cs"
proof -
  assume a: "drop s buf = c # cs"
  then have "s < length buf" by (metis drop_all not_le list.distinct(1))
  with a show ?thesis by (simp add: chr_at_def) (metis Cons_nth_drop_Suc list.inject)
qed

lemma drop_nil: "drop s buf = [] \<Longrightarrow> chr_at buf s = 0"
  by (simp add: chr_at_def)

lemma skip_ws_holds:
  assumes "holds buf s ts"
  shows "drop (skip_ws buf s) buf = drop 1 (render ts)" and "skip_ws buf s \<le> length buf"
proof -
  have stay: "skip_ws buf s = s" if "drop s buf = drop 1 (render ts)" "\<forall>t\<in>set ts. good_tok t" for s
  proof (cases ts)
    case Nil
    then have "s \<ge> length buf" using that by simp
    then show ?thesis by (subst skip_ws.simps) simp
  next
    case (Cons t ts')
    have t: "good_tok t" using that(2) Cons by simp
    have d: "drop s buf = tok_text t @ render ts'" using that(1) Cons by simp
    obtain c cs where "drop s buf = c # cs" "\<not> isin whitespace c" using good_text [OF t] d by auto
    then show ?thesis using drop_chr [of s buf c cs] by (subst skip_ws.simps) simp
  qed
  have s: "s \<le> length buf" "\<forall>t\<in>set ts. good_tok t" using assms by (auto simp: holds_def)
  show "skip_ws buf s \<le> length buf" using skip_ws_bounds [OF s(1)] by simp
  show "drop (skip_ws buf s) buf = drop 1 (render ts)"
  proof (cases "drop s buf = drop 1 (render ts)")
    case True
    then show ?thesis using stay [OF True s(2)] by simp
  next
    case False
    then have "drop s buf = render ts" using assms by (auto simp: holds_def)
    with False obtain cs where c: "drop s buf = 32 # cs" "cs = drop 1 (render ts)" by (cases ts) auto
    note d = drop_chr [OF c(1)]
    have "skip_ws buf s = skip_ws buf (s + 1)" using d by (subst skip_ws.simps) (simp add: whitespace_def)
    moreover have "skip_ws buf (s + 1) = s + 1" using d c(2) s(2) by (intro stay) auto
    ultimately show ?thesis using d c(2) by simp
  qed
qed

lemma holds_skip: "holds buf s ts \<Longrightarrow> holds buf (skip_ws buf s) ts"
  using skip_ws_holds [of buf s ts] by (simp add: holds_def)

text \<open>What \<open>sh_peek\<close> sees.\<close>

definition first_chr :: "tok list \<Rightarrow> uchar" where
  "first_chr ts = (case ts of [] \<Rightarrow> 0 | t # _ \<Rightarrow> hd (tok_text t))"

lemma chr_holds: "holds buf s ts \<Longrightarrow> chr_at buf (skip_ws buf s) = first_chr ts"
proof (cases ts)
  case Nil
  moreover assume "holds buf s ts"
  ultimately show ?thesis using skip_ws_holds(1) [of buf s ts] by (simp add: first_chr_def chr_at_def)
next
  case (Cons t ts')
  moreover assume h: "holds buf s ts"
  moreover obtain c cs where t: "tok_text t = c # cs" using good_text [of t] h Cons by (auto simp: holds_def)
  ultimately have "drop (skip_ws buf s) buf = c # cs @ render ts'" using skip_ws_holds(1) [of buf s ts] by simp
  from drop_chr [OF this] show ?thesis using t Cons by (simp add: first_chr_def)
qed

lemma sh_peek_holds:
  assumes "holds buf s ts"
  shows "\<exists>s'. sh_peek buf s cs = (first_chr ts \<noteq> 0 \<and> isin cs (first_chr ts), s') \<and> holds buf s' ts"
  using chr_holds [OF assms] holds_skip [OF assms] by (simp add: sh_peek_def Let_def)

lemma sh_peek_True:
  assumes "holds buf s ts" and "first_chr ts \<noteq> 0" and "isin cs (first_chr ts)"
  obtains s' where "sh_peek buf s cs = (True, s')" "holds buf s' ts"
  using sh_peek_holds [OF assms(1), of cs] assms(2,3) by auto

lemma sh_peek_False:
  assumes "holds buf s ts" and "\<not> isin cs (first_chr ts)"
  obtains s' where "sh_peek buf s cs = (False, s')" "holds buf s' ts"
  using sh_peek_holds [OF assms(1), of cs] assms(2) by auto

section \<open>Reading a token\<close>

lemma word_end_drop:
  "drop s buf = w @ rest \<Longrightarrow> \<forall>c\<in>set w. \<not> isin whitespace c \<and> \<not> isin symbols c \<Longrightarrow> rest = [] \<or> hd rest = 32 \<Longrightarrow>
   word_end buf s = s + length w"
proof (induction w arbitrary: s)
  case Nil
  show ?case
  proof (cases rest)
    case Nil
    then have "s \<ge> length buf" using Nil.prems(1) by simp
    then show ?thesis by (subst word_end.simps) simp
  next
    case (Cons c cs)
    then show ?thesis using Nil.prems drop_chr [of s buf c cs] by (subst word_end.simps) (simp add: whitespace_def)
  qed
next
  case (Cons c w)
  have d: "drop s buf = c # (w @ rest)" using Cons.prems(1) by simp
  note d = drop_chr [OF d]
  have "word_end buf s = word_end buf (s + 1)" using d Cons.prems(2) by (subst word_end.simps) simp
  then show ?case using Cons.IH [of "s + 1"] Cons.prems d by simp
qed

lemma render_head: "render ts = [] \<or> hd (render ts) = 32"
  by (cases ts) auto

lemma holds_after:
  assumes "drop q buf = tok_text t @ render ts" and "q \<le> length buf" and "\<forall>t\<in>set ts. good_tok t" and "eq = q + length (tok_text t)"
  shows "holds buf (skip_ws buf eq) ts" and "slice buf (q, eq) = tok_text t" and "eq \<le> length buf" and "chr_at buf eq \<in> {0, 32}"
proof -
  have d: "drop eq buf = render ts" using assms(1,4) by (metis add.commute append_eq_conv_conj drop_drop)
  have "length (tok_text t) \<le> length (drop q buf)" by (simp add: assms(1))
  then show e: "eq \<le> length buf" using assms(2,4) by simp
  then have "holds buf eq ts" using d assms(3) by (simp add: holds_def)
  then show "holds buf (skip_ws buf eq) ts" by (rule holds_skip)
  show "slice buf (q, eq) = tok_text t" using assms(1,4) by (simp add: slice_def)
  show "chr_at buf eq \<in> {0, 32}"
  proof (cases "render ts")
    case Nil
    then show ?thesis using d by (simp add: chr_at_def)
  next
    case (Cons c cs)
    then show ?thesis using drop_chr [of eq buf c cs] d render_head [of ts] by simp
  qed
qed

lemma gettoken_holds:
  assumes "holds buf s (t # ts)"
  shows "\<exists>q eq s'. gettoken buf s = (tok_code t, q, eq, s') \<and> holds buf s' ts \<and> slice buf (q, eq) = tok_text t \<and>
    (t \<in> range Word \<longrightarrow> lone buf (q, eq))"
proof -
  let ?q = "skip_ws buf s"
  have good: "good_tok t" "\<forall>t\<in>set ts. good_tok t" using assms by (auto simp: holds_def)
  have d: "drop ?q buf = tok_text t @ render ts" "?q \<le> length buf" using skip_ws_holds [OF assms] by simp_all
  note after = holds_after [OF d good(2) refl]
  obtain c cs where t: "tok_text t = c # cs" "c \<noteq> 0" using good_text [OF good(1)] by blast
  have c: "chr_at buf ?q = c" "chr_at buf (Suc ?q) = first_chr' (cs @ render ts)" if "first_chr' = (\<lambda>x. if x = [] then 0 else hd x)" for first_chr'
    using d(1) t drop_chr [of ?q buf c "cs @ render ts"] drop_nil [of "Suc ?q" buf] drop_chr [of "Suc ?q" buf "hd (cs @ render ts)" "tl (cs @ render ts)"]
    by (auto simp: that)
  note c = c [OF refl]
  have g: "gettoken buf s = (tok_code t, ?q, ?q + length (tok_text t), skip_ws buf (?q + length (tok_text t)))"
  proof (cases t)
    case (Word w)
    then have w: "good_word w" "w = c # cs" using good t by auto
    then have "c \<notin> {124, 40, 41, 59, 38, 60}" "c \<noteq> 62" by (auto simp: good_word_def symbols_def)
    moreover have "word_end buf ?q = ?q + length w"
      using d(1) Word w(1) render_head [of ts] by (intro word_end_drop) (auto simp: good_word_def)
    ultimately show ?thesis using c(1) t(2) Word by (simp add: gettoken_def Let_def)
  next
    case (Sym x)
    then have x: "x = c" "cs = []" "c \<in> {60, 124, 62, 38, 59, 40, 41}" using good t by (auto simp: symbols_def)
    then have "chr_at buf (Suc ?q) \<noteq> 62" using c(2) render_head [of ts] by auto
    then show ?thesis using c(1) t(2) Sym x by (auto simp: gettoken_def Let_def)
  next
    case App
    then have "c = 62" "cs = [62]" using t by auto
    then show ?thesis using c App by (simp add: gettoken_def Let_def)
  qed
  have "lone buf (?q, ?q + length (tok_text t))" if "t \<in> range Word"
    using that after good t by (auto simp: lone_def)
  then show ?thesis using g after by auto
qed

lemma gettoken_end:
  assumes "holds buf s []"
  shows "\<exists>q eq s'. gettoken buf s = (0, q, eq, s') \<and> holds buf s' []"
proof -
  have "chr_at buf (skip_ws buf s) = 0" using chr_holds [OF assms] by (simp add: first_chr_def)
  then show ?thesis using holds_skip [OF holds_skip [OF assms]] by (simp add: gettoken_def Let_def)
qed

section \<open>The parts of the grammar\<close>

text \<open>A parsed command denotes a command: its words in the line are the words, each followed by a blank or the end.\<close>

definition denotes :: "uchar list \<Rightarrow> span cmd \<Rightarrow> uchar list cmd \<Rightarrow> bool" where
  "denotes buf c' c \<longleftrightarrow> map_cmd (slice buf) c' = c \<and> (\<forall>w\<in>set_cmd c'. lone buf w)"

definition denotes_redirs :: "uchar list \<Rightarrow> span redir list \<Rightarrow> uchar list redir list \<Rightarrow> bool" where
  "denotes_redirs buf rs' rs \<longleftrightarrow> map (\<lambda>r. (slice buf (fst r), snd r)) rs' = rs \<and> (\<forall>r\<in>set rs'. lone buf (fst r))"

definition redir_toks :: "uchar list redir \<Rightarrow> tok list" where
  "redir_toks r = [redir_tok (fst (snd r)) (snd (snd r)), Word (fst r)]"

definition good_redir :: "uchar list redir \<Rightarrow> bool" where
  "good_redir r \<longleftrightarrow> good_word (fst r) \<and> snd r \<in> {(RD_MODE, 0), (WR_MODE, 1), (APP_MODE, 1)}"

definition follows :: "uchar list \<Rightarrow> tok list \<Rightarrow> bool" where
  "follows cs ts \<longleftrightarrow> first_chr ts = 0 \<or> isin cs (first_chr ts)"

lemma first_chr_simps [simp]: "first_chr [] = 0" "first_chr (Sym c # ts) = c" "first_chr (App # ts) = 62" "first_chr (Word w # ts) = hd w"
  by (simp_all add: first_chr_def)

lemma word_chr: "good_word w \<Longrightarrow> hd w \<noteq> 0 \<and> \<not> isin symbols (hd w)"
  by (cases w) (auto simp: good_word_def)

lemma redir_of_tok: "good_redir r \<Longrightarrow> redir_of (tok_code (redir_tok (fst (snd r)) (snd (snd r)))) w = (w, snd r)"
  by (cases r) (auto simp: good_redir_def redir_tok_def redir_of_def)

lemma redir_tok_chr: "isin [60, 62] (first_chr (redir_tok m d # ts)) \<and> first_chr (redir_tok m d # ts) \<noteq> 0"
  by (simp add: redir_tok_def)

lemma parseredirs_holds:
  "holds buf s (concat (map redir_toks rs) @ rest) \<Longrightarrow> \<not> isin [60, 62] (first_chr rest) \<Longrightarrow> length rs < k \<Longrightarrow> \<forall>r\<in>set rs. good_redir r \<Longrightarrow>
   \<exists>rs' s'. parseredirs k buf s acc = Ok (acc @ rs', s') \<and> holds buf s' rest \<and> denotes_redirs buf rs' rs"
proof (induction rs arbitrary: s k acc)
  case Nil
  then obtain k' where k: "k = Suc k'" by (cases k) auto
  from Nil.prems(1) have h: "holds buf s rest" by simp
  obtain s' where "sh_peek buf s [60, 62] = (False, s')" "holds buf s' rest" by (rule sh_peek_False [OF h Nil.prems(2)])
  then show ?case by (simp add: k denotes_redirs_def)
next
  case (Cons r rs)
  then obtain k' where k: "k = Suc k'" by (cases k) auto
  let ?t = "redir_tok (fst (snd r)) (snd (snd r))" and ?rest = "concat (map redir_toks rs) @ rest"
  from Cons.prems(1) have h: "holds buf s (?t # Word (fst r) # ?rest)" by (simp add: redir_toks_def [of r])
  obtain s1 where p: "sh_peek buf s [60, 62] = (True, s1)" "holds buf s1 (?t # Word (fst r) # ?rest)"
    by (rule sh_peek_True [OF h, of "[60, 62]"]) (use redir_tok_chr in blast)+
  obtain q1 e1 s2 where g1: "gettoken buf s1 = (tok_code ?t, q1, e1, s2)" "holds buf s2 (Word (fst r) # ?rest)"
    using gettoken_holds [OF p(2)] by blast
  obtain q e s3 where g2: "gettoken buf s2 = (97, q, e, s3)" "holds buf s3 ?rest" "slice buf (q, e) = fst r" "lone buf (q, e)"
    using gettoken_holds [OF g1(2)] by auto
  obtain rs' s' where w: "parseredirs k' buf s3 (acc @ [((q, e), snd r)]) = Ok ((acc @ [((q, e), snd r)]) @ rs', s')" "holds buf s' rest"
    "denotes_redirs buf rs' rs" using Cons.IH [OF g2(2) Cons.prems(2), of k' "acc @ [((q, e), snd r)]"] Cons.prems(3,4) k by auto
  have "parseredirs k buf s acc = Ok (acc @ ((q, e), snd r) # rs', s')"
    using p(1) g1(1) g2(1) w(1) Cons.prems(4) by (simp add: k redir_of_tok)
  then show ?case using w g2(3,4) by (intro exI [of _ "((q, e), snd r) # rs'"] exI [of _ s']) (simp add: denotes_redirs_def)
qed

lemma denotes_redir_cmd:
  assumes "denotes_redirs buf rs' rs" and "denotes buf c' c"
  shows "denotes buf (redirs rs' c') (redirs rs c)"
proof -
  have "map_cmd (slice buf) (redirs rs' c) = redirs (map (\<lambda>r. (slice buf (fst r), snd r)) rs') (map_cmd (slice buf) c)" for c
    by (induction rs' arbitrary: c) simp_all
  then show ?thesis using assms by (simp add: denotes_def denotes_redirs_def ball_Un)
qed

lemma parse_args_stop:
  assumes "holds buf s rest" and "follows [124, 41, 38, 59] rest" and "0 < k"
  shows "\<exists>s'. parse_args k buf s argv rs = Ok (redirs rs (Exec argv), s') \<and> holds buf s' rest"
proof -
  obtain k' where k: "k = Suc k'" using assms(3) by (cases k) auto
  obtain s1 where p: "sh_peek buf s [124, 41, 38, 59] = (first_chr rest \<noteq> 0, s1)" "holds buf s1 rest"
    using sh_peek_holds [OF assms(1), of "[124, 41, 38, 59]"] assms(2) by (auto simp: follows_def)
  show ?thesis
  proof (cases rest)
    case Nil
    then obtain q e s2 where "gettoken buf s1 = (0, q, e, s2)" "holds buf s2 []" using gettoken_end p(2) by blast
    then show ?thesis using p(1) k Nil by simp
  next
    case (Cons t ts)
    then have "first_chr rest \<noteq> 0" using good_text [of t] assms(1) by (auto simp: holds_def first_chr_def)
    then show ?thesis using p k by simp
  qed
qed

lemma parse_args_holds:
  "holds buf s (map Word ws @ concat (map redir_toks rs) @ rest) \<Longrightarrow> follows [124, 41, 38, 59] rest \<Longrightarrow> ws \<noteq> [] \<or> rs = [] \<Longrightarrow>
   length argv + length ws < MAXARGS \<Longrightarrow> length ws + length rs < k \<Longrightarrow> \<forall>r\<in>set rs. good_redir r \<Longrightarrow> \<forall>w\<in>set ws. good_word w \<Longrightarrow>
   \<exists>ws' rs' s'. parse_args k buf s argv acc = Ok (redirs (acc @ rs') (Exec (argv @ ws')), s') \<and> holds buf s' rest \<and>
     denotes_redirs buf rs' rs \<and> map (slice buf) ws' = ws \<and> (\<forall>w\<in>set ws'. lone buf w)"
proof (induction ws arbitrary: s k argv acc rs)
  case Nil
  then show ?case using parse_args_stop [of buf s rest k argv acc] by (auto simp: denotes_redirs_def)
next
  case (Cons w ws)
  note prems = Cons.prems and IH = Cons.IH
  from Cons obtain k' where k: "k = Suc k'" by (cases k) auto
  let ?redirs = "concat (map redir_toks rs)"
  have fc: "hd w \<noteq> 0" "\<not> isin symbols (hd w)" using prems(7) word_chr [of w] by auto
  from prems(1) have h: "holds buf s (Word w # map Word ws @ ?redirs @ rest)" by simp
  obtain s1 where p: "sh_peek buf s [124, 41, 38, 59] = (False, s1)" "holds buf s1 (Word w # map Word ws @ ?redirs @ rest)"
    by (rule sh_peek_False [OF h, of "[124, 41, 38, 59]"]) (use fc in \<open>auto simp: symbols_def\<close>)
  obtain q e s2 where g: "gettoken buf s1 = (97, q, e, s2)" "holds buf s2 (map Word ws @ ?redirs @ rest)" "slice buf (q, e) = w" "lone buf (q, e)"
    using gettoken_holds [OF p(2)] by auto
  have step: "parse_args k buf s argv acc = bindR (parseredirs k' buf s2 acc) (\<lambda>(rs, s). parse_args k' buf s (argv @ [(q, e)]) rs)"
    using p(1) g(1) prems(4) by (simp add: k)
  have fr: "\<not> isin [60, 62] (first_chr rest)" using prems(2) by (auto simp: follows_def)
  show ?case
  proof (cases ws)
    case Nil
    then obtain rs' s3 where r: "parseredirs k' buf s2 acc = Ok (acc @ rs', s3)" "holds buf s3 rest" "denotes_redirs buf rs' rs"
      using parseredirs_holds [of buf s2 rs rest k' acc] g(2) fr prems(5,6) k by auto
    obtain s4 where "parse_args k' buf s3 (argv @ [(q, e)]) (acc @ rs') = Ok (redirs (acc @ rs') (Exec (argv @ [(q, e)])), s4)" "holds buf s4 rest"
      using parse_args_stop [OF r(2) prems(2), of k'] prems(5) k by auto
    then show ?thesis using step r g(3,4) Nil
      by (intro exI [of _ "[(q, e)]"] exI [of _ rs'] exI [of _ s4]) simp
  next
    case ws: (Cons w2 ws2)
    then have "good_word w2" using prems(7) by simp
    then have "\<not> isin [60, 62] (first_chr (map Word ws @ ?redirs @ rest))" using word_chr [of w2] ws by (auto simp: symbols_def)
    then obtain s3 where r: "parseredirs k' buf s2 acc = Ok (acc, s3)" "holds buf s3 (map Word ws @ ?redirs @ rest)"
      using parseredirs_holds [of buf s2 "[]" "map Word ws @ ?redirs @ rest" k' acc] g(2) prems(5) k by (auto simp: denotes_redirs_def)
    obtain ws' rs' s4 where "parse_args k' buf s3 (argv @ [(q, e)]) acc = Ok (redirs (acc @ rs') (Exec ((argv @ [(q, e)]) @ ws')), s4)"
      "holds buf s4 rest" "denotes_redirs buf rs' rs" "map (slice buf) ws' = ws" "\<forall>w\<in>set ws'. lone buf w"
      using IH [OF r(2) prems(2), of "argv @ [(q, e)]" k' acc] prems(4-7) k ws by auto
    then show ?thesis using step r(1) g(3,4)
      by (intro exI [of _ "(q, e) # ws'"] exI [of _ rs'] exI [of _ s4]) simp
  qed
qed

section \<open>The recursive routines\<close>

definition parses :: "uchar list \<Rightarrow> (nat \<Rightarrow> (span cmd \<times> nat) res) \<Rightarrow> tok list \<Rightarrow> tok list \<Rightarrow> uchar list cmd \<Rightarrow> bool" where
  "parses buf f ts rest c \<longleftrightarrow>
     (\<forall>s. holds buf s (ts @ rest) \<longrightarrow> (\<exists>c' s'. f s = Ok (c', s') \<and> denotes buf c' c \<and> holds buf s' rest))"

lemma parsesD:
  assumes "parses buf f ts rest c" and "holds buf s (ts @ rest)"
  obtains c' s' where "f s = Ok (c', s')" "denotes buf c' c" "holds buf s' rest"
  using assms unfolding parses_def by blast

text \<open>A command is a core, not itself redirected, with redirections around it; or a command that does not end in \<^verbatim>\<open>&\<close> with some of them.\<close>

lemma redirs_snoc [simp]: "redirs (rs @ [r]) c = Redir (redirs rs c) (fst r) (fst (snd r)) (snd (snd r))"
  by (induction rs arbitrary: c) simp_all

definition redir_split :: "uchar list cmd \<Rightarrow> uchar list cmd \<Rightarrow> uchar list redir list \<Rightarrow> bool" where
  "redir_split c core rs \<longleftrightarrow> c = redirs rs core \<and> (\<forall>c' w m d. core \<noteq> Redir c' w m d) \<and> good_cmd core \<and>
     (\<forall>r\<in>set rs. good_redir r) \<and> toks c 0 = toks core 0 @ concat (map redir_toks rs)"

lemma redir_core: "good_cmd c \<Longrightarrow> \<exists>core rs. redir_split c core rs"
proof (induction c)
  case (Redir c f m d)
  then obtain core rs where "redir_split c core rs" by auto
  then have "redir_split (Redir c f m d) core (rs @ [(f, m, d)])"
    using Redir.prems by (auto simp: redir_split_def good_redir_def redir_toks_def [of "(f, m, d)"])
  then show ?case by blast
next
  case (Exec ws)
  then have "redir_split (Exec ws) (Exec ws) []" by (simp add: redir_split_def)
  then show ?case by blast
next
  case (Pipe a b)
  then have "redir_split (Pipe a b) (Pipe a b) []" by (simp add: redir_split_def)
  then show ?case by blast
next
  case (Lst a b)
  then have "redir_split (Lst a b) (Lst a b) []" by (simp add: redir_split_def)
  then show ?case by blast
next
  case (Back c)
  then have "redir_split (Back c) (Back c) []" by (simp add: redir_split_def)
  then show ?case by blast
qed

lemma back_core:
  obtains core n where "c = (Back ^^ n) core" "\<forall>c'. core \<noteq> Back c'" "good_cmd c = good_cmd core"
    "toks c 2 = toks core 2 @ replicate n (Sym 38)"
proof -
  have "\<exists>core n. c = (Back ^^ n) core \<and> (\<forall>c'. core \<noteq> Back c') \<and> good_cmd c = good_cmd core \<and>
     toks c 2 = toks core 2 @ replicate n (Sym 38)"
  proof (induction "size c" arbitrary: c rule: less_induct)
    case less
    show ?case
    proof (cases "\<exists>d. c = Back d")
      case True
      then obtain d where d: "c = Back d" by blast
      then obtain core n where "d = (Back ^^ n) core" "\<forall>c'. core \<noteq> Back c'" "good_cmd d = good_cmd core"
        "toks d 2 = toks core 2 @ replicate n (Sym 38)" using less [of d] by auto
      then show ?thesis using d by (intro exI [of _ core] exI [of _ "Suc n"]) (simp add: paren_def replicate_append_same)
    next
      case False
      then show ?thesis by (intro exI [of _ c] exI [of _ 0]) simp
    qed
  qed
  then show thesis using that by blast
qed

lemma toks_levels:
  "\<forall>a b. c \<noteq> Pipe a b \<Longrightarrow> toks c 1 = toks c 0"
  "\<forall>c'. c \<noteq> Back c' \<Longrightarrow> toks c 2 = toks c 1"
  "\<forall>a b. c \<noteq> Lst a b \<Longrightarrow> toks c 3 = toks c 2"
  "\<forall>ws. c \<noteq> Exec ws \<Longrightarrow> \<forall>c' w m d. c \<noteq> Redir c' w m d \<Longrightarrow> toks c 0 = [Sym 40] @ toks c 3 @ [Sym 41]"
  by (cases c; simp add: paren_def)+

lemma parse_backs_holds:
  "holds buf s (replicate n (Sym 38) @ rest) \<Longrightarrow> first_chr rest \<noteq> 38 \<Longrightarrow> n < k \<Longrightarrow>
   \<exists>s'. parse_backs k buf s cmd = Ok ((Back ^^ n) cmd, s') \<and> holds buf s' rest"
proof (induction n arbitrary: s k cmd)
  case 0
  then obtain k' where k: "k = Suc k'" by (cases k) auto
  from 0 have h: "holds buf s rest" by simp
  obtain s' where "sh_peek buf s [38] = (False, s')" "holds buf s' rest"
    by (rule sh_peek_False [OF h, of "[38]"]) (use 0 in auto)
  then show ?case by (simp add: k)
next
  case (Suc n)
  then obtain k' where k: "k = Suc k'" by (cases k) auto
  from Suc.prems(1) have h: "holds buf s (Sym 38 # replicate n (Sym 38) @ rest)" by simp
  obtain s1 where p: "sh_peek buf s [38] = (True, s1)" "holds buf s1 (Sym 38 # replicate n (Sym 38) @ rest)"
    by (rule sh_peek_True [OF h, of "[38]"]) simp_all
  obtain q e s2 where g: "gettoken buf s1 = (38, q, e, s2)" "holds buf s2 (replicate n (Sym 38) @ rest)"
    using gettoken_holds [OF p(2)] by auto
  obtain s' where "parse_backs k' buf s2 (Back cmd) = Ok ((Back ^^ n) (Back cmd), s')" "holds buf s' rest"
    using Suc.IH [OF g(2) Suc.prems(2), of k' "Back cmd"] Suc.prems(3) k by auto
  then show ?case using p(1) g(1) by (simp add: k funpow_swap1)
qed

lemma denotes_backs: "denotes buf c' c \<Longrightarrow> denotes buf ((Back ^^ n) c') ((Back ^^ n) c)"
  by (induction n) (auto simp: denotes_def)

lemma parse_right:
  assumes "denotes buf l' l" and "parses buf nxt ts rest r" and "holds buf s (Sym c # ts @ rest)" and "c \<noteq> 0"
    and F: "\<And>a b. map_cmd (slice buf) (F a b) = F' (map_cmd (slice buf) a) (map_cmd (slice buf) b)" "\<And>a b. set_cmd (F a b) = set_cmd a \<union> set_cmd b"
  shows "\<exists>c' s'. (let (b, s) = sh_peek buf s [c] in if \<not> b then Ok (l', s) else
      let (_, _, _, s) = gettoken buf s in bindR (nxt s) (\<lambda>(right, s). Ok (F l' right, s))) = Ok (c', s') \<and>
    denotes buf c' (F' l r) \<and> holds buf s' rest"
proof -
  obtain s1 where p: "sh_peek buf s [c] = (True, s1)" "holds buf s1 (Sym c # ts @ rest)"
    by (rule sh_peek_True [OF assms(3), of "[c]"]) (use assms(4) in simp_all)
  obtain q e s2 where g: "gettoken buf s1 = (c, q, e, s2)" "holds buf s2 (ts @ rest)" using gettoken_holds [OF p(2)] by auto
  obtain r' s3 where "nxt s2 = Ok (r', s3)" "denotes buf r' r" "holds buf s3 rest" by (rule parsesD [OF assms(2) g(2)])
  then show ?thesis using p(1) g(1) assms(1) F by (auto simp: denotes_def)
qed

lemma parse_no_right:
  assumes "holds buf s rest" and "first_chr rest \<noteq> c" and "denotes buf l' l"
  shows "\<exists>c' s'. (let (b, s) = sh_peek buf s [c] in if \<not> b then Ok (l', s) else
      let (_, _, _, s) = gettoken buf s in bindR (nxt s) (\<lambda>(right, s). Ok (F l' right, s))) = Ok (c', s') \<and>
    denotes buf c' l \<and> holds buf s' rest"
proof -
  obtain s1 where "sh_peek buf s [c] = (False, s1)" "holds buf s1 rest" by (rule sh_peek_False [OF assms(1), of "[c]"]) (use assms(2) in simp)
  then show ?thesis using assms(3) by auto
qed

lemma parseblock_holds:
  assumes line: "parses buf (parseline k buf) (toks c 3) (Sym 41 # concat (map redir_toks rs) @ rest) c"
    and rs: "\<forall>r\<in>set rs. good_redir r" "length rs < k" and rest: "\<not> isin [60, 62] (first_chr rest)"
  shows "parses buf (parseblock (Suc k) buf) (([Sym 40] @ toks c 3 @ [Sym 41]) @ concat (map redir_toks rs)) rest (redirs rs c)"
  unfolding parses_def
proof (intro allI impI)
  fix s assume "holds buf s ((([Sym 40] @ toks c 3 @ [Sym 41]) @ concat (map redir_toks rs)) @ rest)"
  then have h: "holds buf s (Sym 40 # toks c 3 @ Sym 41 # concat (map redir_toks rs) @ rest)" by simp
  obtain s1 where p: "sh_peek buf s [40] = (True, s1)" "holds buf s1 (Sym 40 # toks c 3 @ Sym 41 # concat (map redir_toks rs) @ rest)"
    by (rule sh_peek_True [OF h, of "[40]"]) simp_all
  obtain q e s2 where g: "gettoken buf s1 = (40, q, e, s2)" "holds buf s2 (toks c 3 @ Sym 41 # concat (map redir_toks rs) @ rest)"
    using gettoken_holds [OF p(2)] by auto
  obtain c' s3 where l: "parseline k buf s2 = Ok (c', s3)" "denotes buf c' c" "holds buf s3 (Sym 41 # concat (map redir_toks rs) @ rest)"
    by (rule parsesD [OF line g(2)])
  obtain s4 where p2: "sh_peek buf s3 [41] = (True, s4)" "holds buf s4 (Sym 41 # concat (map redir_toks rs) @ rest)"
    by (rule sh_peek_True [OF l(3), of "[41]"]) simp_all
  obtain q2 e2 s5 where g2: "gettoken buf s4 = (41, q2, e2, s5)" "holds buf s5 (concat (map redir_toks rs) @ rest)"
    using gettoken_holds [OF p2(2)] by auto
  obtain rs' s6 where r: "parseredirs k buf s5 [] = Ok (rs', s6)" "holds buf s6 rest" "denotes_redirs buf rs' rs"
    using parseredirs_holds [OF g2(2) rest rs(2,1), of "[]"] by auto
  show "\<exists>c' s'. parseblock (Suc k) buf s = Ok (c', s') \<and> denotes buf c' (redirs rs c) \<and> holds buf s' rest"
    using p(1) g(1) l(1) p2(1) g2(1) r denotes_redir_cmd [OF r(3) l(2)] by simp
qed

lemma parseexec_block:
  assumes "parses buf (parseblock k buf) (Sym 40 # ts) rest c"
  shows "parses buf (parseexec (Suc k) buf) (Sym 40 # ts) rest c"
  unfolding parses_def
proof (intro allI impI)
  fix s assume h: "holds buf s ((Sym 40 # ts) @ rest)"
  obtain s1 where p: "sh_peek buf s [40] = (True, s1)" "holds buf s1 ((Sym 40 # ts) @ rest)"
    by (rule sh_peek_True [OF h, of "[40]"]) simp_all
  obtain c' s' where "parseblock k buf s1 = Ok (c', s')" "denotes buf c' c" "holds buf s' rest" by (rule parsesD [OF assms p(2)])
  then show "\<exists>c' s'. parseexec (Suc k) buf s = Ok (c', s') \<and> denotes buf c' c \<and> holds buf s' rest"
    using p(1) by simp
qed

lemma parseexec_words:
  assumes "good_cmd (Exec ws)" and "\<forall>r\<in>set rs. good_redir r" and "follows [124, 41, 38, 59] rest" and "length ws + length rs < k"
  shows "parses buf (parseexec (Suc k) buf) (map Word ws @ concat (map redir_toks rs)) rest (redirs rs (Exec ws))"
  unfolding parses_def
proof (intro allI impI)
  fix s assume "holds buf s ((map Word ws @ concat (map redir_toks rs)) @ rest)"
  then have h: "holds buf s (map Word ws @ concat (map redir_toks rs) @ rest)" by simp
  have ws: "\<forall>w\<in>set ws. good_word w" "length [] + length ws < MAXARGS" using assms(1) by auto
  have fr: "\<not> isin [60, 62] (first_chr rest)" "first_chr rest \<noteq> 40" using assms(3) by (auto simp: follows_def)
  have wc: "\<not> isin [60, 62, 40] (first_chr (map Word ws @ ts))" if "ws \<noteq> []" for ts
    using that ws(1) word_chr [of "hd ws"] by (cases ws) (auto simp: symbols_def)
  have "\<not> isin [40] (first_chr (map Word ws @ concat (map redir_toks rs) @ rest))"
  proof (cases ws)
    case Nil
    then show ?thesis using fr by (cases rs) (auto simp: redir_toks_def redir_tok_def)
  qed (use wc in auto)
  then obtain s1 where p: "sh_peek buf s [40] = (False, s1)" "holds buf s1 (map Word ws @ concat (map redir_toks rs) @ rest)"
    by (rule sh_peek_False [OF h, of "[40]"])
  obtain rs1 rs2 where split: "rs = rs1 @ rs2" "ws \<noteq> [] \<or> rs2 = []" "ws \<noteq> [] \<longrightarrow> rs1 = []" by (cases "ws = []") auto
  let ?rest = "map Word ws @ concat (map redir_toks rs2) @ rest"
  have h1: "holds buf s1 (concat (map redir_toks rs1) @ ?rest)" using p(2) split by (cases "ws = []") auto
  have f1: "\<not> isin [60, 62] (first_chr ?rest)" using wc fr split(2) by (cases "ws = []") auto
  obtain rs1' s2 where r: "parseredirs k buf s1 [] = Ok (rs1', s2)" "holds buf s2 ?rest" "denotes_redirs buf rs1' rs1"
    using parseredirs_holds [OF h1 f1, of k "[]"] assms(2,4) split(1) by auto
  have "\<exists>ws' rs' s'. parse_args k buf s2 [] rs1' = Ok (redirs (rs1' @ rs') (Exec ([] @ ws')), s') \<and> holds buf s' rest \<and>
     denotes_redirs buf rs' rs2 \<and> map (slice buf) ws' = ws \<and> (\<forall>w\<in>set ws'. lone buf w)"
    using assms(2,4) split(1) by (intro parse_args_holds [OF r(2) assms(3) split(2) ws(2) _ _ ws(1)]) auto
  then obtain ws' rs2' s' where a: "parse_args k buf s2 [] rs1' = Ok (redirs (rs1' @ rs2') (Exec ws'), s')" "holds buf s' rest"
    "denotes_redirs buf rs2' rs2" "map (slice buf) ws' = ws" "\<forall>w\<in>set ws'. lone buf w" by auto
  have d1: "denotes buf (Exec ws') (Exec ws)" using a(4,5) by (simp add: denotes_def)
  have "denotes_redirs buf (rs1' @ rs2') rs" using r(3) a(3) split(1) by (auto simp: denotes_redirs_def)
  from denotes_redir_cmd [OF this d1]
  show "\<exists>c' s'. parseexec (Suc k) buf s = Ok (c', s') \<and> denotes buf c' (redirs rs (Exec ws)) \<and> holds buf s' rest"
    using p(1) r(1) a(1,2) by simp
qed

text \<open>The three levels together, by the fuel that is left.\<close>

definition exec_ok :: "uchar list \<Rightarrow> nat \<Rightarrow> bool" where
  "exec_ok buf k \<longleftrightarrow> (\<forall>c rest. good_cmd c \<longrightarrow> follows [124, 41, 38, 59] rest \<longrightarrow> 4 * length (toks c 0) + 3 \<le> k \<longrightarrow>
     parses buf (parseexec k buf) (toks c 0) rest c)"

definition pipe_ok :: "uchar list \<Rightarrow> nat \<Rightarrow> bool" where
  "pipe_ok buf k \<longleftrightarrow> (\<forall>c rest. good_cmd c \<longrightarrow> follows [41, 38, 59] rest \<longrightarrow> 4 * length (toks c 1) + 4 \<le> k \<longrightarrow>
     parses buf (parsepipe k buf) (toks c 1) rest c)"

definition line_ok :: "uchar list \<Rightarrow> nat \<Rightarrow> bool" where
  "line_ok buf k \<longleftrightarrow> (\<forall>c rest. good_cmd c \<longrightarrow> follows [41] rest \<longrightarrow> 4 * length (toks c 3) + 5 \<le> k \<longrightarrow>
     parses buf (parseline k buf) (toks c 3) rest c)"

lemma length_redirs: "length (concat (map redir_toks rs)) = 2 * length rs"
  by (induction rs) (simp_all add: redir_toks_def)

lemma exec_step:
  assumes "line_ok buf k"
  shows "exec_ok buf (Suc (Suc k))"
  unfolding exec_ok_def
proof (intro allI impI)
  fix c rest
  assume g: "good_cmd c" and f: "follows [124, 41, 38, 59] rest" and k: "4 * length (toks c 0) + 3 \<le> Suc (Suc k)"
  obtain core rs where r0: "redir_split c core rs" using redir_core [OF g] by blast
  from r0 have r: "c = redirs rs core" "\<forall>c' w m d. core \<noteq> Redir c' w m d" "good_cmd core" "\<forall>r\<in>set rs. good_redir r"
    "toks c 0 = toks core 0 @ concat (map redir_toks rs)" unfolding redir_split_def by blast+
  have len: "length (toks c 0) = length (toks core 0) + 2 * length rs" using r(5) length_redirs by simp
  show "parses buf (parseexec (Suc (Suc k)) buf) (toks c 0) rest c"
  proof (cases "\<exists>ws. core = Exec ws")
    case True
    then obtain ws where ws: "core = Exec ws" by blast
    then have "parses buf (parseexec (Suc (Suc k)) buf) (map Word ws @ concat (map redir_toks rs)) rest (redirs rs (Exec ws))"
      using r(3,4) f k len by (intro parseexec_words) auto
    then show ?thesis unfolding r(5) unfolding r(1) ws by simp
  next
    case False
    then have t: "toks core 0 = [Sym 40] @ toks core 3 @ [Sym 41]" using r(2) toks_levels(4) [of core] by blast
    have "parses buf (parseline k buf) (toks core 3) (Sym 41 # concat (map redir_toks rs) @ rest) core"
      using assms r(3) k len t by (simp add: line_ok_def follows_def)
    then have "parses buf (parseblock (Suc k) buf) (([Sym 40] @ toks core 3 @ [Sym 41]) @ concat (map redir_toks rs)) rest (redirs rs core)"
      by (rule parseblock_holds) (use r(4) f k len t in \<open>auto simp: follows_def\<close>)
    then have "parses buf (parseexec (Suc (Suc k)) buf) (Sym 40 # (toks core 3 @ [Sym 41]) @ concat (map redir_toks rs)) rest (redirs rs core)"
      by (intro parseexec_block) simp
    then show ?thesis unfolding r(5) t unfolding r(1) by simp
  qed
qed

lemma pipe_step:
  assumes "exec_ok buf k" and "pipe_ok buf k"
  shows "pipe_ok buf (Suc k)"
  unfolding pipe_ok_def
proof (intro allI impI)
  fix c rest
  assume g: "good_cmd c" and f: "follows [41, 38, 59] rest" and k: "4 * length (toks c 1) + 4 \<le> Suc k"
  have fr: "first_chr rest \<noteq> 124" "follows [124, 41, 38, 59] rest" using f by (auto simp: follows_def)
  show "parses buf (parsepipe (Suc k) buf) (toks c 1) rest c"
    unfolding parses_def
  proof (intro allI impI)
    fix s assume h: "holds buf s (toks c 1 @ rest)"
    show "\<exists>c' s'. parsepipe (Suc k) buf s = Ok (c', s') \<and> denotes buf c' c \<and> holds buf s' rest"
    proof (cases "\<exists>a b. c = Pipe a b")
      case False
      then have t: "toks c 1 = toks c 0" using toks_levels(1) by blast
      have "parses buf (parseexec k buf) (toks c 0) rest c" using assms(1) g fr(2) k t by (simp add: exec_ok_def)
      then obtain c' s1 where e: "parseexec k buf s = Ok (c', s1)" "denotes buf c' c" "holds buf s1 rest"
        by (rule parsesD) (use h t in simp)
      show ?thesis using parse_no_right [OF e(3) fr(1) e(2), of "parsepipe k buf" Pipe] by (simp add: e(1))
    next
      case True
      then obtain a b where c: "c = Pipe a b" by blast
      then have t: "toks c 1 = toks a 0 @ Sym 124 # toks b 1" by (simp add: paren_def)
      have "parses buf (parseexec k buf) (toks a 0) (Sym 124 # toks b 1 @ rest) a"
        using assms(1) g k t c by (simp add: exec_ok_def follows_def)
      then obtain a' s1 where e: "parseexec k buf s = Ok (a', s1)" "denotes buf a' a" "holds buf s1 (Sym 124 # toks b 1 @ rest)"
        by (rule parsesD) (use h t in simp)
      have b: "parses buf (parsepipe k buf) (toks b 1) rest b" using assms(2) g k t c f by (simp add: pipe_ok_def)
      show ?thesis using parse_right [OF e(2) b e(3), of Pipe Pipe] c by (simp add: e(1))
    qed
  qed
qed

lemma line_front:
  assumes "pipe_ok buf k" and h: "holds buf s (toks a 2 @ r)" and g: "good_cmd a" and f: "follows [41, 59] r"
    and k: "4 * length (toks a 2) + 4 \<le> k"
  obtains a' s1 b' s2 where "parsepipe k buf s = Ok (a', s1)" "parse_backs k buf s1 a' = Ok (b', s2)" "denotes buf b' a" "holds buf s2 r"
proof -
  obtain core n where c: "a = (Back ^^ n) core" "\<forall>c'. core \<noteq> Back c'" "good_cmd a = good_cmd core"
    "toks a 2 = toks core 2 @ replicate n (Sym 38)" by (rule back_core)
  have t: "toks a 2 = toks core 1 @ replicate n (Sym 38)" using toks_levels(2) [OF c(2)] c(4) by simp
  have fl: "follows [41, 38, 59] (replicate n (Sym 38) @ r)" using f by (cases n) (auto simp: follows_def)
  have k1: "4 * length (toks core 1) + 4 \<le> k" "n < k" using k unfolding t by auto
  have "parses buf (parsepipe k buf) (toks core 1) (replicate n (Sym 38) @ r) core"
    using assms(1) g c(3) k1(1) fl unfolding pipe_ok_def by blast
  moreover have "holds buf s (toks core 1 @ replicate n (Sym 38) @ r)" using h unfolding t by simp
  ultimately obtain a' s1 where p: "parsepipe k buf s = Ok (a', s1)" "denotes buf a' core" "holds buf s1 (replicate n (Sym 38) @ r)"
    by (rule parsesD)
  have "first_chr r \<noteq> 38" using f by (auto simp: follows_def)
  then obtain s2 where b: "parse_backs k buf s1 a' = Ok ((Back ^^ n) a', s2)" "holds buf s2 r"
    using parse_backs_holds [OF p(3) _ k1(2)] by blast
  show thesis by (rule that [OF p(1) b(1) _ b(2)]) (use denotes_backs [OF p(2), of n] c(1) in simp)
qed

lemma line_step:
  assumes "pipe_ok buf k" and "line_ok buf k"
  shows "line_ok buf (Suc k)"
  unfolding line_ok_def
proof (intro allI impI)
  fix c rest
  assume g: "good_cmd c" and f: "follows [41] rest" and k: "4 * length (toks c 3) + 5 \<le> Suc k"
  show "parses buf (parseline (Suc k) buf) (toks c 3) rest c"
    unfolding parses_def
  proof (intro allI impI)
    fix s assume h: "holds buf s (toks c 3 @ rest)"
    show "\<exists>c' s'. parseline (Suc k) buf s = Ok (c', s') \<and> denotes buf c' c \<and> holds buf s' rest"
    proof (cases "\<exists>a b. c = Lst a b")
      case False
      then have t: "toks c 3 = toks c 2" using toks_levels(3) by blast
      have fr: "follows [41, 59] rest" "first_chr rest \<noteq> 59" using f by (auto simp: follows_def)
      obtain a' s1 b' s2 where e: "parsepipe k buf s = Ok (a', s1)" "parse_backs k buf s1 a' = Ok (b', s2)"
        "denotes buf b' c" "holds buf s2 rest" by (rule line_front [OF assms(1) _ g fr(1)]) (use h k t in auto)
      show ?thesis using parse_no_right [OF e(4) fr(2) e(3), of "parseline k buf" Lst] by (simp add: e(1,2))
    next
      case True
      then obtain a b where c: "c = Lst a b" by blast
      then have t: "toks c 3 = toks a 2 @ Sym 59 # toks b 3" by (simp add: paren_def)
      have ga: "good_cmd a" "follows [41, 59] (Sym 59 # toks b 3 @ rest)" using g c by (simp_all add: follows_def)
      obtain a' s1 b' s2 where e: "parsepipe k buf s = Ok (a', s1)" "parse_backs k buf s1 a' = Ok (b', s2)"
        "denotes buf b' a" "holds buf s2 (Sym 59 # toks b 3 @ rest)"
        by (rule line_front [OF assms(1) _ ga, of s]) (use h k t in auto)
      have b: "parses buf (parseline k buf) (toks b 3) rest b" using assms(2) g k t c f by (simp add: line_ok_def)
      show ?thesis using parse_right [OF e(3) b e(4), of Lst Lst] c by (simp add: e(1,2))
    qed
  qed
qed

lemma parse_levels: "exec_ok buf k \<and> pipe_ok buf k \<and> line_ok buf k"
proof (induction k rule: less_induct)
  case (less k)
  have small: "exec_ok buf j \<and> pipe_ok buf j \<and> line_ok buf j" if "j < 3" for j
    using that by (auto simp: exec_ok_def pipe_ok_def line_ok_def)
  show ?case
  proof (cases "k < 3")
    case False
    then have "k = Suc (Suc (k - 2))" by simp
    then obtain j where "k = Suc (Suc j)" by blast
    then show ?thesis using less exec_step [of buf j] pipe_step [of buf "Suc j"] line_step [of buf "Suc j"] by auto
  qed (use small in blast)
qed

section \<open>The round trip\<close>

lemma good_toks: "good_cmd c \<Longrightarrow> \<forall>t\<in>set (toks c l). good_tok t"
  by (induction c arbitrary: l) (auto simp: paren_def redir_tok_def symbols_def)

lemma length_render: "\<forall>t\<in>set ts. good_tok t \<Longrightarrow> length ts \<le> length (render ts)"
  by (induction ts) auto

text \<open>The NULs end the words and overwrite none of their characters.\<close>

lemma arg_str_slice:
  assumes "\<forall>w\<in>set_cmd cmd. lone buf w" and "w \<in> set_cmd cmd"
  shows "arg_str (nulterminate cmd (buf @ [0])) w = slice buf w"
proof -
  let ?line = "nulterminate cmd (buf @ [0])"
  have w: "fst w < snd w" "snd w \<le> length buf" "good_word (slice buf w)" using assms by (auto simp: lone_def)
  have kept: "?line ! i = buf ! i \<and> buf ! i \<noteq> 0" if i: "fst w \<le> i" "i < snd w" for i
  proof -
    have "slice buf w ! (i - fst w) = buf ! i" "i - fst w < length (slice buf w)" using i w by (simp_all add: slice_def)
    then have "buf ! i \<in> set (slice buf w)" by (metis nth_mem)
    then have c: "buf ! i \<noteq> 0" "buf ! i \<noteq> 32" using w(3) by (auto simp: good_word_def whitespace_def)
    have "i \<notin> snd ` set_cmd cmd"
    proof
      assume "i \<in> snd ` set_cmd cmd"
      then obtain v where "v \<in> set_cmd cmd" "i = snd v" by blast
      then have "chr_at buf i \<in> {0, 32}" using assms(1) by (auto simp: lone_def)
      then show False using c i w by (simp add: chr_at_def)
    qed
    then show ?thesis using c i w by (simp add: nth_nulterminate nth_append)
  qed
  have "?line ! snd w = 0" using assms(2) w by (simp add: nth_nulterminate)
  then have "takeWhile (\<lambda>c. c \<noteq> 0) (drop (fst w) ?line) = take (snd w - fst w) (drop (fst w) ?line)"
    using kept w by (intro takeWhile_eq_take_P_nth) auto
  also have "\<dots> = slice buf w" unfolding slice_def by (rule nth_equalityI) (use kept w in auto)
  finally show ?thesis by (simp add: arg_str_def)
qed

text \<open>C25. The parser inverts printing. A command with words free of special characters, at most nine per program, printed with every token after a
  blank and parentheses where the grammar needs them, is parsed without an error to a command of the same shape, whose
  words, read as the NUL-terminated strings that \<^verbatim>\<open>exec()\<close> and \<^verbatim>\<open>open()\<close> are given, are the words printed.\<close>

theorem parsecmd_print:
  assumes "good_cmd c"
  shows "\<exists>cmd line. parsecmd (print_cmd c) = Ok (cmd, line) \<and> map_cmd (arg_str line) cmd = c"
proof -
  let ?buf = "print_cmd c"
  have h: "holds ?buf 0 (toks c 3 @ [])" using good_toks [OF assms, of 3] by (simp add: holds_def print_cmd_def)
  have "4 * length (toks c 3) + 5 \<le> 4 * length ?buf + 5"
    using length_render [OF good_toks [OF assms, of 3]] by (simp add: print_cmd_def)
  then have "parses ?buf (parseline (4 * length ?buf + 5) ?buf) (toks c 3) [] c"
    using parse_levels [of ?buf "4 * length ?buf + 5"] assms by (simp add: line_ok_def follows_def)
  from this h obtain c' s' where p: "parseline (4 * length ?buf + 5) ?buf 0 = Ok (c', s')" "denotes ?buf c' c" "holds ?buf s' []"
    by (rule parsesD)
  have e: "skip_ws ?buf s' = length ?buf" using skip_ws_holds [OF p(3)] by simp
  have "parsecmd ?buf = Ok (c', nulterminate c' (?buf @ [0]))" using p(1) e by (simp add: parsecmd_def sh_peek_def)
  moreover have "map_cmd (arg_str (nulterminate c' (?buf @ [0]))) c' = map_cmd (slice ?buf) c'"
    using p(2) by (intro cmd.map_cong refl arg_str_slice) (auto simp: denotes_def)
  ultimately show ?thesis using p(2) by (auto simp: denotes_def)
qed

text \<open>The command \<^verbatim>\<open>( a b | c >> d ; e ) &\<close>.\<close>

theorem parsecmd_print_witness:
  "\<exists>c cmd line. print_cmd c = [32, 40, 32, 97, 32, 98, 32, 124, 32, 99, 32, 62, 62, 32, 100, 32, 59, 32, 101, 32, 41, 32, 38] \<and>
     parsecmd (print_cmd c) = Ok (cmd, line) \<and> map_cmd (arg_str line) cmd = c"
proof -
  let ?c = "Back (Lst (Pipe (Exec [[97], [98]]) (Redir (Exec [[99]]) [100] 0x201 1)) (Exec [[101]])) :: uchar list cmd"
  have g: "good_cmd ?c" by (simp add: good_word_def whitespace_def symbols_def)
  have "print_cmd ?c = [32, 40, 32, 97, 32, 98, 32, 124, 32, 99, 32, 62, 62, 32, 100, 32, 59, 32, 101, 32, 41, 32, 38]"
    by (simp add: print_cmd_def paren_def redir_tok_def)
  with parsecmd_print [OF g] show ?thesis by blast
qed

end
