(* ===== verification/Sh_Run.thy ===== *)
theory Sh_Run
  imports Sh
begin

text \<open>
  What the shell does with a command: \<^verbatim>\<open>runcmd()\<close>, \<^verbatim>\<open>fork1()\<close> and \<^verbatim>\<open>main()\<close> of \<^verbatim>\<open>user/sh.c\<close>. A process that makes system calls is a tree
  that branches on their results. The tree is run over a table of file descriptors as the kernel keeps it:
  \<^verbatim>\<open>open()\<close>, \<^verbatim>\<open>dup()\<close> and \<^verbatim>\<open>pipe()\<close> take the lowest free ones. Which files can be opened is an argument.
\<close>

section \<open>Processes as trees of system calls\<close>

datatype prog =
    Exit int
  | Execv "uchar list list" prog
  | Close nat prog
  | Open "uchar list" int "int \<Rightarrow> prog"
  | Dup nat prog
  | MkPipe "(nat \<times> nat) option \<Rightarrow> prog"
  | Fork prog prog prog
  | Wait prog

text \<open>\<^verbatim>\<open>fork1()\<close>: the child, the parent, and what happens when there is no child; the messages on descriptor 2 are left out.\<close>

definition sh_panic :: prog where
  "sh_panic = Exit 1"

definition fork1 :: "prog \<Rightarrow> prog \<Rightarrow> prog" where
  "fork1 child parent = Fork child parent sh_panic"

primrec runcmd :: "uchar list cmd \<Rightarrow> prog" where
  "runcmd (Exec argv) = (if argv = [] then Exit 1 else Execv argv (Exit 0))"
| "runcmd (Redir c f mode fd) = Close (nat fd) (Open f mode (\<lambda>r. if r < 0 then Exit 1 else runcmd c))"
| "runcmd (Lst l r) = fork1 (runcmd l) (Wait (runcmd r))"
| "runcmd (Pipe l r) =
     MkPipe (\<lambda>p. case p of
         None \<Rightarrow> sh_panic
       | Some (p0, p1) \<Rightarrow>
           fork1 (Close 1 (Dup p1 (Close p0 (Close p1 (runcmd l)))))
             (fork1 (Close 0 (Dup p0 (Close p0 (Close p1 (runcmd r)))))
               (Close p0 (Close p1 (Wait (Wait (Exit 0)))))))"
| "runcmd (Back c) = fork1 (runcmd c) (Exit 0)"

section \<open>main()\<close>

datatype sh_act = Blank | Chdir "uchar list" | Run "(span cmd \<times> uchar list) res"

text \<open>What \<^verbatim>\<open>main()\<close> does with one line, and with all of its input, which it reads by \<^verbatim>\<open>gets()\<close> into a buffer of 100 characters.\<close>

definition sh_line :: "uchar list \<Rightarrow> sh_act" where
  "sh_line buf =
     (let cmd = dropWhile (\<lambda>c. c = 32 \<or> c = 9) buf in
      if cmd \<noteq> [] \<and> hd cmd = 10 then Blank
      else if take 3 cmd = [99, 100, 32] then Chdir (drop 3 (butlast cmd))
      else Run (parsecmd cmd))"

lemma gets_loop_shorter: "fst (gets_loop k inp) \<noteq> [] \<Longrightarrow> length (snd (gets_loop k inp)) < length inp"
proof (induction k inp rule: gets_loop.induct)
  case (3 k c inp)
  have "length (snd (gets_loop k inp)) \<le> length inp" for k inp
    by (induction k inp rule: gets_loop.induct) (auto simp: split_beta)
  then show ?case by (simp add: split_beta less_Suc_eq_le)
qed simp_all

function sh_main :: "uchar list \<Rightarrow> sh_act list" where
  "sh_main inp =
     (let (line, rest) = gets 100 inp; buf = takeWhile (\<lambda>c. c \<noteq> 0) line in
      if buf = [] then [] else sh_line buf # sh_main rest)"
  by pat_completeness auto
termination
proof (relation "measure length")
  fix inp :: "uchar list" and x line rest buf
  assume "x = gets 100 inp" "(line, rest) = x" "buf = takeWhile (\<lambda>c. c \<noteq> 0) line" "buf \<noteq> []"
  then show "(rest, inp) \<in> measure length"
    using gets_loop_shorter [of "nat (100 - 1)" inp] by (auto simp: gets_def) (metis fst_conv snd_conv takeWhile.simps(1))
qed simp

section \<open>Running a tree\<close>

text \<open>What a descriptor refers to: an inherited file, a file opened by the shell, or an end of a pipe, by the pipe's number.\<close>

datatype fdobj = Inherited nat | Opened "uchar list" int | PipeRead nat | PipeWrite nat

type_synonym fds = "nat \<Rightarrow> fdobj option"

definition lowest :: "fds \<Rightarrow> nat option" where
  "lowest t = find (\<lambda>i. t i = None) [0..<NOFILE]"

text \<open>
  The programs that a process and its children start, each with its arguments and its descriptors, and how many
  pipes there are then. \<open>can\<close> says which files can be opened; a process can always be forked, and a program that is
  started does not return.
\<close>

primrec starts :: "prog \<Rightarrow> (uchar list \<Rightarrow> int \<Rightarrow> bool) \<Rightarrow> fds \<Rightarrow> nat \<Rightarrow> (uchar list list \<times> fds) list \<times> nat" where
  "starts (Exit st) can t n = ([], n)"
| "starts (Execv argv k) can t n = ([(argv, t)], n)"
| "starts (Close fd k) can t n = starts k can (t(fd := None)) n"
| "starts (Open f mode k) can t n =
     (case (if can f mode then lowest t else None) of
        None \<Rightarrow> starts (k (-1)) can t n
      | Some fd \<Rightarrow> starts (k (int fd)) can (t(fd \<mapsto> Opened f mode)) n)"
| "starts (Dup fd k) can t n =
     (case lowest t of None \<Rightarrow> starts k can t n | Some d \<Rightarrow> starts k can (t(d := t fd)) n)"
| "starts (MkPipe k) can t n =
     (case lowest t of
        None \<Rightarrow> starts (k None) can t n
      | Some p0 \<Rightarrow>
          (case lowest (t(p0 \<mapsto> PipeRead n)) of
             None \<Rightarrow> starts (k None) can t n
           | Some p1 \<Rightarrow> starts (k (Some (p0, p1))) can (t(p0 \<mapsto> PipeRead n, p1 \<mapsto> PipeWrite n)) (n + 1)))"
| "starts (Fork child parent failed) can t n =
     (let (xs, n) = starts child can t n; (ys, n) = starts parent can t n in (xs @ ys, n))"
| "starts (Wait k) can t n = starts k can t n"

section \<open>What a command means\<close>

text \<open>
  The programs of a command with their descriptors: a redirection replaces one descriptor, a pipe replaces descriptor 1 on its
  left and 0 on its right, and nothing else changes.
\<close>

primrec wiring :: "uchar list cmd \<Rightarrow> (uchar list \<Rightarrow> int \<Rightarrow> bool) \<Rightarrow> fds \<Rightarrow> nat \<Rightarrow> (uchar list list \<times> fds) list \<times> nat" where
  "wiring (Exec argv) can t n = (if argv = [] then [] else [(argv, t)], n)"
| "wiring (Redir c f mode fd) can t n = (if can f mode then wiring c can (t(nat fd \<mapsto> Opened f mode)) n else ([], n))"
| "wiring (Lst l r) can t n =
     (let (xs, n) = wiring l can t n; (ys, n) = wiring r can t n in (xs @ ys, n))"
| "wiring (Pipe l r) can t n =
     (let (xs, n') = wiring l can (t(1 \<mapsto> PipeWrite n)) (n + 1); (ys, n'') = wiring r can (t(0 \<mapsto> PipeRead n)) n' in (xs @ ys, n''))"
| "wiring (Back c) can t n = wiring c can t n"

primrec std_redirs :: "'w cmd \<Rightarrow> bool" where
  "std_redirs (Exec argv) = True"
| "std_redirs (Redir c f mode fd) = ((fd = 0 \<or> fd = 1) \<and> std_redirs c)"
| "std_redirs (Lst l r) = (std_redirs l \<and> std_redirs r)"
| "std_redirs (Pipe l r) = (std_redirs l \<and> std_redirs r)"
| "std_redirs (Back c) = std_redirs c"

text \<open>Descriptors 0 to 2 are open and two are free.\<close>

definition table_ok :: "fds \<Rightarrow> bool" where
  "table_ok t \<longleftrightarrow> t 0 \<noteq> None \<and> t 1 \<noteq> None \<and> t 2 \<noteq> None \<and> (\<exists>i j. i < j \<and> j < NOFILE \<and> t i = None \<and> t j = None)"

lemma lowest_Some: "lowest t = Some i \<longleftrightarrow> i < NOFILE \<and> t i = None \<and> (\<forall>j<i. t j \<noteq> None)"
  unfolding lowest_def by (auto simp: find_Some_iff)

lemma lowestI: "i < NOFILE \<Longrightarrow> t i = None \<Longrightarrow> (\<And>j. j < i \<Longrightarrow> t j \<noteq> None) \<Longrightarrow> lowest t = Some i"
  by (simp add: lowest_Some)

lemma lowest_None: "lowest t = None \<longleftrightarrow> (\<forall>i<NOFILE. t i \<noteq> None)"
  unfolding lowest_def by (auto simp: find_None_iff)

text \<open>The two descriptors of a pipe.\<close>

lemma pipe_fds:
  assumes "table_ok t"
  obtains p0 p1 where "lowest t = Some p0" "\<forall>x. lowest (t(p0 \<mapsto> x)) = Some p1" "2 < p0" "p0 < p1" "t p0 = None" "t p1 = None"
proof -
  obtain i j where ij: "i < j" "j < NOFILE" "t i = None" "t j = None" using assms by (auto simp: table_ok_def)
  then obtain p0 where p0: "lowest t = Some p0" using lowest_None [of t] by (cases "lowest t") auto
  note l0 = p0 [unfolded lowest_Some]
  have "p0 \<le> i" using l0 ij by (meson not_le)
  then have "lowest (t(p0 \<mapsto> Inherited 0)) \<noteq> None" using ij unfolding lowest_None by (metis fun_upd_apply leD)
  then obtain p1 where p1: "lowest (t(p0 \<mapsto> Inherited 0)) = Some p1" by blast
  note l1 = p1 [unfolded lowest_Some]
  have "p1 \<noteq> p0" "t p1 = None" using l1 by (auto split: if_splits)
  then have lt: "p0 < p1" using l0 by (meson nat_neq_iff)
  have any: "lowest (t(p0 \<mapsto> x)) = Some p1" for x
    unfolding lowest_Some using l1 \<open>p1 \<noteq> p0\<close> \<open>t p1 = None\<close> by (auto split: if_splits)
  have "p0 \<noteq> 0" "p0 \<noteq> 1" "p0 \<noteq> 2" using l0 assms unfolding table_ok_def by metis+
  then have "2 < p0" by simp
  then show thesis by (rule that [OF p0 allI [OF any] _ lt]) (use l0 \<open>t p1 = None\<close> in simp_all)
qed

lemma table_ok_upd:
  assumes "table_ok t" and "fd < 3"
  shows "table_ok (t(fd \<mapsto> x))"
proof -
  obtain i j where ij: "i < j" "j < NOFILE" "t i = None" "t j = None" using assms by (auto simp: table_ok_def)
  have "fd = 0 \<or> fd = 1 \<or> fd = 2" using assms(2) by auto
  then have "t fd \<noteq> None" using assms(1) by (auto simp: table_ok_def)
  then have "i \<noteq> fd" "j \<noteq> fd" using ij by auto
  then have "\<exists>i j. i < j \<and> j < NOFILE \<and> (t(fd \<mapsto> x)) i = None \<and> (t(fd \<mapsto> x)) j = None"
    using ij by (intro exI [of _ i] exI [of _ j]) simp
  then show ?thesis using assms(1) unfolding table_ok_def by simp
qed

lemma lowest_std:
  assumes "table_ok t" and "fd = 0 \<or> fd = 1"
  shows "lowest (t(fd := None)) = Some fd"
  using assms by (auto simp: lowest_Some table_ok_def)

text \<open>C26. Whatever command line the shell runs, from a table with descriptors 0 to 2 open and two free, the programs that are started have exactly the
  arguments and descriptors that the command means: its redirections and pipe ends on descriptors 0 and 1, the other descriptors
  as the shell has them, and no pipe end left open. A command whose file cannot be opened is not started.\<close>

theorem runcmd_wiring:
  assumes "table_ok t" and "std_redirs c"
  shows "starts (runcmd c) can t n = wiring c can t n"
  using assms
proof (induction c arbitrary: t n)
  case (Redir c f mode fd)
  then have fd: "nat fd = 0 \<or> nat fd = 1" by auto
  have "starts (runcmd c) can (t(nat fd \<mapsto> Opened f mode)) n = wiring c can (t(nat fd \<mapsto> Opened f mode)) n"
    using Redir fd by (intro Redir.IH table_ok_upd) auto
  then show ?case by (simp add: lowest_std [OF Redir.prems(1) fd])
next
  case (Pipe l r)
  obtain p0 p1 where p: "lowest t = Some p0" "\<forall>x. lowest (t(p0 \<mapsto> x)) = Some p1" "2 < p0" "p0 < p1" "t p0 = None" "t p1 = None"
    by (rule pipe_fds [OF Pipe.prems(1)])
  let ?t = "t(p0 \<mapsto> PipeRead n, p1 \<mapsto> PipeWrite n)"
  have t: "?t 0 \<noteq> None" using p Pipe.prems(1) by (auto simp: table_ok_def)
  have l1: "lowest (?t(1 := None)) = Some 1" using t by (intro lowestI) auto
  have l0: "lowest (?t(0 := None)) = Some 0" by (intro lowestI) auto
  have left: "((?t(1 := None))(1 := (?t(1 := None)) p1))(p0 := None, p1 := None) = t(1 \<mapsto> PipeWrite n)"
    using p by (auto simp: fun_eq_iff)
  have right: "((?t(0 := None))(0 := (?t(0 := None)) p0))(p0 := None, p1 := None) = t(0 \<mapsto> PipeRead n)"
    using p by (auto simp: fun_eq_iff)
  have ih: "starts (runcmd l) can (t(1 \<mapsto> PipeWrite n)) m = wiring l can (t(1 \<mapsto> PipeWrite n)) m"
    "starts (runcmd r) can (t(0 \<mapsto> PipeRead n)) m = wiring r can (t(0 \<mapsto> PipeRead n)) m" for m
    by (rule Pipe.IH(1) [OF table_ok_upd [OF Pipe.prems(1)]], use Pipe.prems in simp_all)
      (rule Pipe.IH(2) [OF table_ok_upd [OF Pipe.prems(1)]], use Pipe.prems in simp_all)
  show ?case
    by (simp only: runcmd.simps fork1_def starts.simps p(1) p(2) [rule_format] option.case prod.case l1 l0 left right ih wiring.simps)
      (simp add: split_beta)
qed (simp_all add: fork1_def split_beta)

text \<open>The command \<^verbatim>\<open>a < f | b\<close> in a process with descriptors 0 to 2.\<close>

theorem runcmd_wiring_witness:
  "starts (runcmd (Pipe (Redir (Exec [[97]]) [102] 0 0) (Exec [[98]]))) (\<lambda>_ _. True) (\<lambda>i. if i < 3 then Some (Inherited i) else None) 0 =
     ([([[97]], (\<lambda>i. if i < 3 then Some (Inherited i) else None)(1 \<mapsto> PipeWrite 0, 0 \<mapsto> Opened [102] 0)),
       ([[98]], (\<lambda>i. if i < 3 then Some (Inherited i) else None)(0 \<mapsto> PipeRead 0))], 1)"
proof -
  let ?t = "\<lambda>i. if i < 3 then Some (Inherited i) else None"
  have "\<exists>i j. i < j \<and> j < NOFILE \<and> ?t i = None \<and> ?t j = None" by (intro exI [of _ 3] exI [of _ 4]) simp
  then have ok: "table_ok ?t" unfolding table_ok_def by simp
  show ?thesis by (subst runcmd_wiring [OF ok]) simp_all
qed

end
