(* ===== verification/Spec2Isabelle.thy ===== *)
theory Spec2Isabelle
  imports Vm_Cow Spinlock Scheduler Log_Props Trap Pipe_Props Proc_Fork Fs_Inode Fs_Bitmap Grep Printf Ulib Console Sh Sh_Parse Sh_Run
begin

text \<open>
  A model of the xv6-riscv kernel with copy-on-write fork and a priority scheduler with aging, and the
  theorems that make it correct. Source paths are relative to the repository.

  \<^item> \<^verbatim>\<open>Prelude\<close>, \<^verbatim>\<open>Riscv\<close>, \<^verbatim>\<open>Bytes\<close>: machine words, results (\<open>Ok\<close>, \<open>Panic\<close>, \<open>Blocked\<close>, \<open>OutOfFuel\<close>), the constants of
    \<^verbatim>\<open>kernel/param.h\<close>, \<^verbatim>\<open>kernel/riscv.h\<close> and \<^verbatim>\<open>kernel/memlayout.h\<close>, little-endian fields of a block.
  \<^item> \<^verbatim>\<open>Kstring\<close> (\<^verbatim>\<open>kernel/string.c\<close>), \<^verbatim>\<open>Kalloc\<close> (\<^verbatim>\<open>kernel/kalloc.c\<close>), \<^verbatim>\<open>Vm\<close> and \<^verbatim>\<open>Vm_*\<close> (\<^verbatim>\<open>kernel/vm.c\<close>).
  \<^item> \<^verbatim>\<open>Spinlock\<close> (\<^verbatim>\<open>kernel/spinlock.c\<close>), \<^verbatim>\<open>Proc\<close> and \<^verbatim>\<open>Scheduler\<close> (\<^verbatim>\<open>kernel/proc.c\<close>).
  \<^item> \<^verbatim>\<open>Bio\<close>, \<^verbatim>\<open>Bio_Session\<close> (\<^verbatim>\<open>kernel/bio.c\<close>, \<^verbatim>\<open>kernel/sleeplock.c\<close>), \<^verbatim>\<open>Log\<close>, \<^verbatim>\<open>Log_Crash\<close>, \<^verbatim>\<open>Log_Props\<close> (\<^verbatim>\<open>kernel/log.c\<close>).
\<close>

end
